(* ===== verification/ES_Prelude.thy ===== *)
theory ES_Prelude
  imports Main "HOL-Library.Word"
begin

text \<open>
  Shared vocabulary of the development.

  \<^item> Number types. Rust's unsigned integers are natural numbers and its signed ones integers;
    wherever the source casts, wraps or saturates, the width is written out (\<open>sat_add64\<close>, \<open>i64_of\<close>,
    the \<open>mod\<close> inside \<open>be_bytes\<close>). Bytes are 8-bit words.
  \<^item> Big-endian byte encodings (\<open>to_be_bytes\<close> and \<open>from_be_bytes\<close>), with both round trips.
  \<^item> Slices of byte vectors.
  \<^item> A bounds-checked reader over a byte slice, as \<open>Reader\<close> in \<open>raft/messages.rs\<close> and
    \<open>WireReader\<close> in \<open>es-protocol/src/wire.rs\<close> have it, and the locale \<open>codec\<close>: a writer and a
    reader such that the reader returns what the writer wrote and leaves the rest.
\<close>

unbundle bit_operations_syntax

type_synonym u8 = "8 word"

named_theorems codec_simps \<open>equations that unfold encoders and readers\<close>
named_theorems codec_intros \<open>rules that read back what a writer wrote\<close>


section \<open>Rust integers\<close>

abbreviation u32_max :: nat where "u32_max \<equiv> 2 ^ 32 - 1"
abbreviation u64_max :: nat where "u64_max \<equiv> 2 ^ 64 - 1"
abbreviation i64_max :: int where "i64_max \<equiv> 2 ^ 63 - 1"
abbreviation i64_min :: int where "i64_min \<equiv> - (2 ^ 63)"

text \<open>\<open>u64::saturating_add\<close>, \<open>i64::saturating_add\<close>, \<open>i64::saturating_sub\<close>.\<close>

definition sat_add64 :: "nat \<Rightarrow> nat \<Rightarrow> nat" where
  "sat_add64 a b = min (a + b) u64_max"

definition clamp_i64 :: "int \<Rightarrow> int" where
  "clamp_i64 i = max i64_min (min i64_max i)"

definition sat_add_i64 :: "int \<Rightarrow> int \<Rightarrow> int" where
  "sat_add_i64 a b = clamp_i64 (a + b)"

definition sat_sub_i64 :: "int \<Rightarrow> int \<Rightarrow> int" where
  "sat_sub_i64 a b = clamp_i64 (a - b)"

text \<open>The casts \<open>as i32\<close>, \<open>as i64\<close> (two's complement) and back.\<close>

definition i32_of :: "nat \<Rightarrow> int" where
  "i32_of n = (let m = n mod 2 ^ 32 in if m < 2 ^ 31 then int m else int m - 2 ^ 32)"

definition i64_of :: "nat \<Rightarrow> int" where
  "i64_of n = (let m = n mod 2 ^ 64 in if m < 2 ^ 63 then int m else int m - 2 ^ 64)"

definition u32_of :: "int \<Rightarrow> nat" where
  "u32_of i = nat (i mod 2 ^ 32)"

definition u64_of :: "int \<Rightarrow> nat" where
  "u64_of i = nat (i mod 2 ^ 64)"

lemma sat_add64_exact [simp]: "a + b \<le> u64_max \<Longrightarrow> sat_add64 a b = a + b"
  by (simp add: sat_add64_def)

lemma sat_add64_ge: "a \<le> u64_max \<Longrightarrow> a \<le> sat_add64 a b"
  by (simp add: sat_add64_def)

lemma sat_add64_le: "sat_add64 a b \<le> u64_max"
  by (simp add: sat_add64_def)

lemma u32_of_less [simplified, simp]: "u32_of i < 2 ^ 32"
  by (simp add: u32_of_def nat_less_iff)

lemma u64_of_less [simplified, simp]: "u64_of i < 2 ^ 64"
  by (simp add: u64_of_def nat_less_iff)

lemma mod_two_complement:
  fixes i m :: int
  assumes "- m \<le> i" "i < m" "0 < m"
  shows "i mod m = (if i < 0 then i + m else i)"
proof (cases "i < 0")
  case True
  have "i mod m = (i + m) mod m" by simp
  also have "\<dots> = i + m" using True assms by (intro mod_pos_pos_trivial) auto
  finally show ?thesis using True by simp
next
  case False
  then show ?thesis using assms by (simp add: mod_pos_pos_trivial)
qed

lemma i32_of_u32_of:
  assumes "- (2 ^ 31) \<le> i" "i < 2 ^ 31"
  shows "i32_of (u32_of i) = i"
proof -
  have "i mod 2 ^ 32 = (if i < 0 then i + 2 ^ 32 else i)"
    using assms by (intro mod_two_complement) auto
  then show ?thesis using assms by (cases "i < 0") (simp_all add: i32_of_def u32_of_def Let_def nat_less_iff)
qed

lemma i64_of_u64_of:
  assumes "i64_min \<le> i" "i \<le> i64_max"
  shows "i64_of (u64_of i) = i"
proof -
  have "i mod 2 ^ 64 = (if i < 0 then i + 2 ^ 64 else i)"
    using assms by (intro mod_two_complement) auto
  then show ?thesis using assms by (cases "i < 0") (simp_all add: i64_of_def u64_of_def Let_def nat_less_iff)
qed

lemma u32_of_i32_of: "n < 2 ^ 32 \<Longrightarrow> u32_of (i32_of n) = n"
  unfolding i32_of_def u32_of_def Let_def
  by (subst mod_two_complement) auto

lemma u64_of_i64_of: "n < 2 ^ 64 \<Longrightarrow> u64_of (i64_of n) = n"
  unfolding i64_of_def u64_of_def Let_def
  by (subst mod_two_complement) auto

lemma i32_of_bounds: "- (2 ^ 31) \<le> i32_of n \<and> i32_of n < 2 ^ 31"
  unfolding i32_of_def Let_def by auto

lemma i64_of_bounds: "i64_min \<le> i64_of n \<and> i64_of n \<le> i64_max"
  unfolding i64_of_def Let_def by auto

lemma nat_i32_of: "n < 2 ^ 32 \<Longrightarrow> 0 \<le> i32_of n \<Longrightarrow> nat (i32_of n) = n"
  unfolding i32_of_def Let_def by (auto split: if_splits)

lemma i32_of_small: "n < 2 ^ 31 \<Longrightarrow> i32_of n = int n"
  by (simp add: i32_of_def)

lemma i32_of_u32_of_m1 [simp]: "i32_of (u32_of (- 1)) = - 1"
  by (rule i32_of_u32_of) auto

lemma u64_of_nat: "n < 2 ^ 64 \<Longrightarrow> u64_of (int n) = n"
  by (simp add: u64_of_def)


section \<open>Big-endian bytes\<close>

text \<open>\<open>be_bytes k x\<close> is \<open>(x as uN).to_be_bytes()\<close> for the \<open>k\<close>-byte type \<open>uN\<close>.\<close>

fun be_bytes :: "nat \<Rightarrow> nat \<Rightarrow> u8 list" where
  "be_bytes 0 x = []"
| "be_bytes (Suc k) x = be_bytes k (x div 256) @ [word_of_nat (x mod 256)]"

definition from_be_bytes :: "u8 list \<Rightarrow> nat" where
  "from_be_bytes bs = foldl (\<lambda>a b. a * 256 + unat b) 0 bs"

lemma length_be_bytes [simp]: "length (be_bytes k x) = k"
  by (induction k arbitrary: x) auto

lemma be_bytes_eq_Nil [simp]: "be_bytes k x = [] \<longleftrightarrow> k = 0"
  by (cases k) auto

lemma from_be_bytes_Nil [simp]: "from_be_bytes [] = 0"
  by (simp add: from_be_bytes_def)

lemma from_be_bytes_snoc [simp]: "from_be_bytes (bs @ [b]) = from_be_bytes bs * 256 + unat b"
  by (simp add: from_be_bytes_def)

lemma unat_byte [simp]: "x < 256 \<Longrightarrow> unat (word_of_nat x :: u8) = x"
  by (simp add: unat_of_nat take_bit_eq_mod)

lemma unat_u8_less [simp]: "unat (b :: u8) < 256"
  by (rule order_less_le_trans[OF unsigned_less]) simp

lemma from_be_be_bytes: "from_be_bytes (be_bytes k x) = x mod 256 ^ k"
proof (induction k arbitrary: x)
  case 0
  then show ?case by simp
next
  case (Suc k)
  have "from_be_bytes (be_bytes (Suc k) x) = (x div 256) mod 256 ^ k * 256 + x mod 256"
    using Suc.IH[of "x div 256"] by simp
  also have "\<dots> = x mod (256 * 256 ^ k)"
    by (simp add: mod_mult2_eq)
  finally show ?case by simp
qed

lemma from_be_bytes_less: "from_be_bytes bs < 256 ^ length bs"
proof (induction bs rule: rev_induct)
  case Nil
  then show ?case by simp
next
  case (snoc b bs)
  have "from_be_bytes bs * 256 + unat b < (from_be_bytes bs + 1) * 256"
    by simp
  also have "\<dots> \<le> 256 ^ length bs * 256"
    using snoc.IH by (intro mult_right_mono) auto
  finally show ?case by (simp add: mult.commute)
qed

lemma be_bytes_from_be: "length bs = k \<Longrightarrow> be_bytes k (from_be_bytes bs) = bs"
proof (induction k arbitrary: bs)
  case 0
  then show ?case by simp
next
  case (Suc k)
  then obtain xs b where bs: "bs = xs @ [b]" and "length xs = k"
    by (metis length_Suc_conv_rev)
  then have "be_bytes k (from_be_bytes xs) = xs" using Suc.IH by blast
  then show ?case by (simp add: bs)
qed

lemma be_bytes_mod: "be_bytes k (x mod 256 ^ k) = be_bytes k x"
  by (metis be_bytes_from_be from_be_be_bytes length_be_bytes)

lemma from_be_4 [simp]: "x < 2 ^ 32 \<Longrightarrow> from_be_bytes (be_bytes 4 x) = x"
  by (simp add: from_be_be_bytes)

lemma from_be_8 [simp]: "x < 2 ^ 64 \<Longrightarrow> from_be_bytes (be_bytes 8 x) = x"
  by (simp add: from_be_be_bytes)

lemma from_be_2 [simp]: "x < 2 ^ 16 \<Longrightarrow> from_be_bytes (be_bytes 2 x) = x"
  by (simp add: from_be_be_bytes)

lemma from_be_4_less: "length bs = 4 \<Longrightarrow> from_be_bytes bs < 2 ^ 32"
  using from_be_bytes_less[of bs] by simp

lemma from_be_8_less: "length bs = 8 \<Longrightarrow> from_be_bytes bs < 2 ^ 64"
  using from_be_bytes_less[of bs] by simp


lemma find_in_set: "find P xs = Some x \<Longrightarrow> x \<in> set xs \<and> P x"
  by (auto simp: find_Some_iff)


section \<open>Slices\<close>

text \<open>\<open>&xs[a..b]\<close>, for \<open>a \<le> b \<le> xs.len()\<close>.\<close>

definition subslice :: "nat \<Rightarrow> nat \<Rightarrow> 'a list \<Rightarrow> 'a list" where
  "subslice a b xs = take (b - a) (drop a xs)"

lemma length_subslice: "b \<le> length xs \<Longrightarrow> length (subslice a b xs) = b - a"
  by (simp add: subslice_def)

lemma subslice_append_left [simp]: "length xs = a \<Longrightarrow> length ys = b - a \<Longrightarrow> subslice a b (xs @ ys @ zs) = ys"
  by (simp add: subslice_def)

lemma take_subslice: "a \<le> b \<Longrightarrow> b \<le> length xs \<Longrightarrow> take a xs @ subslice a b xs = take b xs"
  unfolding subslice_def by (metis le_add_diff_inverse take_add)

lemma subslice_drop: "a \<le> b \<Longrightarrow> b \<le> length xs \<Longrightarrow> subslice a b xs @ drop b xs = drop a xs"
  unfolding subslice_def by (metis append_take_drop_id drop_drop le_add_diff_inverse2)

lemma subslice_join: "a \<le> b \<Longrightarrow> b \<le> c \<Longrightarrow> subslice a b xs @ subslice b c xs = subslice a c xs"
  using take_add[of "b - a" "c - b" "drop a xs"] by (simp add: subslice_def)

lemma subslice_all: "subslice 0 (length xs) xs = xs"
  by (simp add: subslice_def)

lemma subslice_append: "b \<le> length xs \<Longrightarrow> subslice a b (xs @ ys) = subslice a b xs"
  by (simp add: subslice_def)


section \<open>Readers\<close>

text \<open>
  A reader is a function from the unread bytes to an error, or a value and the bytes left. The
  error kinds the decoders raise are \<open>UnexpectedEof\<close> for a short slice and
  \<open>InvalidData\<close> for bytes that are there but not acceptable; \<open>NotFound\<close> is for files.
\<close>

datatype io_error = UnexpectedEof | InvalidData | NotFound

type_synonym 'a reader = "u8 list \<Rightarrow> io_error + 'a \<times> u8 list"

definition rret :: "'a \<Rightarrow> 'a reader" where
  "rret a bs = Inr (a, bs)"

definition rfail :: "io_error \<Rightarrow> 'a reader" where
  "rfail e bs = Inl e"

definition rbind :: "'a reader \<Rightarrow> ('a \<Rightarrow> 'b reader) \<Rightarrow> 'b reader" where
  "rbind m f bs = (case m bs of Inl e \<Rightarrow> Inl e | Inr (a, bs') \<Rightarrow> f a bs')"

definition rd_bytes :: "nat \<Rightarrow> u8 list reader" where
  "rd_bytes n bs = (if length bs < n then Inl UnexpectedEof else Inr (take n bs, drop n bs))"

definition rd_u8 :: "nat reader" where
  "rd_u8 = rbind (rd_bytes 1) (\<lambda>b. rret (from_be_bytes b))"

definition rd_u16 :: "nat reader" where
  "rd_u16 = rbind (rd_bytes 2) (\<lambda>b. rret (from_be_bytes b))"

definition rd_u32 :: "nat reader" where
  "rd_u32 = rbind (rd_bytes 4) (\<lambda>b. rret (from_be_bytes b))"

definition rd_u64 :: "nat reader" where
  "rd_u64 = rbind (rd_bytes 8) (\<lambda>b. rret (from_be_bytes b))"

text \<open>\<open>for _ in 0..n { out.push(r()?) }\<close>.\<close>

fun rd_times :: "nat \<Rightarrow> 'a reader \<Rightarrow> 'a list reader" where
  "rd_times 0 r = rret []"
| "rd_times (Suc n) r = rbind r (\<lambda>x. rbind (rd_times n r) (\<lambda>xs. rret (x # xs)))"

definition put_bool :: "bool \<Rightarrow> u8 list" where
  "put_bool b = be_bytes 1 (if b then 1 else 0)"

definition rd_bool :: "bool reader" where
  "rd_bool = rbind rd_u8 (\<lambda>n. rret (n \<noteq> 0))"

text \<open>The reader \<open>r\<close>, started on \<open>bs\<close> followed by anything, returns \<open>a\<close> and consumes \<open>bs\<close>.\<close>

definition reads :: "'a reader \<Rightarrow> u8 list \<Rightarrow> 'a \<Rightarrow> bool" where
  "reads r bs a \<longleftrightarrow> (\<forall>rest. r (bs @ rest) = Inr (a, rest))"

lemma reads_rret [codec_intros]: "reads (rret a) [] a"
  by (simp add: reads_def rret_def)

lemma reads_bind [codec_intros]:
  "reads m b1 a \<Longrightarrow> reads (f a) b2 c \<Longrightarrow> reads (rbind m f) (b1 @ b2) c"
  by (simp add: reads_def rbind_def)

lemma reads_bind_ret [codec_intros]: "reads m b1 a \<Longrightarrow> c = f a \<Longrightarrow> reads (rbind m (\<lambda>x. rret (f x))) b1 c"
  by (simp add: reads_def rbind_def rret_def)

lemma reads_bytes [codec_intros]: "length bs = n \<Longrightarrow> reads (rd_bytes n) bs bs"
  by (simp add: reads_def rd_bytes_def)

lemma reads_u8 [codec_intros]: "x < 2 ^ 8 \<Longrightarrow> reads rd_u8 (be_bytes 1 x) x"
  by (simp add: reads_def rd_u8_def rbind_def rd_bytes_def rret_def from_be_be_bytes del: be_bytes.simps)

lemma reads_u16 [codec_intros]: "x < 2 ^ 16 \<Longrightarrow> reads rd_u16 (be_bytes 2 x) x"
  by (simp add: reads_def rd_u16_def rbind_def rd_bytes_def rret_def)

lemma reads_u32 [codec_intros]: "x < 2 ^ 32 \<Longrightarrow> reads rd_u32 (be_bytes 4 x) x"
  by (simp add: reads_def rd_u32_def rbind_def rd_bytes_def rret_def)

lemma reads_u64 [codec_intros]: "x < 2 ^ 64 \<Longrightarrow> reads rd_u64 (be_bytes 8 x) x"
  by (simp add: reads_def rd_u64_def rbind_def rd_bytes_def rret_def)

lemma reads_bool [codec_intros]: "reads rd_bool (put_bool b) b"
  unfolding rd_bool_def put_bool_def by (rule reads_bind_ret[OF reads_u8]) auto

lemma readsD: "reads r bs a \<Longrightarrow> r (bs @ rest) = Inr (a, rest)"
  by (simp add: reads_def)

text \<open>The same facts as rewrite rules: run a reader over the bytes of a writer.\<close>

lemma rbind_run [codec_simps]: "m bs = Inr (a, bs') \<Longrightarrow> rbind m f bs = f a bs'"
  by (simp add: rbind_def)

lemmas reader_runs [codec_simps] =
  readsD[OF reads_u8, unfolded One_nat_def] readsD[OF reads_u16] readsD[OF reads_u32] readsD[OF reads_u64] readsD[OF reads_bool]

lemma rd_bytes_run [codec_simps]: "length bs = n \<Longrightarrow> rd_bytes n (bs @ rest) = Inr (bs, rest)"
  by (simp add: rd_bytes_def)

lemma rret_run [codec_simps]: "rret a bs = Inr (a, bs)"
  by (simp add: rret_def)

text \<open>A reader is extensible when more input behind what it read changes nothing. Such a reader
  refuses every strict prefix of an input it consumes whole.\<close>

definition extensible :: "'a reader \<Rightarrow> bool" where
  "extensible r \<longleftrightarrow> (\<forall>bs a rest x. r bs = Inr (a, rest) \<longrightarrow> r (bs @ x) = Inr (a, rest @ x))"

named_theorems extensible_intros \<open>readers that more input does not disturb\<close>

lemma extensible_rret [extensible_intros]: "extensible (rret a)"
  by (simp add: extensible_def rret_def)

lemma extensible_rfail [extensible_intros]: "extensible (rfail e)"
  by (simp add: extensible_def rfail_def)

lemma extensible_rbind [extensible_intros]:
  "extensible m \<Longrightarrow> (\<And>a. extensible (f a)) \<Longrightarrow> extensible (rbind m f)"
  by (auto simp: extensible_def rbind_def split: sum.splits)

lemma extensible_bytes [extensible_intros]: "extensible (rd_bytes n)"
  by (auto simp: extensible_def rd_bytes_def split: if_splits)

lemma extensible_ints [extensible_intros]:
  "extensible rd_u8" "extensible rd_u16" "extensible rd_u32" "extensible rd_u64" "extensible rd_bool"
  unfolding rd_u8_def rd_u16_def rd_u32_def rd_u64_def rd_bool_def
  by (auto intro!: extensible_intros)

lemma extensible_times [extensible_intros]: "extensible r \<Longrightarrow> extensible (rd_times n r)"
  by (induction n) (auto intro!: extensible_intros)

lemma extensible_strict_prefix:
  assumes "extensible r" "reads r bs a" "n < length bs"
  shows "\<exists>e. r (take n bs) = Inl e"
proof (cases "r (take n bs)")
  case (Inr p)
  obtain b rest where p: "p = (b, rest)" by (cases p)
  have "r (take n bs @ drop n bs) = Inr (b, rest @ drop n bs)"
    using assms(1)[unfolded extensible_def] Inr unfolding p by blast
  moreover have "r (bs @ []) = Inr (a, [])" by (rule readsD[OF assms(2)])
  ultimately show ?thesis using assms(3) by simp
qed simp

text \<open>The only error of a reader that never rejects what it has read.\<close>

definition eof_only :: "'a reader \<Rightarrow> bool" where
  "eof_only r \<longleftrightarrow> (\<forall>bs e. r bs = Inl e \<longrightarrow> e = UnexpectedEof)"

lemma eof_only_rret [extensible_intros]: "eof_only (rret a)"
  by (simp add: eof_only_def rret_def)

lemma eof_only_rbind [extensible_intros]: "eof_only m \<Longrightarrow> (\<And>a. eof_only (f a)) \<Longrightarrow> eof_only (rbind m f)"
  by (auto simp: eof_only_def rbind_def split: sum.splits)

lemma eof_only_bytes [extensible_intros]: "eof_only (rd_bytes n)"
  by (auto simp: eof_only_def rd_bytes_def split: if_splits)

lemma eof_only_ints [extensible_intros]:
  "eof_only rd_u8" "eof_only rd_u16" "eof_only rd_u32" "eof_only rd_u64" "eof_only rd_bool"
  unfolding rd_u8_def rd_u16_def rd_u32_def rd_u64_def rd_bool_def
  by (auto intro!: extensible_intros)

lemma eof_only_times [extensible_intros]: "eof_only r \<Longrightarrow> eof_only (rd_times n r)"
  by (induction n) (auto intro!: extensible_intros)

text \<open>What holds of every value a reader returns.\<close>

definition yields :: "'a reader \<Rightarrow> ('a \<Rightarrow> bool) \<Rightarrow> bool" where
  "yields r P \<longleftrightarrow> (\<forall>bs a rest. r bs = Inr (a, rest) \<longrightarrow> P a)"

named_theorems yields_intros \<open>ranges of the values readers return\<close>

lemma yieldsD: "yields r P \<Longrightarrow> r bs = Inr (a, rest) \<Longrightarrow> P a"
  by (auto simp: yields_def)

lemma yields_rret [yields_intros]: "P a \<Longrightarrow> yields (rret a) P"
  by (simp add: yields_def rret_def)

lemma yields_rfail [yields_intros]: "yields (rfail e) P"
  by (simp add: yields_def rfail_def)

lemma yields_rbind: "yields m P \<Longrightarrow> (\<And>a. P a \<Longrightarrow> yields (f a) Q) \<Longrightarrow> yields (rbind m f) Q"
  unfolding yields_def rbind_def by (auto split: sum.splits) blast

lemma yields_bytes: "yields (rd_bytes n) (\<lambda>bs. length bs = n)"
  by (auto simp: yields_def rd_bytes_def split: if_splits)

lemma yields_if: "(c \<Longrightarrow> yields a P) \<Longrightarrow> (\<not> c \<Longrightarrow> yields b P) \<Longrightarrow> yields (if c then a else b) P"
  by simp

lemma yields_be: "yields (rbind (rd_bytes n) (\<lambda>b. rret (from_be_bytes b))) (\<lambda>x. x < 256 ^ n)"
  by (rule yields_rbind[OF yields_bytes], rule yields_rret) (use from_be_bytes_less in blast)

lemma yields_ints:
  "yields rd_u8 (\<lambda>x. x < 2 ^ 8)" "yields rd_u16 (\<lambda>x. x < 2 ^ 16)"
  "yields rd_u32 (\<lambda>x. x < 2 ^ 32)" "yields rd_u64 (\<lambda>x. x < 2 ^ 64)"
  unfolding rd_u8_def rd_u16_def rd_u32_def rd_u64_def
  using yields_be[of 1] yields_be[of 2] yields_be[of 4] yields_be[of 8] by simp_all

lemma yields_bool: "yields rd_bool (\<lambda>_. True)"
  by (simp add: yields_def)

lemma yields_times: "yields r P \<Longrightarrow> yields (rd_times n r) (\<lambda>xs. length xs = n \<and> list_all P xs)"
proof (induction n)
  case 0
  show ?case by (simp add: yields_rret)
next
  case (Suc n)
  show ?case unfolding rd_times.simps
    by (intro yields_rbind[OF Suc.prems] yields_rbind[OF Suc.IH[OF Suc.prems]] yields_rret) simp
qed

lemmas yields_steps = yields_ints[THEN yields_rbind] yields_bytes[THEN yields_rbind] yields_bool[THEN yields_rbind]
  yields_if yields_rret yields_rfail

text \<open>A writer and a reader that understand each other on the values \<open>ok\<close>.\<close>

locale codec =
  fixes enc :: "'a \<Rightarrow> u8 list" and rd :: "'a reader" and ok :: "'a \<Rightarrow> bool"
  assumes reads_enc: "ok a \<Longrightarrow> reads rd (enc a) a"
begin

lemma roundtrip: "ok a \<Longrightarrow> rd (enc a @ rest) = Inr (a, rest)"
  by (rule readsD[OF reads_enc])

lemma prefix_free:
  assumes "ok a" "ok b" "enc a @ r = enc b @ s"
  shows "a = b \<and> r = s"
proof -
  have "Inr (a, r) = rd (enc b @ s)"
    using roundtrip[OF assms(1), of r] by (simp only: assms(3))
  also have "\<dots> = Inr (b, s)" by (rule roundtrip[OF assms(2)])
  finally show ?thesis by simp
qed

lemma reads_list: "list_all ok xs \<Longrightarrow> reads (rd_times (length xs) rd) (concat (map enc xs)) xs"
proof (induction xs)
  case Nil
  show ?case by (simp add: reads_rret)
next
  case (Cons x xs)
  then have "reads rd (enc x) x" and "reads (rd_times (length xs) rd) (concat (map enc xs)) xs"
    by (simp_all add: reads_enc)
  then show ?case by (simp add: reads_def rbind_def rret_def)
qed

lemma run_list: "list_all ok xs \<Longrightarrow> n = length xs \<Longrightarrow> rd_times n rd (concat (map enc xs) @ rest) = Inr (xs, rest)"
  by (simp add: readsD[OF reads_list])

lemma strict_prefix_refused: "extensible rd \<Longrightarrow> ok a \<Longrightarrow> n < length (enc a) \<Longrightarrow> \<exists>e. rd (take n (enc a)) = Inl e"
  by (rule extensible_strict_prefix[OF _ reads_enc])

end

interpretation u32_codec: codec "be_bytes 4" rd_u32 "\<lambda>x. x < 2 ^ 32"
  by unfold_locales (rule reads_u32)

end
