(* ===== verification/Storage_Record.thy ===== *)
theory Storage_Record
  imports ES_Prelude
begin

text \<open>
  The on-disk record of \<open>es-broker/src/storage/record.rs\<close>: its layout, \<open>encode_record\<close>, the
  slice decoder \<open>decode_record\<close>, the stream decoder \<open>read_record\<close> and the length helpers.

  The checksum \<open>crc32fast::hash\<close> is a third-party function and a parameter \<open>crc\<close> of every
  definition that calls it; no property of it is assumed. \<open>offset\<close>, lengths and file positions
  are natural numbers, \<open>timestamp_ms\<close> an integer; \<open>wf_record\<close> says that they fit the fields of
  the layout. The decoders work on bytes already in memory, so the \<open>Io\<close> error of the source does
  not arise.
\<close>

section \<open>Data\<close>

record es_record =
  r_offset :: nat
  r_timestamp_ms :: int
  r_key :: "u8 list option"
  r_value :: "u8 list"

datatype decode_error =
    Eof
  | Truncated nat
  | CrcMismatch nat nat nat
  | Invalid nat string

definition HEADER_LEN :: nat where "HEADER_LEN = 8 + 8 + 4"
definition VALUE_LEN_FIELD :: nat where "VALUE_LEN_FIELD = 4"
definition CRC_LEN :: nat where "CRC_LEN = 4"
definition RECORD_LEN_FIELD :: nat where "RECORD_LEN_FIELD = 4"
definition MAX_RECORD_BODY_BYTES :: nat where "MAX_RECORD_BODY_BYTES = 256 * 1024 * 1024"

lemmas record_consts =
  HEADER_LEN_def VALUE_LEN_FIELD_def CRC_LEN_def RECORD_LEN_FIELD_def MAX_RECORD_BODY_BYTES_def


section \<open>Operations\<close>

text \<open>\<open>Option::map_or(0, len)\<close>, the bytes a key occupies.\<close>

definition key_bytes_len :: "u8 list option \<Rightarrow> nat" where
  "key_bytes_len k = (case k of None \<Rightarrow> 0 | Some b \<Rightarrow> length b)"

text \<open>The checksummed part of a record: everything from \<open>offset\<close> to the end of \<open>value\<close>.\<close>

definition encode_payload :: "nat \<Rightarrow> int \<Rightarrow> u8 list option \<Rightarrow> u8 list \<Rightarrow> u8 list" where
  "encode_payload offset timestamp_ms key value =
     be_bytes 8 offset @ be_bytes 8 (u64_of timestamp_ms) @
     (case key of
        None \<Rightarrow> be_bytes 4 (u32_of (- 1))
      | Some k \<Rightarrow> be_bytes 4 (length k) @ k) @
     be_bytes 4 (length value) @ value"

definition encode_record ::
    "(u8 list \<Rightarrow> 32 word) \<Rightarrow> nat \<Rightarrow> int \<Rightarrow> u8 list option \<Rightarrow> u8 list \<Rightarrow> u8 list" where
  "encode_record crc offset timestamp_ms key value =
     (let body_len = HEADER_LEN + key_bytes_len key + VALUE_LEN_FIELD + length value + CRC_LEN;
          payload = encode_payload offset timestamp_ms key value
      in be_bytes 4 body_len @ payload @ be_bytes 4 (unat (crc payload)))"

text \<open>The record as one argument, for the statements below.\<close>

definition encode_rec :: "(u8 list \<Rightarrow> 32 word) \<Rightarrow> es_record \<Rightarrow> u8 list" where
  "encode_rec crc r = encode_record crc (r_offset r) (r_timestamp_ms r) (r_key r) (r_value r)"

definition check_body_len :: "nat \<Rightarrow> nat \<Rightarrow> decode_error + nat" where
  "check_body_len raw at =
     (if raw < HEADER_LEN + VALUE_LEN_FIELD + CRC_LEN
      then Inl (Invalid at ''body_len below minimum'')
      else if raw > MAX_RECORD_BODY_BYTES
      then Inl (Invalid at ''body_len exceeds maximum'')
      else Inr raw)"

definition decode_body :: "(u8 list \<Rightarrow> 32 word) \<Rightarrow> u8 list \<Rightarrow> nat \<Rightarrow> decode_error + es_record" where
  "decode_body crc body at =
     (let offset = from_be_bytes (subslice 0 8 body);
          timestamp_ms = i64_of (from_be_bytes (subslice 8 16 body));
          key_len = i32_of (from_be_bytes (subslice 16 20 body))
      in if key_len < 0 \<and> key_len \<noteq> -1 then Inl (Invalid at ''key_len negative != -1'')
      else if key_len \<ge> 0 \<and> 20 + nat key_len > length body then Inl (Truncated at)
      else
        let p = (if key_len < 0 then 20 else 20 + nat key_len);
            key = (if key_len < 0 then None else Some (subslice 20 p body))
        in if p + VALUE_LEN_FIELD > length body then Inl (Truncated at)
        else
          let value_len = from_be_bytes (subslice p (p + 4) body);
              v = p + 4
          in if v + value_len + CRC_LEN \<noteq> length body
             then Inl (Invalid at ''value_len does not match remaining body'')
          else
            let q = v + value_len;
                stored = from_be_bytes (subslice q (q + 4) body);
                computed = unat (crc (take q body))
            in if stored \<noteq> computed then Inl (CrcMismatch at stored computed)
            else Inr \<lparr>r_offset = offset, r_timestamp_ms = timestamp_ms,
                      r_key = key, r_value = subslice v q body\<rparr>)"

definition decode_record ::
    "(u8 list \<Rightarrow> 32 word) \<Rightarrow> u8 list \<Rightarrow> nat \<Rightarrow> decode_error + es_record \<times> nat" where
  "decode_record crc buf at =
     (if buf = [] then Inl Eof
      else if length buf < RECORD_LEN_FIELD then Inl (Truncated at)
      else case check_body_len (from_be_bytes (subslice 0 4 buf)) at of
        Inl e \<Rightarrow> Inl e
      | Inr body_len \<Rightarrow>
          let total = RECORD_LEN_FIELD + body_len
          in if length buf < total then Inl (Truncated at)
             else case decode_body crc (subslice RECORD_LEN_FIELD total buf) at of
               Inl e \<Rightarrow> Inl e
             | Inr rec \<Rightarrow> Inr (rec, total))"

definition peek_record_len :: "u8 list \<Rightarrow> nat \<Rightarrow> decode_error + nat option" where
  "peek_record_len buf at =
     (if length buf < RECORD_LEN_FIELD then Inr None
      else case check_body_len (from_be_bytes (subslice 0 4 buf)) at of
        Inl e \<Rightarrow> Inl e
      | Inr body_len \<Rightarrow> Inr (Some (RECORD_LEN_FIELD + body_len)))"

text \<open>
  \<open>read_record\<close> on a seekable stream: the stream is its contents and its position. The result
  carries the position the call leaves. After a short length prefix \<open>read_exact\<close> leaves the
  position unspecified; it has consumed what there was.
\<close>

definition read_record ::
    "(u8 list \<Rightarrow> 32 word) \<Rightarrow> u8 list \<Rightarrow> nat \<Rightarrow> (decode_error + es_record) \<times> nat" where
  "read_record crc stream at =
     (let rest = drop at stream
      in if length rest < RECORD_LEN_FIELD then (Inl Eof, at + length rest)
      else case check_body_len (from_be_bytes (take RECORD_LEN_FIELD rest)) at of
        Inl e \<Rightarrow> (Inl e, at + RECORD_LEN_FIELD)
      | Inr body_len \<Rightarrow>
          if length (drop RECORD_LEN_FIELD rest) < body_len then (Inl (Truncated at), at)
          else (decode_body crc (take body_len (drop RECORD_LEN_FIELD rest)) at,
                at + RECORD_LEN_FIELD + body_len))"

definition record_disk_size :: "nat option \<Rightarrow> nat \<Rightarrow> nat" where
  "record_disk_size key_len value_len =
     (let body = HEADER_LEN + (case key_len of None \<Rightarrow> 0 | Some n \<Rightarrow> n) +
                 VALUE_LEN_FIELD + value_len + CRC_LEN
      in RECORD_LEN_FIELD + body)"

definition rec_size :: "es_record \<Rightarrow> nat" where
  "rec_size r = record_disk_size (map_option length (r_key r)) (length (r_value r))"

text \<open>The values that fit the layout and the size limit.\<close>

definition wf_record :: "es_record \<Rightarrow> bool" where
  "wf_record r \<longleftrightarrow>
     r_offset r \<le> u64_max \<and> i64_min \<le> r_timestamp_ms r \<and> r_timestamp_ms r \<le> i64_max \<and>
     rec_size r \<le> RECORD_LEN_FIELD + MAX_RECORD_BODY_BYTES"



section \<open>Sizes\<close>

lemma length_encode_payload:
  "length (encode_payload o' ts k v) = HEADER_LEN + key_bytes_len k + VALUE_LEN_FIELD + length v"
  by (cases k) (simp_all add: encode_payload_def record_consts key_bytes_len_def)

lemma rec_size_eq: "rec_size r = 32 + key_bytes_len (r_key r) + length (r_value r)"
  by (cases "r_key r") (simp_all add: rec_size_def record_disk_size_def record_consts key_bytes_len_def)

lemma rec_size_ge: "32 \<le> rec_size r"
  by (simp add: rec_size_eq)

lemma length_encode_rec [simp]: "length (encode_rec crc r) = rec_size r"
  by (simp add: encode_rec_def encode_record_def Let_def length_encode_payload rec_size_eq record_consts)

lemma encode_rec_not_Nil [simp]: "encode_rec crc r \<noteq> []"
  using rec_size_ge[of r] by (metis length_encode_rec list.size(3) not_numeral_le_zero)


section \<open>Encoding, then decoding\<close>

text \<open>The body of a record, that is its encoding without the length prefix.\<close>

definition body_of :: "(u8 list \<Rightarrow> 32 word) \<Rightarrow> es_record \<Rightarrow> u8 list" where
  "body_of crc r =
     (let payload = encode_payload (r_offset r) (r_timestamp_ms r) (r_key r) (r_value r)
      in payload @ be_bytes 4 (unat (crc payload)))"

lemma length_body_of: "length (body_of crc r) = rec_size r - 4"
  by (simp add: body_of_def Let_def length_encode_payload rec_size_eq record_consts)

lemma encode_rec_body: "encode_rec crc r = be_bytes 4 (rec_size r - 4) @ body_of crc r"
  by (simp add: encode_rec_def encode_record_def body_of_def Let_def rec_size_eq record_consts)

lemma wf_record_bounds:
  assumes "wf_record r"
  shows "r_offset r < 2 ^ 64" "key_bytes_len (r_key r) < 2 ^ 31" "length (r_value r) < 2 ^ 32"
    "rec_size r - 4 \<le> MAX_RECORD_BODY_BYTES" "28 \<le> rec_size r - 4"
  using assms rec_size_eq[of r] by (auto simp: wf_record_def record_consts)

lemma unat_u32_less [simplified, simp]: "unat (x :: 32 word) < 2 ^ 32"
  by (rule order_less_le_trans[OF unsigned_less]) simp

text \<open>The key field: a length, then the bytes, or \<open>-1\<close>.\<close>

definition key_field :: "u8 list option \<Rightarrow> u8 list" where
  "key_field k = (case k of None \<Rightarrow> be_bytes 4 (u32_of (- 1)) | Some b \<Rightarrow> be_bytes 4 (length b) @ b)"

definition key_len_field :: "u8 list option \<Rightarrow> nat" where
  "key_len_field k = (case k of None \<Rightarrow> u32_of (- 1) | Some b \<Rightarrow> length b)"

lemma key_field_split:
  "key_field k = be_bytes 4 (key_len_field k) @ (case k of None \<Rightarrow> [] | Some b \<Rightarrow> b)"
  by (cases k) (simp_all add: key_field_def key_len_field_def)

lemma body_of_fields:
  fixes r crc
  defines "k \<equiv> (case r_key r of None \<Rightarrow> [] | Some b \<Rightarrow> b)"
    and "body \<equiv> body_of crc r"
  shows "subslice 0 8 body = be_bytes 8 (r_offset r)"
    and "subslice 8 16 body = be_bytes 8 (u64_of (r_timestamp_ms r))"
    and "subslice 16 20 body = be_bytes 4 (key_len_field (r_key r))"
    and "subslice 20 (20 + length k) body = k"
    and "subslice (20 + length k) (24 + length k) body = be_bytes 4 (length (r_value r))"
    and "subslice (24 + length k) (24 + length k + length (r_value r)) body = r_value r"
    and "subslice (24 + length k + length (r_value r)) (28 + length k + length (r_value r)) body
         = be_bytes 4 (unat (crc (take (24 + length k + length (r_value r)) body)))"
    and "length body = 28 + length k + length (r_value r)"
proof -
  have body: "body = be_bytes 8 (r_offset r) @ be_bytes 8 (u64_of (r_timestamp_ms r)) @
      be_bytes 4 (key_len_field (r_key r)) @ k @ be_bytes 4 (length (r_value r)) @ r_value r @
      be_bytes 4 (unat (crc (encode_payload (r_offset r) (r_timestamp_ms r) (r_key r) (r_value r))))"
    by (cases "r_key r")
      (simp_all add: body_def body_of_def encode_payload_def Let_def key_len_field_def k_def)
  have pay: "take (24 + length k + length (r_value r)) body =
      encode_payload (r_offset r) (r_timestamp_ms r) (r_key r) (r_value r)"
    by (cases "r_key r")
      (simp_all add: body_def body_of_def Let_def length_encode_payload record_consts
        key_bytes_len_def k_def)
  show "subslice 0 8 body = be_bytes 8 (r_offset r)"
    "subslice 8 16 body = be_bytes 8 (u64_of (r_timestamp_ms r))"
    "subslice 16 20 body = be_bytes 4 (key_len_field (r_key r))"
    "subslice 20 (20 + length k) body = k"
    "subslice (20 + length k) (24 + length k) body = be_bytes 4 (length (r_value r))"
    "subslice (24 + length k) (24 + length k + length (r_value r)) body = r_value r"
    "length body = 28 + length k + length (r_value r)"
    by (simp_all add: body subslice_def)
  show "subslice (24 + length k + length (r_value r)) (28 + length k + length (r_value r)) body
         = be_bytes 4 (unat (crc (take (24 + length k + length (r_value r)) body)))"
    unfolding pay by (simp add: body subslice_def)
qed

lemma decode_body_body_of:
  assumes "wf_record r"
  shows "decode_body crc (body_of crc r) at = Inr r"
proof -
  note F = body_of_fields[where r = r and crc = crc]
  note B = wf_record_bounds[OF assms]
  have ts: "i64_of (from_be_bytes (be_bytes 8 (u64_of (r_timestamp_ms r)))) = r_timestamp_ms r"
    using assms i64_of_u64_of by (simp add: wf_record_def)
  have crc: "from_be_bytes (be_bytes 4 (unat (c :: 32 word))) = unat c" for c
    by simp
  show ?thesis
  proof (cases "r_key r")
    case None
    with F B ts crc show ?thesis
      by (simp add: decode_body_def Let_def key_len_field_def record_consts)
  next
    case (Some k)
    with F B ts crc show ?thesis
      by (simp add: decode_body_def Let_def key_len_field_def record_consts key_bytes_len_def
          i32_of_small add.assoc)
  qed
qed

lemma check_body_len_ok:
  "wf_record r \<Longrightarrow> check_body_len (rec_size r - 4) at = Inr (rec_size r - 4)"
  using wf_record_bounds[of r] by (simp add: check_body_len_def record_consts)

lemma prefix_field_of_encoding:
  assumes "wf_record r"
  shows "from_be_bytes (subslice 0 4 (encode_rec crc r @ rest)) = rec_size r - 4"
  using wf_record_bounds(4)[OF assms]
  by (simp add: encode_rec_body subslice_def record_consts)

lemma decode_record_encode:
  assumes "wf_record r"
  shows "decode_record crc (encode_rec crc r @ rest) at = Inr (r, rec_size r)"
proof -
  have "subslice 4 (rec_size r) (encode_rec crc r @ rest) = body_of crc r"
    using rec_size_ge[of r] by (simp add: encode_rec_body subslice_def length_body_of)
  then show ?thesis
    using rec_size_ge[of r] prefix_field_of_encoding[OF assms, of crc rest]
      check_body_len_ok[OF assms, of at] decode_body_body_of[OF assms, of crc at]
    by (simp add: decode_record_def Let_def record_consts)
qed



section \<open>Decoding, then encoding\<close>

text \<open>
  A body that decodes is the body of the record it decodes to: the decoder accepts no second
  spelling of a record.
\<close>

lemma from_be_sub: "b \<le> length xs \<Longrightarrow> a + k = b \<Longrightarrow> be_bytes k (from_be_bytes (subslice a b xs)) = subslice a b xs"
  by (rule be_bytes_from_be) (simp add: length_subslice)

lemma from_be_sub_less: "b \<le> length xs \<Longrightarrow> a + k = b \<Longrightarrow> from_be_bytes (subslice a b xs) < 256 ^ k"
  using from_be_bytes_less[of "subslice a b xs"] by (auto simp: length_subslice)

lemma decode_body_sound:
  assumes dec: "decode_body crc body at = Inr r" and len: "28 \<le> length body"
  shows "body = body_of crc r"
    and "r_offset r \<le> u64_max \<and> i64_min \<le> r_timestamp_ms r \<and> r_timestamp_ms r \<le> i64_max"
    and "rec_size r = length body + 4"
proof -
  define kl where "kl = i32_of (from_be_bytes (subslice 16 20 body))"
  define p where "p = (if kl < 0 then 20 else 20 + nat kl)"
  define vl where "vl = from_be_bytes (subslice p (p + 4) body)"
  define q where "q = p + 4 + vl"
  have k1: "kl < 0 \<Longrightarrow> kl = -1"
    and k2: "0 \<le> kl \<Longrightarrow> 20 + nat kl \<le> length body"
    and pl: "p + 4 \<le> length body" and ql: "q + 4 = length body"
    and crc: "from_be_bytes (subslice q (q + 4) body) = unat (crc (take q body))"
    and r: "r = \<lparr>r_offset = from_be_bytes (subslice 0 8 body),
        r_timestamp_ms = i64_of (from_be_bytes (subslice 8 16 body)),
        r_key = (if kl < 0 then None else Some (subslice 20 p body)),
        r_value = subslice (p + 4) q body\<rparr>"
    using dec
    by (auto simp: decode_body_def Let_def record_consts kl_def[symmetric] p_def vl_def q_def
        split: if_splits)
  have p20: "20 \<le> p" by (simp add: p_def)
  have off: "be_bytes 8 (r_offset r) = subslice 0 8 body"
    using len by (simp add: r from_be_sub)
  have n8: "from_be_bytes (subslice 8 16 body) < 2 ^ 64"
    using from_be_sub_less[of 16 body 8 8] len by simp
  have ts: "be_bytes 8 (u64_of (r_timestamp_ms r)) = subslice 8 16 body"
    using len n8 u64_of_i64_of by (simp add: r from_be_sub)
  have n4: "from_be_bytes (subslice 16 20 body) < 2 ^ 32"
    using from_be_sub_less[of 20 body 16 4] len by simp
  have key: "key_field (r_key r) = subslice 16 20 body @ subslice 20 p body"
  proof (cases "kl < 0")
    case True
    then have "from_be_bytes (subslice 16 20 body) = u32_of (- 1)"
      using k1 u32_of_i32_of[OF n4] by (simp add: kl_def)
    then have "be_bytes 4 (u32_of (- 1)) = subslice 16 20 body"
      using from_be_sub[of 20 body 16 4] len by simp
    then show ?thesis using True by (simp add: r key_field_def p_def subslice_def)
  next
    case False
    then have "length (subslice 20 p body) = from_be_bytes (subslice 16 20 body)"
      using k2 nat_i32_of[OF n4] by (simp add: p_def kl_def length_subslice)
    then have "be_bytes 4 (length (subslice 20 p body)) = subslice 16 20 body"
      using from_be_sub[of 20 body 16 4] len by simp
    then show ?thesis using False by (simp add: r key_field_def)
  qed
  have vlen: "length (r_value r) = vl"
    using ql by (simp add: r length_subslice q_def)
  have val: "be_bytes 4 (length (r_value r)) = subslice p (p + 4) body"
    unfolding vlen vl_def using pl by (intro from_be_sub) auto
  have tail: "drop 20 body = subslice 20 p body @ subslice p (p + 4) body @ subslice (p + 4) q body
      @ subslice q (q + 4) body"
    using p20 pl ql subslice_drop[of 20 p body] subslice_drop[of p "p + 4" body]
      subslice_drop[of "p + 4" q body] subslice_drop[of q "q + 4" body]
    by (simp add: q_def)
  have whole: "body = subslice 0 8 body @ subslice 8 16 body @ subslice 16 20 body @ drop 20 body"
    using len subslice_drop[of 0 8 body] subslice_drop[of 8 16 body] subslice_drop[of 16 20 body]
    by simp
  have pay: "take q body = encode_payload (r_offset r) (r_timestamp_ms r) (r_key r) (r_value r)"
  proof -
    let ?X = "subslice 0 8 body @ subslice 8 16 body @ (subslice 16 20 body @ subslice 20 p body) @
        subslice p (p + 4) body @ subslice (p + 4) q body"
    have split: "?X @ subslice q (q + 4) body = body"
      using whole[symmetric] unfolding tail by (simp only: append.assoc)
    have "length (?X @ subslice q (q + 4) body) = length ?X + 4"
      using ql by (simp add: length_subslice)
    then have "length ?X = q"
      unfolding split using ql by linarith
    then have "take q body = ?X"
      using split by (metis append_eq_conv_conj)
    also have "\<dots> = encode_payload (r_offset r) (r_timestamp_ms r) (r_key r) (r_value r)"
      unfolding encode_payload_def key_field_def[symmetric] off ts key val by (simp add: r)
    finally show ?thesis .
  qed
  show "body = body_of crc r"
  proof -
    have "body = take q body @ subslice q (q + 4) body"
      using ql by (simp add: subslice_def)
    moreover have "subslice q (q + 4) body = be_bytes 4 (unat (crc (take q body)))"
      using ql by (metis crc from_be_sub le_refl)
    ultimately show ?thesis by (simp add: body_of_def Let_def pay)
  qed
  then show "rec_size r = length body + 4"
    using length_body_of[of crc r] rec_size_ge[of r] by simp
  show "r_offset r \<le> u64_max \<and> i64_min \<le> r_timestamp_ms r \<and> r_timestamp_ms r \<le> i64_max"
    using from_be_sub_less[of 8 body 0 8] len i64_of_bounds[of "from_be_bytes (subslice 8 16 body)"]
    by (simp add: r)
qed

lemma decode_record_total:
  "decode_record crc buf at = Inr (r, n) \<Longrightarrow>
     32 \<le> n \<and> n \<le> length buf \<and> n - 4 \<le> MAX_RECORD_BODY_BYTES \<and>
     from_be_bytes (subslice 0 4 buf) = n - 4 \<and> decode_body crc (subslice 4 n buf) at = Inr r"
  by (auto simp: decode_record_def check_body_len_def Let_def record_consts
      split: if_splits sum.splits)

lemma decode_record_sound:
  assumes "decode_record crc buf at = Inr (r, n)"
  shows "wf_record r" "n = rec_size r" "n \<le> length buf" "take n buf = encode_rec crc r"
proof -
  note T = decode_record_total[OF assms]
  have len: "length (subslice 4 n buf) = n - 4" using T by (simp add: length_subslice)
  note S = decode_body_sound[OF conjunct2[OF conjunct2[OF conjunct2[OF conjunct2[OF T]]]]]
  have body: "subslice 4 n buf = body_of crc r" and size: "rec_size r = n"
    using S(1,3) len T by auto
  show "n = rec_size r" "n \<le> length buf" using size T by auto
  show "wf_record r"
    using S(2) len T size by (auto simp: wf_record_def record_consts)
  have "take 4 buf = be_bytes 4 (n - 4)"
    using T be_bytes_from_be[of "subslice 0 4 buf" 4] by (simp add: subslice_def)
  then have "encode_rec crc r = take 4 buf @ subslice 4 n buf"
    by (simp only: encode_rec_body body size)
  also have "\<dots> = take n buf"
    using T by (intro take_subslice) auto
  finally show "take n buf = encode_rec crc r" ..
qed

text \<open>What a record decodes to depends only on its own bytes.\<close>

lemma decode_record_take:
  assumes "decode_record crc buf at = Inr (r, n)" "n \<le> m"
  shows "decode_record crc (take m buf @ xs) at' = Inr (r, n)"
proof -
  note S = decode_record_sound[OF assms(1)]
  have "take n (take m buf) = encode_rec crc r"
    using S(4) assms(2) by (simp add: min_def)
  then obtain D where D: "take m buf = encode_rec crc r @ D"
    by (metis append_take_drop_id)
  show ?thesis
    unfolding D using decode_record_encode[OF S(1)] S(2) by simp
qed

lemma decode_record_torn:
  assumes "wf_record r" "0 < k" "k < rec_size r"
  shows "decode_record crc (take k (encode_rec crc r)) at = Inl (Truncated at)"
proof (cases "k < 4")
  case True
  then show ?thesis
    using assms rec_size_ge[of r] by (auto simp: decode_record_def record_consts)
next
  case False
  have "subslice 0 4 (take k (encode_rec crc r)) = subslice 0 4 (encode_rec crc r @ [])"
    using False by (simp add: subslice_def)
  then have "from_be_bytes (subslice 0 4 (take k (encode_rec crc r))) = rec_size r - 4"
    using prefix_field_of_encoding[OF assms(1)] by metis
  then show ?thesis
    using False assms check_body_len_ok[OF assms(1), of at] rec_size_ge[of r]
    by (auto simp: decode_record_def record_consts)
qed


section \<open>Properties\<close>

text \<open>C12: encoding a record and decoding the bytes, whatever follows them in the buffer, gives the
  record back and reports exactly the bytes the encoding occupies. It holds for every checksum
  function and every record whose fields fit the layout.\<close>

theorem record_roundtrip:
  assumes "wf_record r"
  shows "decode_record crc (encode_rec crc r @ rest) at = Inr (r, length (encode_rec crc r))"
  using decode_record_encode[OF assms] by simp

definition sample_record :: es_record where
  "sample_record = \<lparr>r_offset = 42, r_timestamp_ms = -7, r_key = Some [1, 2, 3], r_value = [255, 0]\<rparr>"

lemma wf_sample_record: "wf_record sample_record"
  by (simp add: wf_record_def rec_size_eq sample_record_def key_bytes_len_def record_consts)

theorem record_roundtrip_witness:
  "wf_record sample_record \<and>
   decode_record (\<lambda>_. 17) (encode_rec (\<lambda>_. 17) sample_record @ [9, 9]) 5 = Inr (sample_record, 37)"
  using record_roundtrip[OF wf_sample_record, of "\<lambda>_. 17" "[9, 9]" 5] wf_sample_record
  by (simp add: rec_size_eq sample_record_def key_bytes_len_def)

text \<open>C13: the decoder accepts nothing but encodings. Whenever \<open>decode_record\<close> succeeds, the bytes
  it consumed are exactly the encoding of the record it returned, checksum included, and that
  record fits the layout.\<close>

theorem decode_record_canonical:
  assumes "decode_record crc buf at = Inr (r, n)"
  shows "wf_record r \<and> n = rec_size r \<and> n \<le> length buf \<and> take n buf = encode_rec crc r"
  using decode_record_sound[OF assms] by blast

theorem decode_record_canonical_witness:
  "take 37 (encode_rec (\<lambda>_. 17) sample_record @ [4]) = encode_rec (\<lambda>_. 17) sample_record"
  using decode_record_canonical[OF decode_record_encode[OF wf_sample_record, of "\<lambda>_. 17" "[4]" 0]]
  by (simp add: rec_size_eq sample_record_def key_bytes_len_def)

text \<open>A record cut short at any byte is reported as \<open>Truncated\<close> at its start, never as a
  shorter record, as a checksum mismatch or as a clean end.\<close>

theorem torn_record_truncated:
  assumes "wf_record r" "0 < k" "k < rec_size r"
  shows "decode_record crc (take k (encode_rec crc r)) at = Inl (Truncated at)"
  by (rule decode_record_torn[OF assms])

theorem torn_record_truncated_witness:
  "decode_record (\<lambda>_. 17) (take 36 (encode_rec (\<lambda>_. 17) sample_record)) 8 = Inl (Truncated 8)"
proof -
  have "36 < rec_size sample_record"
    by (simp add: rec_size_eq sample_record_def key_bytes_len_def)
  then show ?thesis by (intro torn_record_truncated wf_sample_record) auto
qed

text \<open>C20: the stream decoder agrees with the slice decoder. On a stream with at least a length prefix
  left, \<open>read_record\<close> returns the record or the error \<open>decode_record\<close> gives for the rest of the
  stream, and a successful read leaves the position just after the record. With one to three
  bytes left the two differ: the slice decoder reports a torn record and the stream decoder a
  clean end.\<close>

theorem read_record_agrees:
  "(4 \<le> length (drop at stream) \<longrightarrow>
      fst (read_record crc stream at) = map_sum id fst (decode_record crc (drop at stream) at) \<and>
      (\<forall>r n. decode_record crc (drop at stream) at = Inr (r, n) \<longrightarrow>
             snd (read_record crc stream at) = at + n)) \<and>
   (0 < length (drop at stream) \<and> length (drop at stream) < 4 \<longrightarrow>
      fst (read_record crc stream at) = Inl Eof \<and>
      decode_record crc (drop at stream) at = Inl (Truncated at))"
  by (auto simp: read_record_def decode_record_def Let_def record_consts subslice_def
      drop_take split: sum.splits)

theorem read_record_agrees_witness:
  "read_record (\<lambda>_. 17) ([7, 7] @ encode_rec (\<lambda>_. 17) sample_record) 2 = (Inr sample_record, 39) \<and>
   fst (read_record (\<lambda>_. 17) [0, 0, 0] 1) = Inl Eof"
proof -
  let ?s = "[7, 7] @ encode_rec (\<lambda>_. 17) sample_record"
  have d: "drop 2 ?s = encode_rec (\<lambda>_. 17) sample_record" by simp
  have sz: "rec_size sample_record = 37"
    by (simp add: rec_size_eq sample_record_def key_bytes_len_def)
  have dec: "decode_record (\<lambda>_. 17) (drop 2 ?s) 2 = Inr (sample_record, 37)"
    using decode_record_encode[OF wf_sample_record, of "\<lambda>_. 17" "[]" 2] sz unfolding d by simp
  have len: "4 \<le> length (drop 2 ?s)" unfolding d using sz by simp
  from read_record_agrees[of 2 ?s "\<lambda>_. 17"] dec len
  have "fst (read_record (\<lambda>_. 17) ?s 2) = Inr sample_record" "snd (read_record (\<lambda>_. 17) ?s 2) = 39"
    by auto
  then show ?thesis
    using read_record_agrees[of 1 "[0, 0, 0]" "\<lambda>_. 17"] by (simp add: prod_eq_iff)
qed

end
