(* ===== verification/Rust_Text.thy ===== *)
theory Rust_Text
  imports ES_Prelude
begin

text \<open>
  The string operations of the Rust standard library that the source uses for file names and
  settings: decimal formatting with zero padding (\<open>format!("{:020}")\<close>), \<open>str::parse::<u64>\<close>,
  \<open>str::contains\<close>, and the split of a file name into stem and extension
  (\<open>Path::file_stem\<close>, \<open>Path::extension\<close>). A string is its list of characters.
\<close>

definition digit_char :: "nat \<Rightarrow> char" where
  "digit_char d = char_of (48 + d)"

definition char_digit :: "char \<Rightarrow> nat option" where
  "char_digit c = (let n = of_char c :: nat in if 48 \<le> n \<and> n \<le> 57 then Some (n - 48) else None)"

fun dec_digits :: "nat \<Rightarrow> string" where
  "dec_digits n = (if n < 10 then [digit_char n] else dec_digits (n div 10) @ [digit_char (n mod 10)])"

declare dec_digits.simps [simp del]

definition pad_left :: "nat \<Rightarrow> string \<Rightarrow> string" where
  "pad_left w s = replicate (w - length s) (digit_char 0) @ s"

text \<open>\<open>u64::from_str\<close>: an optional plus sign, at least one digit, no overflow.\<close>

fun parse_digits :: "nat \<Rightarrow> string \<Rightarrow> nat option" where
  "parse_digits acc [] = Some acc"
| "parse_digits acc (c # cs) =
     (case char_digit c of
        None \<Rightarrow> None
      | Some d \<Rightarrow> let a = acc * 10 + d in if a > u64_max then None else parse_digits a cs)"

definition parse_u64 :: "string \<Rightarrow> nat option" where
  "parse_u64 s =
     (case s of
        [] \<Rightarrow> None
      | c # cs \<Rightarrow> if c = CHR ''+'' then (if cs = [] then None else parse_digits 0 cs)
                  else parse_digits 0 s)"

fun str_contains :: "string \<Rightarrow> string \<Rightarrow> bool" where
  "str_contains needle [] = (needle = [])"
| "str_contains needle (c # cs) = (take (length needle) (c # cs) = needle \<or> str_contains needle cs)"

text \<open>The stem and the extension of a file name: the split at its last dot, unless that dot is its
  first character.\<close>

definition split_ext :: "string \<Rightarrow> string \<times> string option" where
  "split_ext name =
     (let r = rev name;
          after = rev (takeWhile (\<lambda>c. c \<noteq> CHR ''.'') r);
          rest = dropWhile (\<lambda>c. c \<noteq> CHR ''.'') r
      in if name = ''..'' \<or> rest = [] \<or> rest = ''.'' then (name, None)
         else (rev (tl rest), Some after))"


section \<open>Printing, then parsing\<close>

lemma char_digit_digit_char [simp]: "d < 10 \<Longrightarrow> char_digit (digit_char d) = Some d"
  by (simp add: char_digit_def digit_char_def)

lemma parse_digits_append:
  "parse_digits acc (xs @ ys) = Option.bind (parse_digits acc xs) (\<lambda>a. parse_digits a ys)"
  by (induction acc xs rule: parse_digits.induct) (auto simp: Let_def split: option.splits)

lemma parse_dec_digits:
  assumes "n \<le> u64_max"
  shows "parse_digits 0 (dec_digits n) = Some n"
  using assms
proof (induction n rule: dec_digits.induct)
  case (1 n)
  show ?case
  proof (cases "n < 10")
    case True
    then show ?thesis by (subst dec_digits.simps) simp
  next
    case False
    then have "parse_digits 0 (dec_digits (n div 10)) = Some (n div 10)"
      using "1.prems" by (intro "1.IH") auto
    moreover have "n div 10 * 10 + n mod 10 = n" by simp
    ultimately show ?thesis
      using False "1.prems"
      by (subst dec_digits.simps) (simp add: parse_digits_append Let_def)
  qed
qed

lemma parse_digits_zeros: "parse_digits 0 (replicate k (digit_char 0) @ s) = parse_digits 0 s"
  by (induction k) auto

lemma dec_digits_not_Nil [simp]: "dec_digits n \<noteq> []"
  by (subst dec_digits.simps) simp

lemma dec_digits_chars: "c \<in> set (dec_digits n) \<Longrightarrow> \<exists>d<10. c = digit_char d"
proof (induction n rule: dec_digits.induct)
  case (1 n)
  then show ?case
    by (subst (asm) (2) dec_digits.simps)
      (auto split: if_splits intro: exI[of _ "n mod 10"])
qed

lemma pad_left_chars: "c \<in> set (pad_left w (dec_digits n)) \<Longrightarrow> \<exists>d<10. c = digit_char d"
  by (auto simp: pad_left_def dest: dec_digits_chars intro: exI[of _ 0])

lemma digit_char_neq [simp]:
  "d < 10 \<Longrightarrow> digit_char d \<noteq> CHR ''+''" "d < 10 \<Longrightarrow> digit_char d \<noteq> CHR ''.''"
  "d < 10 \<Longrightarrow> digit_char d \<noteq> CHR ''c''"
  by (auto simp: digit_char_def dest: arg_cong[where f = "of_char :: char \<Rightarrow> nat"])

lemma parse_u64_pad:
  assumes "n \<le> u64_max"
  shows "parse_u64 (pad_left w (dec_digits n)) = Some n"
proof -
  have "parse_digits 0 (pad_left w (dec_digits n)) = Some n"
    using parse_dec_digits[OF assms] by (simp add: pad_left_def parse_digits_zeros)
  moreover obtain c cs where c: "pad_left w (dec_digits n) = c # cs"
    by (cases "pad_left w (dec_digits n)") (auto simp: pad_left_def)
  moreover have "c \<noteq> CHR ''+''"
    using pad_left_chars[of c w n] c by auto
  ultimately show ?thesis by (simp add: parse_u64_def)
qed

lemma split_ext_simple:
  assumes "CHR ''.'' \<notin> set ext" "stem \<noteq> []" "stem \<noteq> ''.''"
  shows "split_ext (stem @ CHR ''.'' # ext) = (stem, Some ext)"
proof -
  have 1: "takeWhile (\<lambda>c. c \<noteq> CHR ''.'') (rev ext @ CHR ''.'' # rev stem) = rev ext"
    and 2: "dropWhile (\<lambda>c. c \<noteq> CHR ''.'') (rev ext @ CHR ''.'' # rev stem) = CHR ''.'' # rev stem"
    using assms(1) by (auto simp: takeWhile_append dropWhile_append)
  have "stem @ CHR ''.'' # ext \<noteq> ''..''"
    using assms by (cases stem) (auto simp: append_eq_Cons_conv)
  then show ?thesis
    using assms(2) by (simp add: split_ext_def 1 2)
qed

end
