(* ===== verification/Storage_Segment.thy ===== *)
theory Storage_Segment
  imports Storage_Record Rust_Text
begin

text \<open>
  Segments: the sparse index of \<open>storage/index.rs\<close> and the windowed cursor, the bounded read and
  the appender of \<open>storage/segment.rs\<close>.

  A file is the list of its bytes. A segment carries the contents of the two files it holds open;
  the cursor takes the contents as an argument. Reads of a file that is there do not fail.
\<close>

section \<open>The sparse index\<close>

type_synonym entries = "(nat \<times> nat) list"

definition INDEX_ENTRY_LEN :: nat where "INDEX_ENTRY_LEN = 16"
definition INDEX_INTERVAL_BYTES :: nat where "INDEX_INTERVAL_BYTES = 4096"

text \<open>
  \<open>slice::binary_search_by_key\<close> of the standard library: \<open>Inr i\<close> for \<open>Ok(i)\<close>, \<open>Inl i\<close> for
  \<open>Err(i)\<close>. The loop halves the window \<open>sz\<close> that starts at \<open>base\<close>.
\<close>

function bsearch_loop :: "nat list \<Rightarrow> nat \<Rightarrow> nat \<Rightarrow> nat \<Rightarrow> nat" where
  "bsearch_loop keys target base sz =
     (if sz > 1 then
        let half = sz div 2; mid = base + half
        in bsearch_loop keys target (if keys ! mid > target then base else mid) (sz - half)
      else base)"
  by pat_completeness auto
termination
  by (relation "measure (\<lambda>(_, _, _, sz). sz)") auto

declare bsearch_loop.simps [simp del]

definition binary_search :: "nat list \<Rightarrow> nat \<Rightarrow> nat + nat" where
  "binary_search keys target =
     (if keys = [] then Inl 0
      else let b = bsearch_loop keys target 0 (length keys)
           in if keys ! b = target then Inr b
              else Inl (if keys ! b < target then b + 1 else b))"

definition index_floor :: "entries \<Rightarrow> nat \<Rightarrow> (nat \<times> nat) option" where
  "index_floor es target =
     (if es = [] then None
      else case binary_search (map fst es) target of
        Inr i \<Rightarrow> Some (es ! i)
      | Inl i \<Rightarrow> if i = 0 then None else Some (es ! (i - 1)))"

definition index_push :: "entries \<Rightarrow> nat \<Rightarrow> nat \<Rightarrow> entries" where
  "index_push es relative_offset file_position = es @ [(relative_offset, file_position)]"

definition encode_index_entry :: "nat \<Rightarrow> nat \<Rightarrow> u8 list" where
  "encode_index_entry relative_offset file_pos = be_bytes 8 relative_offset @ be_bytes 8 file_pos"

text \<open>The bytes \<open>write_all_to\<close> leaves in the index file.\<close>

definition index_bytes :: "entries \<Rightarrow> u8 list" where
  "index_bytes es = concat (map (\<lambda>(rel, pos). encode_index_entry rel pos) es)"

definition load_index :: "u8 list \<Rightarrow> io_error + entries" where
  "load_index buf =
     (if length buf mod INDEX_ENTRY_LEN \<noteq> 0 then Inl InvalidData
      else Inr (map (\<lambda>i. let chunk = subslice (16 * i) (16 * i + 16) buf
                         in (from_be_bytes (subslice 0 8 chunk), from_be_bytes (subslice 8 16 chunk)))
                 [0..<length buf div INDEX_ENTRY_LEN]))"


section \<open>The record cursor\<close>

definition READ_WINDOW_BYTES :: nat where "READ_WINDOW_BYTES = 256 * 1024"

text \<open>Positional read: up to \<open>n\<close> bytes from \<open>pos\<close>, fewer at the end of the file.\<close>

definition read_at :: "u8 list \<Rightarrow> nat \<Rightarrow> nat \<Rightarrow> u8 list" where
  "read_at logf n pos = take n (drop pos logf)"

record cursor =
  c_pos :: nat
  c_limit :: nat
  c_buf :: "u8 list"
  c_buf_start :: nat
  c_window :: nat

definition cursor_new :: "nat \<Rightarrow> nat \<Rightarrow> nat \<Rightarrow> cursor" where
  "cursor_new start limit window =
     \<lparr>c_pos = start, c_limit = limit, c_buf = [], c_buf_start = start, c_window = max window 4096\<rparr>"

definition buffered :: "cursor \<Rightarrow> u8 list" where
  "buffered c =
     (let end = c_buf_start c + length (c_buf c)
      in if c_pos c < c_buf_start c \<or> c_pos c \<ge> end then []
         else drop (c_pos c - c_buf_start c) (c_buf c))"

definition refill :: "u8 list \<Rightarrow> nat \<Rightarrow> cursor \<Rightarrow> cursor" where
  "refill logf at_least c =
     (let remaining = c_limit c - c_pos c;
          want = min (max at_least (c_window c)) remaining
      in c\<lparr>c_buf := read_at logf want (c_pos c), c_buf_start := c_pos c\<rparr>)"

definition is_short :: "decode_error \<Rightarrow> bool" where
  "is_short e = (case e of Truncated _ \<Rightarrow> True | Eof \<Rightarrow> True | _ \<Rightarrow> False)"

text \<open>The loop of \<open>next_record\<close>; \<open>refilled\<close> is its flag, so the loop runs at most twice.\<close>

function next_loop ::
    "(u8 list \<Rightarrow> 32 word) \<Rightarrow> u8 list \<Rightarrow> bool \<Rightarrow> cursor \<Rightarrow> (decode_error + es_record option) \<times> cursor" where
  "next_loop crc logf refilled c =
     (case decode_record crc (buffered c) (c_pos c) of
        Inr (rec, n) \<Rightarrow> (Inr (Some rec), c\<lparr>c_pos := c_pos c + n\<rparr>)
      | Inl e \<Rightarrow>
          if is_short e \<and> \<not> refilled then
            (case peek_record_len (buffered c) (c_pos c) of
               Inl e' \<Rightarrow> (Inl e', c)
             | Inr peeked \<Rightarrow>
                 let need = (case peeked of None \<Rightarrow> 4 | Some n \<Rightarrow> n)
                 in if c_pos c + need > c_limit c then (Inl (Truncated (c_pos c)), c)
                    else next_loop crc logf True (refill logf need c))
          else if e = Eof then (Inl (Truncated (c_pos c)), c)
          else (Inl e, c))"
  by pat_completeness auto
termination
  by (relation "measure (\<lambda>(_, _, refilled, _). if refilled then 0 else 1)") auto

declare next_loop.simps [simp del]

definition next_record ::
    "(u8 list \<Rightarrow> 32 word) \<Rightarrow> u8 list \<Rightarrow> cursor \<Rightarrow> (decode_error + es_record option) \<times> cursor" where
  "next_record crc logf c =
     (if c_pos c \<ge> c_limit c then (Inr None, c) else next_loop crc logf False c)"


section \<open>Every record moves the cursor forward\<close>

lemma refill_fields [simp]:
  "c_pos (refill logf n c) = c_pos c" "c_limit (refill logf n c) = c_limit c"
  "c_window (refill logf n c) = c_window c"
  by (simp_all add: refill_def Let_def)

lemma next_loop_some:
  "next_loop crc logf refilled c = (Inr (Some r), c') \<Longrightarrow>
     c_pos c < c_pos c' \<and> c_limit c' = c_limit c \<and> c_window c' = c_window c"
proof (induction crc logf refilled c rule: next_loop.induct)
  case (1 crc logf refilled c)
  show ?case
    using "1.prems" "1.IH"
    by (subst (asm) next_loop.simps)
      (auto simp: Let_def split: sum.splits prod.splits if_splits option.splits
        dest!: decode_record_total)
qed

lemma next_record_some:
  "next_record crc logf c = (Inr (Some r), c') \<Longrightarrow>
     c_pos c < c_limit c \<and> c_pos c < c_pos c' \<and> c_limit c' = c_limit c \<and> c_window c' = c_window c"
  by (auto simp: next_record_def split: if_splits dest: next_loop_some)


section \<open>The index search is a floor search\<close>

text \<open>The documented result of \<open>floor\<close>: the last entry whose offset is at most the target.\<close>

definition floor_spec :: "entries \<Rightarrow> nat \<Rightarrow> (nat \<times> nat) option" where
  "floor_spec es target =
     (let below = filter (\<lambda>e. fst e \<le> target) es
      in if below = [] then None else Some (last below))"

lemma bsearch_loop_last:
  assumes "sorted keys" "0 < sz" "base + sz \<le> length keys"
    and "\<forall>j. base + sz \<le> j \<and> j < length keys \<longrightarrow> target < keys ! j"
    and "base = 0 \<or> keys ! base \<le> target"
  shows "let b = bsearch_loop keys target base sz in
     b < length keys \<and> (b = 0 \<or> keys ! b \<le> target) \<and>
     (\<forall>j. b < j \<and> j < length keys \<longrightarrow> target < keys ! j)"
  using assms
proof (induction keys target base sz rule: bsearch_loop.induct)
  case (1 keys target base sz)
  show ?case
  proof (cases "sz > 1")
    case True
    let ?mid = "base + sz div 2"
    have mid: "?mid < length keys" using "1.prems" True by simp
    have step: "bsearch_loop keys target base sz =
        bsearch_loop keys target (if keys ! ?mid > target then base else ?mid) (sz - sz div 2)"
      using True by (subst bsearch_loop.simps) (simp add: Let_def)
    show ?thesis
    proof (cases "keys ! ?mid > target")
      case above: True
      have "\<forall>j. base + (sz - sz div 2) \<le> j \<and> j < length keys \<longrightarrow> target < keys ! j"
      proof (intro allI impI)
        fix j assume j: "base + (sz - sz div 2) \<le> j \<and> j < length keys"
        then have "?mid \<le> j" by linarith
        then have "keys ! ?mid \<le> keys ! j"
          using "1.prems"(1) j by (blast intro: sorted_nth_mono)
        then show "target < keys ! j" using above by simp
      qed
      then show ?thesis
        using "1.IH"[OF True] "1.prems" True above by (simp add: step)
    next
      case False
      have e: "?mid + (sz - sz div 2) = base + sz" by simp
      have "keys ! ?mid \<le> target" using False by simp
      then show ?thesis
        using "1.IH"[OF True refl refl] "1.prems" True False by (simp add: step e)
    qed
  next
    case False
    then have "sz = 1" using "1.prems" by simp
    then show ?thesis
      using "1.prems" by (subst bsearch_loop.simps) (simp add: Let_def)
  qed
qed

lemma last_filter_nth:
  assumes "b < length xs" "P (xs ! b)" "\<forall>j. b < j \<and> j < length xs \<longrightarrow> \<not> P (xs ! j)"
  shows "filter P xs \<noteq> [] \<and> last (filter P xs) = xs ! b"
proof -
  have "filter P (drop (Suc b) xs) = []"
    using assms(3) by (auto simp: filter_empty_conv in_set_conv_nth)
  then have "filter P xs = filter P (take b xs) @ [xs ! b]"
    using assms(1,2) by (subst id_take_nth_drop[OF assms(1)]) simp
  then show ?thesis by simp
qed

lemma index_floor_eq_spec:
  assumes "sorted (map fst es)"
  shows "index_floor es target = floor_spec es target"
proof (cases "es = []")
  case True
  then show ?thesis by (simp add: index_floor_def floor_spec_def)
next
  case False
  define b where "b = bsearch_loop (map fst es) target 0 (length es)"
  have b: "b < length es" "b = 0 \<or> fst (es ! b) \<le> target"
    "\<forall>j. b < j \<and> j < length es \<longrightarrow> target < fst (es ! j)"
    using bsearch_loop_last[OF assms, of "length es" 0 target] False
    by (auto simp: Let_def b_def[symmetric])
  show ?thesis
  proof (cases "fst (es ! b) \<le> target")
    case True
    have "filter (\<lambda>e. fst e \<le> target) es \<noteq> [] \<and> last (filter (\<lambda>e. fst e \<le> target) es) = es ! b"
      using b True by (intro last_filter_nth) auto
    moreover have "index_floor es target = Some (es ! b)"
      using False True b(1) by (auto simp: index_floor_def binary_search_def Let_def b_def[symmetric])
    ultimately show ?thesis by (simp add: floor_spec_def)
  next
    case none: False
    then have "filter (\<lambda>e. fst e \<le> target) es = []"
      using b by (auto simp: filter_empty_conv in_set_conv_nth not_le)
        (metis less_nat_zero_code linorder_neqE_nat not_le fst_conv)
    moreover have "index_floor es target = None"
      using False none b(1,2) by (auto simp: index_floor_def binary_search_def Let_def b_def[symmetric])
    ultimately show ?thesis by (simp add: floor_spec_def)
  qed
qed

lemma floor_spec_Some:
  "floor_spec es target = Some e \<Longrightarrow> e \<in> set es \<and> fst e \<le> target"
  using last_in_set[of "filter (\<lambda>e. fst e \<le> target) es"]
  by (auto simp: floor_spec_def Let_def split: if_splits)


section \<open>The index file\<close>

lemma length_index_bytes [simp]: "length (index_bytes es) = 16 * length es"
  by (induction es) (auto simp: index_bytes_def encode_index_entry_def)

lemma index_bytes_append: "index_bytes (xs @ ys) = index_bytes xs @ index_bytes ys"
  by (simp add: index_bytes_def)

lemma index_bytes_chunk:
  assumes "i < length es"
  shows "subslice (16 * i) (16 * i + 16) (index_bytes es @ rest) =
     encode_index_entry (fst (es ! i)) (snd (es ! i))"
proof -
  have "index_bytes es = index_bytes (take i es) @
      encode_index_entry (fst (es ! i)) (snd (es ! i)) @ index_bytes (drop (Suc i) es)"
    by (subst id_take_nth_drop[OF assms])
      (simp add: index_bytes_def case_prod_beta)
  then show ?thesis
    using assms by (simp add: subslice_def encode_index_entry_def)
qed

definition entries_fit :: "entries \<Rightarrow> bool" where
  "entries_fit es \<longleftrightarrow> list_all (\<lambda>(rel, pos). rel < 2 ^ 64 \<and> pos < 2 ^ 64) es"

lemma load_index_bytes:
  assumes "entries_fit es"
  shows "load_index (index_bytes es) = Inr es"
proof -
  have "map (\<lambda>i. let chunk = subslice (16 * i) (16 * i + 16) (index_bytes es)
        in (from_be_bytes (subslice 0 8 chunk), from_be_bytes (subslice 8 16 chunk))) [0..<length es]
      = map (\<lambda>i. es ! i) [0..<length es]"
  proof (rule map_cong[OF refl])
    fix i assume "i \<in> set [0..<length es]"
    then have i: "i < length es" by simp
    have fit: "fst (es ! i) < 2 ^ 64" "snd (es ! i) < 2 ^ 64"
      using assms i by (auto simp: entries_fit_def list_all_length case_prod_beta)
    have s0: "subslice 0 8 (encode_index_entry x y) = be_bytes 8 x"
      and s8: "subslice 8 16 (encode_index_entry x y) = be_bytes 8 y" for x y
      by (simp_all add: encode_index_entry_def subslice_def)
    show "(let chunk = subslice (16 * i) (16 * i + 16) (index_bytes es)
        in (from_be_bytes (subslice 0 8 chunk), from_be_bytes (subslice 8 16 chunk))) = es ! i"
      using index_bytes_chunk[OF i, of "[]"] fit by (simp add: Let_def s0 s8)
  qed
  then show ?thesis by (simp add: load_index_def INDEX_ENTRY_LEN_def map_nth)
qed


section \<open>What the cursor returns\<close>

text \<open>The bytes between the cursor and its limit, and the invariant of the window.\<close>

definition rest_of :: "u8 list \<Rightarrow> cursor \<Rightarrow> u8 list" where
  "rest_of logf c = drop (c_pos c) (take (c_limit c) logf)"

definition cursor_ok :: "u8 list \<Rightarrow> cursor \<Rightarrow> bool" where
  "cursor_ok logf c \<longleftrightarrow> c_limit c \<le> length logf \<and> 4096 \<le> c_window c \<and>
     c_buf c = take (length (c_buf c)) (drop (c_buf_start c) (take (c_limit c) logf))"

lemma cursor_ok_new: "limit \<le> length logf \<Longrightarrow> cursor_ok logf (cursor_new start limit window)"
  by (simp add: cursor_ok_def cursor_new_def)

lemma buffered_new [simp]: "buffered (cursor_new start limit window) = []"
  by (simp add: buffered_def cursor_new_def)

lemma cursor_new_fields [simp]:
  "c_pos (cursor_new start limit window) = start" "c_limit (cursor_new start limit window) = limit"
  "c_window (cursor_new start limit window) = max window 4096"
  by (simp_all add: cursor_new_def)

lemma length_rest_of: "c_limit c \<le> length logf \<Longrightarrow> length (rest_of logf c) = c_limit c - c_pos c"
  by (simp add: rest_of_def)

lemma take_length_take: "take (length (take n xs)) xs = take n xs"
  by (simp add: min_def)

lemma buffered_prefix:
  assumes "cursor_ok logf c"
  shows "buffered c = take (length (buffered c)) (rest_of logf c)"
proof (cases "c_pos c < c_buf_start c \<or> c_pos c \<ge> c_buf_start c + length (c_buf c)")
  case True
  then show ?thesis by (simp add: buffered_def)
next
  case False
  let ?k = "c_pos c - c_buf_start c"
  have "drop ?k (c_buf c) = drop ?k (take (length (c_buf c)) (drop (c_buf_start c) (take (c_limit c) logf)))"
    using assms unfolding cursor_ok_def by metis
  also have "\<dots> = take (length (c_buf c) - ?k) (drop (c_buf_start c + ?k) (take (c_limit c) logf))"
    by (simp only: drop_take[of ?k "length (c_buf c)"] drop_drop add.commute)
  also have "\<dots> = take (length (c_buf c) - ?k) (rest_of logf c)"
    using False by (simp add: rest_of_def)
  finally have "buffered c = take (length (c_buf c) - ?k) (rest_of logf c)"
    using False by (simp add: buffered_def)
  then show ?thesis by (metis take_length_take)
qed

lemma refill_buf:
  "c_buf (refill logf n c) = take (max n (c_window c)) (rest_of logf c)"
  "c_buf_start (refill logf n c) = c_pos c"
  by (simp_all add: refill_def Let_def read_at_def rest_of_def drop_take)

lemma rest_of_refill [simp]: "rest_of logf (refill logf n c) = rest_of logf c"
  by (simp add: rest_of_def)

lemma buffered_refill: "buffered (refill logf n c) = take (max n (c_window c)) (rest_of logf c)"
  by (auto simp: buffered_def Let_def refill_buf min_def max_def split: if_splits)

lemma cursor_ok_refill: "cursor_ok logf c \<Longrightarrow> cursor_ok logf (refill logf n c)"
  using take_length_take[of "max n (c_window c)" "rest_of logf c"]
  by (simp add: cursor_ok_def refill_buf) (simp add: rest_of_def)

lemma cursor_ok_advance: "cursor_ok logf c \<Longrightarrow> cursor_ok logf (c\<lparr>c_pos := p\<rparr>)"
  by (simp add: cursor_ok_def)

lemma rest_of_advance: "rest_of logf (c\<lparr>c_pos := c_pos c + n\<rparr>) = drop n (rest_of logf c)"
  by (simp add: rest_of_def add.commute)

lemma decode_take_Inr:
  assumes "decode_record crc (take m xs) at = Inr (r, n)"
  shows "decode_record crc xs at = Inr (r, n)"
  using decode_record_take[OF assms, of m "drop m xs" at]
    decode_record_sound(3)[OF assms] by simp

lemma next_loop_sound:
  assumes "cursor_ok logf c" "next_loop crc logf refilled c = (Inr (Some r), c')"
  shows "decode_record crc (rest_of logf c) (c_pos c) = Inr (r, c_pos c' - c_pos c) \<and> cursor_ok logf c'"
  using assms
proof (induction crc logf refilled c rule: next_loop.induct)
  case (1 crc logf refilled c)
  show ?case
  proof (cases "decode_record crc (buffered c) (c_pos c)")
    case (Inr rn)
    obtain r' n where rn: "rn = (r', n)" by (cases rn)
    have "decode_record crc (rest_of logf c) (c_pos c) = Inr (r', n)"
      using Inr buffered_prefix[OF "1.prems"(1)] by (metis decode_take_Inr rn)
    moreover have "r' = r \<and> c' = c\<lparr>c_pos := c_pos c + n\<rparr>"
      using "1.prems"(2) Inr rn by (subst (asm) next_loop.simps) simp
    ultimately show ?thesis
      using "1.prems"(1) by (simp add: cursor_ok_advance)
  next
    case (Inl e)
    obtain need where s: "is_short e \<and> \<not> refilled"
      and need: "next_loop crc logf True (refill logf need c) = (Inr (Some r), c')"
      using "1.prems"(2) Inl
      by (subst (asm) next_loop.simps) (auto simp: Let_def split: if_splits sum.splits)
    then show ?thesis
      using "1.IH"[OF Inl s] "1.prems" Inl cursor_ok_refill[OF "1.prems"(1)]
      by (subst (asm) next_loop.simps)
        (auto simp: Let_def split: if_splits sum.splits option.splits)
  qed
qed

lemma next_record_sound:
  "cursor_ok logf c \<Longrightarrow> next_record crc logf c = (Inr (Some r), c') \<Longrightarrow>
     decode_record crc (rest_of logf c) (c_pos c) = Inr (r, c_pos c' - c_pos c) \<and> cursor_ok logf c'"
  by (auto simp: next_record_def next_loop_sound split: if_splits dest: next_loop_sound)

lemma rest_of_Nil: "cursor_ok logf c \<Longrightarrow> rest_of logf c = [] \<longleftrightarrow> c_limit c \<le> c_pos c"
  using length_rest_of[of c logf] by (auto simp: cursor_ok_def)

lemma next_record_end:
  "cursor_ok logf c \<Longrightarrow> rest_of logf c = [] \<Longrightarrow> next_record crc logf c = (Inr None, c)"
  by (simp add: next_record_def rest_of_Nil)

text \<open>The answer of the cursor on a prefix that is too short to hold the next record.\<close>

lemma decode_short:
  assumes "wf_record r" "m < rec_size r"
  shows "\<exists>e. decode_record crc (take m (encode_rec crc r @ t)) at = Inl e \<and> is_short e \<and>
     (0 < m \<longrightarrow> e = Truncated at)"
proof (cases "m = 0")
  case True
  then show ?thesis by (simp add: decode_record_def is_short_def)
next
  case False
  have "take m (encode_rec crc r @ t) = take m (encode_rec crc r)"
    using assms(2) by simp
  then have "decode_record crc (take m (encode_rec crc r @ t)) at = Inl (Truncated at)"
    using decode_record_torn[OF assms(1) _ assms(2)] False by (metis gr0I)
  then show ?thesis by (simp add: is_short_def)
qed

lemma peek_short:
  assumes "wf_record r"
  shows "peek_record_len (take m (encode_rec crc r @ t)) at =
     Inr (if m < 4 then None else Some (rec_size r))"
proof -
  have sz: "4 \<le> rec_size r" "rec_size r \<ge> 32" using rec_size_ge[of r] by auto
  show ?thesis
  proof (cases "m < 4")
    case True
    then show ?thesis using sz by (simp add: peek_record_len_def record_consts)
  next
    case False
    then have "subslice 0 4 (take m (encode_rec crc r @ t)) = subslice 0 4 (encode_rec crc r @ t)"
      using sz by (simp add: subslice_def)
    then show ?thesis
      using False sz prefix_field_of_encoding[OF assms, of crc t] check_body_len_ok[OF assms, of at]
      by (simp add: peek_record_len_def record_consts)
  qed
qed

text \<open>
  One call on a well-formed record: it succeeds when the record is in the window already, when its
  length is, or when it fits a fresh window; otherwise it is reported as torn.
\<close>

lemma next_record_exact:
  assumes ok: "cursor_ok logf c" and rest: "rest_of logf c = encode_rec crc r @ t" and wf: "wf_record r"
  shows "if length (buffered c) < 4 \<and> c_window c < rec_size r
     then next_record crc logf c = (Inl (Truncated (c_pos c)), refill logf 4 c)
     else \<exists>c'. next_record crc logf c = (Inr (Some r), c') \<and> cursor_ok logf c' \<and>
            rest_of logf c' = t \<and> c_pos c' = c_pos c + rec_size r \<and>
            c_limit c' = c_limit c \<and> c_window c' = c_window c"
proof -
  define m where "m = length (buffered c)"
  have b: "buffered c = take m (encode_rec crc r @ t)"
    using buffered_prefix[OF ok] by (simp add: m_def rest)
  have w: "4096 \<le> c_window c" "c_limit c \<le> length logf" using ok by (simp_all add: cursor_ok_def)
  have len: "c_limit c - c_pos c = rec_size r + length t"
    using length_rest_of[OF w(2)] rest by (metis length_append length_encode_rec)
  then have lim: "c_pos c < c_limit c" "c_pos c + rec_size r \<le> c_limit c"
    using rec_size_ge[of r] by linarith+
  let ?adv = "\<lambda>c1. c1\<lparr>c_pos := c_pos c1 + rec_size r\<rparr>"
  have dec: "decode_record crc (take k (encode_rec crc r @ t)) at = Inr (r, rec_size r)"
    if "rec_size r \<le> k" for k at
    using that decode_record_encode[OF wf] by simp
  have good: "\<exists>c'. (Inr (Some r), ?adv c1) = (Inr (Some r) :: decode_error + es_record option, c') \<and>
      cursor_ok logf c' \<and> rest_of logf c' = t \<and> c_pos c' = c_pos c + rec_size r \<and>
      c_limit c' = c_limit c \<and> c_window c' = c_window c"
    if "cursor_ok logf c1" "rest_of logf c1 = rest_of logf c" "c_pos c1 = c_pos c"
      "c_limit c1 = c_limit c" "c_window c1 = c_window c" for c1
    using that rest rest_of_advance[of logf c1 "rec_size r"] by (simp add: cursor_ok_advance)
  show ?thesis
  proof (cases "rec_size r \<le> m")
    case True
    then have "next_record crc logf c = (Inr (Some r), ?adv c)"
      using lim dec[OF True] by (simp add: next_record_def next_loop.simps[of crc logf False c] b)
    then show ?thesis
      using good[OF ok] True rec_size_ge[of r] by (simp add: m_def)
  next
    case False
    then have mr: "m < rec_size r" by simp
    let ?need = "if m < 4 then 4 else rec_size r"
    let ?c1 = "refill logf ?need c"
    have step: "next_record crc logf c = next_loop crc logf True ?c1"
      using decode_short[OF wf mr, of crc t "c_pos c"] peek_short[OF wf, of m crc t "c_pos c"] lim
        rec_size_ge[of r]
      by (subst next_record_def, subst next_loop.simps) (auto simp: b Let_def)
    have b1: "buffered ?c1 = take (max ?need (c_window c)) (encode_rec crc r @ t)"
      by (simp add: buffered_refill rest)
    show ?thesis
    proof (cases "m < 4 \<and> c_window c < rec_size r")
      case True
      then have "max ?need (c_window c) = c_window c" using w by simp
      then have "buffered ?c1 = take (c_window c) (encode_rec crc r @ t)"
        by (simp only: b1)
      moreover have "decode_record crc (take (c_window c) (encode_rec crc r @ t)) (c_pos c) =
          Inl (Truncated (c_pos c))"
        using decode_short[OF wf, of "c_window c" crc t "c_pos c"] True w by auto
      ultimately have "decode_record crc (buffered ?c1) (c_pos c) = Inl (Truncated (c_pos c))"
        by (simp only:)
      then have "next_loop crc logf True ?c1 = (Inl (Truncated (c_pos c)), ?c1)"
        by (subst next_loop.simps) simp
      then show ?thesis using True step by (simp add: m_def)
    next
      case fits: False
      then have "rec_size r \<le> max ?need (c_window c)" by auto
      then have "next_loop crc logf True ?c1 = (Inr (Some r), ?adv ?c1)"
        using dec by (subst next_loop.simps) (simp add: b1)
      then show ?thesis
        using fits step good[OF cursor_ok_refill[OF ok]] by (simp add: m_def[symmetric])
    qed
  qed
qed

lemma next_record_fits:
  assumes "cursor_ok logf c" "rest_of logf c = encode_rec crc r @ t" "wf_record r"
    and "rec_size r \<le> c_window c"
  obtains c' where "next_record crc logf c = (Inr (Some r), c')" "cursor_ok logf c'"
    "rest_of logf c' = t" "c_pos c' = c_pos c + rec_size r" "c_limit c' = c_limit c"
    "c_window c' = c_window c"
proof -
  have "\<not> (length (buffered c) < 4 \<and> c_window c < rec_size r)" using assms(4) by simp
  then show ?thesis using next_record_exact[OF assms(1-3)] that by (auto split: if_splits)
qed

lemma next_record_error:
  assumes "cursor_ok logf c" "rest_of logf c \<noteq> []" "decode_record crc (rest_of logf c) (c_pos c) = Inl e"
  shows "\<exists>e' c'. next_record crc logf c = (Inl e', c')"
proof -
  obtain x c' where n: "next_record crc logf c = (x, c')" by (cases "next_record crc logf c")
  have "x \<noteq> Inr (Some r)" for r
    using next_record_sound[OF assms(1), of crc r c'] n assms(3) by auto
  moreover have "x \<noteq> Inr None"
  proof
    assume "x = Inr None"
    then have "next_loop crc logf False c = (Inr None, c')"
      using n assms(1,2) by (simp add: next_record_def rest_of_Nil)
    moreover have "next_loop crc logf f d \<noteq> (Inr None, d')" for f d d'
      by (induction crc logf f d arbitrary: d' rule: next_loop.induct)
        (subst next_loop.simps, auto simp: Let_def split: sum.splits option.splits)
    ultimately show False by blast
  qed
  ultimately show ?thesis using n by (metis option.exhaust sum.exhaust)
qed


section \<open>Segments\<close>

definition segment_log_name :: "nat \<Rightarrow> string" where
  "segment_log_name base_offset = pad_left 20 (dec_digits base_offset) @ ''.log''"

definition segment_index_name :: "nat \<Rightarrow> string" where
  "segment_index_name base_offset = pad_left 20 (dec_digits base_offset) @ ''.index''"

text \<open>\<open>sg_file\<close> is the contents behind the read handle of the segment.\<close>

record segment =
  sg_base_offset :: nat
  sg_size_bytes :: nat
  sg_index :: entries
  sg_min_timestamp_ms :: int
  sg_max_timestamp_ms :: int
  sg_file :: "u8 list"

definition segment_open_empty :: "nat \<Rightarrow> u8 list \<Rightarrow> segment" where
  "segment_open_empty base_offset logf =
     \<lparr>sg_base_offset = base_offset, sg_size_bytes = 0, sg_index = [],
      sg_min_timestamp_ms = i64_max, sg_max_timestamp_ms = i64_min, sg_file = logf\<rparr>"

definition observe_timestamp :: "int \<Rightarrow> segment \<Rightarrow> segment" where
  "observe_timestamp ts seg =
     seg\<lparr>sg_min_timestamp_ms := min (sg_min_timestamp_ms seg) ts,
         sg_max_timestamp_ms := max (sg_max_timestamp_ms seg) ts\<rparr>"

text \<open>The loop of \<open>read_from\<close>; a decoding error ends the read with what was collected.\<close>

function read_loop ::
    "(u8 list \<Rightarrow> 32 word) \<Rightarrow> u8 list \<Rightarrow> nat \<Rightarrow> nat \<Rightarrow> nat \<Rightarrow> nat \<Rightarrow> cursor \<Rightarrow> es_record list \<Rightarrow> nat \<Rightarrow>
     es_record list" where
  "read_loop crc logf target_offset max_records max_bytes high_watermark c out bytes =
     (case next_record crc logf c of
        (Inl e, c') \<Rightarrow> out
      | (Inr None, c') \<Rightarrow> out
      | (Inr (Some r), c') \<Rightarrow>
          if r_offset r \<ge> high_watermark then out
          else if r_offset r < target_offset
          then read_loop crc logf target_offset max_records max_bytes high_watermark c' out bytes
          else
            let approx_bytes = record_disk_size (map_option length (r_key r)) (length (r_value r))
            in if out \<noteq> [] \<and> bytes + approx_bytes > max_bytes then out
               else if length (out @ [r]) \<ge> max_records then out @ [r]
               else read_loop crc logf target_offset max_records max_bytes high_watermark c'
                      (out @ [r]) (bytes + approx_bytes))"
  by pat_completeness auto
termination
  by (relation "measure (\<lambda>(_, _, _, _, _, _, c, _, _). c_limit c - c_pos c)")
    (auto dest!: sym[of "(_, _)"] next_record_some)

declare read_loop.simps [simp del]

definition read_window :: "nat \<Rightarrow> nat" where
  "read_window max_bytes =
     max (16 * 1024) (min (READ_WINDOW_BYTES * 16) (sat_add64 max_bytes INDEX_INTERVAL_BYTES))"

definition read_from ::
    "(u8 list \<Rightarrow> 32 word) \<Rightarrow> segment \<Rightarrow> nat \<Rightarrow> nat \<Rightarrow> nat \<Rightarrow> nat \<Rightarrow> es_record list" where
  "read_from crc seg target_offset max_records max_bytes high_watermark =
     (if max_records = 0 \<or> target_offset \<ge> high_watermark then []
      else
        let rel = target_offset - sg_base_offset seg;
            start_pos = (case index_floor (sg_index seg) rel of None \<Rightarrow> 0 | Some (_, pos) \<Rightarrow> pos);
            sz = sg_size_bytes seg
        in if start_pos \<ge> sz then []
           else read_loop crc (sg_file seg) target_offset max_records max_bytes high_watermark
                  (cursor_new start_pos sz (read_window max_bytes)) [] 0)"


section \<open>The appender\<close>

text \<open>
  \<open>ap_log\<close> and \<open>ap_idx\<close> are the contents of the two files the appender has open in append mode.
  How a batch write ends is an input: it succeeds, the log write fails after some bytes, or the
  index write does; and so is whether each of the two truncations of the roll-back succeeds.
\<close>

record appender =
  ap_base_offset :: nat
  ap_log :: "u8 list"
  ap_idx :: "u8 list"
  ap_size_bytes :: nat
  ap_index_len :: nat
  ap_last_index_pos :: "nat option"

datatype write_outcome = WriteOk | LogWriteFails nat | IndexWriteFails nat

record io_outcome =
  io_write :: write_outcome
  io_cut_log :: bool
  io_cut_index :: bool

text \<open>\<open>File::set_len\<close>.\<close>

definition set_len :: "nat \<Rightarrow> u8 list \<Rightarrow> u8 list" where
  "set_len n f = take n f @ replicate (n - length f) 0"

definition appender_create :: "nat \<Rightarrow> u8 list \<Rightarrow> u8 list \<Rightarrow> appender" where
  "appender_create base_offset logf idxf =
     \<lparr>ap_base_offset = base_offset, ap_log = logf, ap_idx = idxf, ap_size_bytes = length logf,
      ap_index_len = length idxf, ap_last_index_pos = None\<rparr>"

definition appender_open_existing ::
    "nat \<Rightarrow> u8 list \<Rightarrow> u8 list \<Rightarrow> nat \<Rightarrow> nat \<Rightarrow> nat option \<Rightarrow> appender" where
  "appender_open_existing base_offset logf idxf truncate_log_to truncate_index_to last_index_pos =
     \<lparr>ap_base_offset = base_offset,
      ap_log = (if length logf \<noteq> truncate_log_to then set_len truncate_log_to logf else logf),
      ap_idx = (if length idxf \<noteq> truncate_index_to then set_len truncate_index_to idxf else idxf),
      ap_size_bytes = truncate_log_to, ap_index_len = truncate_index_to,
      ap_last_index_pos = last_index_pos\<rparr>"

definition wants_index_entry :: "appender \<Rightarrow> nat \<Rightarrow> bool" where
  "wants_index_entry a file_pos =
     (case ap_last_index_pos a of None \<Rightarrow> True | Some p \<Rightarrow> file_pos \<ge> p + INDEX_INTERVAL_BYTES)"

definition note_index_entry :: "nat \<Rightarrow> appender \<Rightarrow> appender" where
  "note_index_entry file_pos a = a\<lparr>ap_last_index_pos := Some file_pos\<rparr>"

text \<open>\<open>Inl rolled_back\<close> is the error of the source, \<open>Inr ()\<close> its success.\<close>

definition write_batch :: "io_outcome \<Rightarrow> u8 list \<Rightarrow> u8 list \<Rightarrow> appender \<Rightarrow> (bool + unit) \<times> appender" where
  "write_batch io log_bytes idx_bytes a =
     (let pre_log = ap_size_bytes a; pre_idx = ap_index_len a;
          fail = (\<lambda>logf idxf.
            let logf' = (if io_cut_log io then set_len pre_log logf else logf);
                idxf' = (if io_cut_log io \<and> io_cut_index io then set_len pre_idx idxf else idxf)
            in (Inl (io_cut_log io \<and> io_cut_index io), a\<lparr>ap_log := logf', ap_idx := idxf'\<rparr>))
      in case io_write io of
           LogWriteFails k \<Rightarrow> fail (ap_log a @ take k log_bytes) (ap_idx a)
         | IndexWriteFails k \<Rightarrow> fail (ap_log a @ log_bytes) (ap_idx a @ take k idx_bytes)
         | WriteOk \<Rightarrow>
             (Inr (), a\<lparr>ap_log := ap_log a @ log_bytes, ap_idx := ap_idx a @ idx_bytes,
                        ap_size_bytes := ap_size_bytes a + length log_bytes,
                        ap_index_len := ap_index_len a + length idx_bytes\<rparr>))"


section \<open>A cursor over a file of records\<close>

definition records_bytes :: "(u8 list \<Rightarrow> 32 word) \<Rightarrow> es_record list \<Rightarrow> u8 list" where
  "records_bytes crc rs = concat (map (encode_rec crc) rs)"

definition total_size :: "es_record list \<Rightarrow> nat" where
  "total_size rs = sum_list (map rec_size rs)"

lemma records_bytes_simps [simp]:
  "records_bytes crc [] = []" "records_bytes crc (r # rs) = encode_rec crc r @ records_bytes crc rs"
  "records_bytes crc (xs @ ys) = records_bytes crc xs @ records_bytes crc ys"
  by (simp_all add: records_bytes_def)

lemma total_size_simps [simp]:
  "total_size [] = 0" "total_size (r # rs) = rec_size r + total_size rs"
  "total_size (xs @ ys) = total_size xs + total_size ys"
  by (simp_all add: total_size_def)

lemma length_records_bytes [simp]: "length (records_bytes crc rs) = total_size rs"
  by (induction rs) simp_all

text \<open>Bytes that do not begin with a whole valid record: the end of the file, a torn write, damage.\<close>

definition stops :: "(u8 list \<Rightarrow> 32 word) \<Rightarrow> u8 list \<Rightarrow> bool" where
  "stops crc tail \<longleftrightarrow> isl (decode_record crc tail 0)"

lemma stopsD: "stops crc tail \<Longrightarrow> \<exists>e. decode_record crc tail at = Inl e"
  using decode_record_take[of crc tail at _ _ "length tail" "[]" 0]
  by (cases "decode_record crc tail at") (auto simp: stops_def dest: decode_record_sound(3))

lemma stops_Nil [simp]: "stops crc []"
  by (simp add: stops_def decode_record_def)

lemma stops_torn: "wf_record r \<Longrightarrow> k < rec_size r \<Longrightarrow> stops crc (take k (encode_rec crc r))"
  using decode_short[of r k crc "[]" 0] by (auto simp: stops_def)

definition at_records ::
    "(u8 list \<Rightarrow> 32 word) \<Rightarrow> u8 list \<Rightarrow> cursor \<Rightarrow> es_record list \<Rightarrow> u8 list \<Rightarrow> bool" where
  "at_records crc logf c rs tail \<longleftrightarrow>
     cursor_ok logf c \<and> rest_of logf c = records_bytes crc rs @ tail \<and> stops crc tail \<and>
     list_all (\<lambda>r. wf_record r \<and> rec_size r \<le> c_window c) rs"

lemma at_records_Cons:
  assumes "at_records crc logf c (r # rs) tail"
  obtains c' where "next_record crc logf c = (Inr (Some r), c')" "at_records crc logf c' rs tail"
    "c_pos c' = c_pos c + rec_size r" "c_limit c' = c_limit c"
proof -
  have "cursor_ok logf c" "rest_of logf c = encode_rec crc r @ records_bytes crc rs @ tail"
    "wf_record r" "rec_size r \<le> c_window c"
    using assms by (simp_all add: at_records_def)
  then obtain c' where c': "next_record crc logf c = (Inr (Some r), c')" "cursor_ok logf c'"
    "rest_of logf c' = records_bytes crc rs @ tail" "c_pos c' = c_pos c + rec_size r"
    "c_limit c' = c_limit c" "c_window c' = c_window c"
    by (rule next_record_fits)
  then have "at_records crc logf c' rs tail"
    using assms by (simp add: at_records_def)
  then show ?thesis using c' that by blast
qed

lemma at_records_Nil:
  assumes "at_records crc logf c [] tail"
  shows "\<exists>x c'. next_record crc logf c = (x, c') \<and> (if tail = [] then x = Inr None \<and> c' = c else isl x)"
proof (cases "tail = []")
  case True
  then show ?thesis using assms next_record_end[of logf c crc] by (simp add: at_records_def)
next
  case False
  then have "rest_of logf c \<noteq> []" "cursor_ok logf c" "stops crc (rest_of logf c)"
    using assms by (auto simp: at_records_def)
  then show ?thesis
    using False next_record_error[of logf c crc] stopsD[of crc "rest_of logf c" "c_pos c"] by fastforce
qed


section \<open>Bounded reads\<close>

text \<open>The records a read returns from the eligible ones: the first always, then while the budget
  lasts.\<close>

fun fill :: "bool \<Rightarrow> nat \<Rightarrow> nat \<Rightarrow> es_record list \<Rightarrow> es_record list" where
  "fill first mb acc [] = []"
| "fill first mb acc (r # rs) =
     (if \<not> first \<and> acc + rec_size r > mb then [] else r # fill False mb (acc + rec_size r) rs)"

definition eligible :: "nat \<Rightarrow> nat \<Rightarrow> es_record list \<Rightarrow> es_record list" where
  "eligible target hwm rs =
     filter (\<lambda>r. target \<le> r_offset r) (takeWhile (\<lambda>r. r_offset r < hwm) rs)"

lemma eligible_simps [simp]:
  "eligible target hwm [] = []"
  "eligible target hwm (r # rs) =
     (if r_offset r \<ge> hwm then [] else if r_offset r < target then eligible target hwm rs
      else r # eligible target hwm rs)"
  by (auto simp: eligible_def)

lemma read_loop_records:
  assumes "at_records crc logf c rs tail" "length out < mr"
  shows "read_loop crc logf target mr mb hwm c out bytes =
     out @ take (mr - length out) (fill (out = []) mb bytes (eligible target hwm rs))"
  using assms
proof (induction rs arbitrary: c out bytes)
  case Nil
  then show ?case
    using at_records_Nil[of crc logf c tail]
    by (subst read_loop.simps) (auto split: if_splits sum.splits)
next
  case (Cons r rs)
  from Cons.prems(1) obtain c' where c': "next_record crc logf c = (Inr (Some r), c')"
    "at_records crc logf c' rs tail" by (rule at_records_Cons)
  have sz: "record_disk_size (map_option length (r_key r)) (length (r_value r)) = rec_size r"
    by (simp add: rec_size_def)
  show ?case
    using Cons.IH[OF c'(2)] Cons.prems(2) c'(1)
    by (subst read_loop.simps) (auto simp: sz Let_def take_Cons')
qed

text \<open>
  A segment whose readable part holds the records \<open>rs\<close>, in increasing offset order from its base,
  and whose index points at starts of records.
\<close>

definition index_ok :: "nat \<Rightarrow> es_record list \<Rightarrow> entries \<Rightarrow> bool" where
  "index_ok base rs es \<longleftrightarrow>
     sorted (map fst es) \<and>
     list_all (\<lambda>(rel, pos). \<exists>i<length rs. r_offset (rs ! i) = base + rel \<and> pos = total_size (take i rs)) es"

definition offsets_ok :: "nat \<Rightarrow> es_record list \<Rightarrow> bool" where
  "offsets_ok base rs \<longleftrightarrow> sorted_wrt (<) (map r_offset rs) \<and> list_all (\<lambda>r. base \<le> r_offset r) rs"

definition segment_holds :: "(u8 list \<Rightarrow> 32 word) \<Rightarrow> segment \<Rightarrow> es_record list \<Rightarrow> bool" where
  "segment_holds crc seg rs \<longleftrightarrow>
     sg_size_bytes seg = total_size rs \<and> sg_size_bytes seg \<le> length (sg_file seg) \<and>
     take (sg_size_bytes seg) (sg_file seg) = records_bytes crc rs \<and>
     list_all wf_record rs \<and> offsets_ok (sg_base_offset seg) rs \<and>
     index_ok (sg_base_offset seg) rs (sg_index seg)"

lemma offsets_ok_less: "offsets_ok base rs \<Longrightarrow> i < j \<Longrightarrow> j < length rs \<Longrightarrow> r_offset (rs ! i) < r_offset (rs ! j)"
  by (simp add: offsets_ok_def sorted_wrt_iff_nth_less)

lemma eligible_append:
  "list_all (\<lambda>r. r_offset r < target \<and> r_offset r < hwm) xs \<Longrightarrow>
     eligible target hwm (xs @ ys) = eligible target hwm ys"
  by (induction xs) auto

lemma drop_records_bytes:
  "drop (total_size (take i rs)) (records_bytes crc rs) = records_bytes crc (drop i rs)"
proof -
  have "records_bytes crc rs = records_bytes crc (take i rs) @ records_bytes crc (drop i rs)"
    by (metis append_take_drop_id records_bytes_simps(3))
  then show ?thesis by simp
qed

lemma total_size_split: "total_size rs = total_size (take i rs) + total_size (drop i rs)"
  by (metis append_take_drop_id total_size_simps(3))

lemma total_size_ge: "rs \<noteq> [] \<Longrightarrow> 32 \<le> total_size rs"
  using rec_size_ge by (cases rs) (auto intro: trans_le_add1)

text \<open>Where a read starts: at some record, and no record before it qualifies.\<close>

lemma read_start:
  assumes "offsets_ok base rs" "index_ok base rs es" "target < hwm"
  obtains i where "(case index_floor es (target - base) of None \<Rightarrow> 0 | Some (_, pos) \<Rightarrow> pos) = total_size (take i rs)"
    "i \<le> length rs" "eligible target hwm rs = eligible target hwm (drop i rs)"
proof (cases "index_floor es (target - base)")
  case None
  then show ?thesis using that[of 0] by simp
next
  case (Some e)
  obtain rel pos where e: "e = (rel, pos)" by (cases e)
  have "(rel, pos) \<in> set es" "rel \<le> target - base"
    using Some floor_spec_Some[of es "target - base" e] index_floor_eq_spec[of es] assms(2)
    by (auto simp: e index_ok_def)
  then obtain i where i: "i < length rs" "r_offset (rs ! i) = base + rel" "pos = total_size (take i rs)"
    using assms(2) by (fastforce simp: index_ok_def list_all_iff)
  have "r_offset (rs ! j) < target" if "j < i" for j
  proof -
    have "base \<le> r_offset (rs ! j)" "r_offset (rs ! j) < base + rel"
      using assms(1) offsets_ok_less[OF assms(1) that i(1)] i that
      by (simp_all add: offsets_ok_def list_all_length)
    then show ?thesis using \<open>rel \<le> target - base\<close> by linarith
  qed
  then have "list_all (\<lambda>r. r_offset r < target \<and> r_offset r < hwm) (take i rs)"
    using assms(3) i(1) by (force simp: list_all_length)
  then have "eligible target hwm rs = eligible target hwm (drop i rs)"
    using eligible_append[of target hwm "take i rs" "drop i rs"] by simp
  then show ?thesis using that[of i] i Some e by simp
qed

lemma read_from_records:
  assumes seg: "segment_holds crc seg rs" and win: "list_all (\<lambda>r. rec_size r \<le> read_window mb) rs"
  shows "read_from crc seg target mr mb hwm =
     (if target < hwm then take mr (fill True mb 0 (eligible target hwm rs)) else [])"
proof (cases "mr = 0 \<or> target \<ge> hwm")
  case True
  then show ?thesis by (auto simp: read_from_def)
next
  case False
  let ?start = "case index_floor (sg_index seg) (target - sg_base_offset seg) of None \<Rightarrow> 0 | Some (_, pos) \<Rightarrow> pos"
  have S: "sg_size_bytes seg = total_size rs" "sg_size_bytes seg \<le> length (sg_file seg)"
    "take (sg_size_bytes seg) (sg_file seg) = records_bytes crc rs" "list_all wf_record rs"
    "offsets_ok (sg_base_offset seg) rs" "index_ok (sg_base_offset seg) rs (sg_index seg)"
    using seg by (auto simp: segment_holds_def)
  obtain i where i: "?start = total_size (take i rs)" "i \<le> length rs"
    "eligible target hwm rs = eligible target hwm (drop i rs)"
    using read_start[OF S(5,6)] False by (metis not_le)
  let ?c = "cursor_new ?start (sg_size_bytes seg) (read_window mb)"
  have ar: "at_records crc (sg_file seg) ?c (drop i rs) []"
    using S win drop_records_bytes[of i rs crc]
    by (auto simp: at_records_def cursor_ok_new rest_of_def i(1) list_all_iff
        dest!: in_set_dropD intro: max.coboundedI1)
  show ?thesis
  proof (cases "?start \<ge> sg_size_bytes seg")
    case True
    then have "drop i rs = []"
      using total_size_split[of rs i] total_size_ge[of "drop i rs"] S(1) i(1) by fastforce
    then show ?thesis
      using False True i(3) by (simp add: read_from_def)
  next
    case go: False
    then show ?thesis
      using read_loop_records[OF ar, of "[]" mr target mb hwm 0] False i(3)
      by (simp add: read_from_def Let_def)
  qed
qed


lemma write_batch_cases:
  assumes "ap_size_bytes a = length (ap_log a)" "ap_index_len a = length (ap_idx a)"
  shows "case write_batch io lb ib a of
       (Inr _, a') \<Rightarrow> ap_log a' = ap_log a @ lb \<and> ap_idx a' = ap_idx a @ ib \<and>
          ap_size_bytes a' = length (ap_log a') \<and> ap_index_len a' = length (ap_idx a')
     | (Inl rolled, a') \<Rightarrow> (rolled \<longrightarrow> a' = a) \<and> (rolled \<longleftrightarrow> io_cut_log io \<and> io_cut_index io) \<and>
          ap_size_bytes a' = ap_size_bytes a \<and> take (ap_size_bytes a) (ap_log a') = ap_log a"
  using assms
  by (cases a; cases "io_write io") (auto simp: write_batch_def Let_def set_len_def)


section \<open>Properties\<close>

text \<open>C16: the binary search of \<open>SparseIndex::floor\<close> returns what its comment promises on every index
  whose offsets do not decrease: the last entry at or below the target, and none when every entry
  lies above.\<close>

theorem index_floor_correct:
  assumes "sorted (map fst es)"
  shows "index_floor es target = floor_spec es target"
  by (rule index_floor_eq_spec[OF assms])

theorem index_floor_correct_witness:
  "index_floor [(0, 0), (10, 100), (20, 200)] 15 = Some (10, 100)"
  using index_floor_correct[of "[(0, 0), (10, 100), (20, 200)]" 15]
  by (simp add: floor_spec_def)

text \<open>One call of the cursor on a file whose next bytes are an encoded record. It returns exactly
  that record and stops just behind it, except when fewer than four of its bytes are buffered and
  the record is larger than the window; then it reports a torn record although the file is
  intact.\<close>

theorem cursor_next_record:
  assumes "cursor_ok logf c" "rest_of logf c = encode_rec crc r @ t" "wf_record r"
  shows "if length (buffered c) < 4 \<and> c_window c < rec_size r
     then next_record crc logf c = (Inl (Truncated (c_pos c)), refill logf 4 c)
     else \<exists>c'. next_record crc logf c = (Inr (Some r), c') \<and> cursor_ok logf c' \<and>
            rest_of logf c' = t \<and> c_pos c' = c_pos c + rec_size r \<and>
            c_limit c' = c_limit c \<and> c_window c' = c_window c"
  by (rule next_record_exact[OF assms])

theorem cursor_next_record_witness:
  "\<exists>c'. next_record (\<lambda>_. 17) (encode_rec (\<lambda>_. 17) sample_record) (cursor_new 0 37 0) =
     (Inr (Some sample_record), c') \<and> c_pos c' = 37"
proof -
  let ?f = "encode_rec (\<lambda>_. 17) sample_record"
  have sz: "rec_size sample_record = 37"
    by (simp add: rec_size_eq sample_record_def key_bytes_len_def)
  have "cursor_ok ?f (cursor_new 0 37 0)" "rest_of ?f (cursor_new 0 37 0) = ?f @ []"
    using sz by (simp_all add: cursor_ok_new rest_of_def)
  from cursor_next_record[OF this wf_sample_record] show ?thesis by (auto simp: sz)
qed

text \<open>C15: a read from a segment that holds the records \<open>rs\<close> returns, of the records at or above the
  target and below the high watermark, the first, whatever its size, and as many more as both
  limits allow, in order and without a gap, wherever the index entry it starts from lies. The
  condition is that no record is larger than the read window, which is the byte limit kept
  between 16 KiB and 4 MiB.\<close>

theorem read_from_correct:
  assumes "segment_holds crc seg rs" "list_all (\<lambda>r. rec_size r \<le> read_window mb) rs"
  shows "read_from crc seg target mr mb hwm =
     (if target < hwm then take mr (fill True mb 0 (eligible target hwm rs)) else [])"
  by (rule read_from_records[OF assms])

definition sample_segment :: "u8 list \<Rightarrow> segment" where
  "sample_segment v =
     \<lparr>sg_base_offset = 5, sg_size_bytes = 32 + length v, sg_index = [(0, 0)], sg_min_timestamp_ms = 0,
      sg_max_timestamp_ms = 0,
      sg_file = encode_rec (\<lambda>_. 3)
        \<lparr>r_offset = 5, r_timestamp_ms = 0, r_key = None, r_value = v\<rparr>\<rparr>"

lemma sample_segment_holds:
  "length v \<le> 2 ^ 20 \<Longrightarrow>
   segment_holds (\<lambda>_. 3) (sample_segment v)
     [\<lparr>r_offset = 5, r_timestamp_ms = 0, r_key = None, r_value = v\<rparr>]"
  by (simp add: segment_holds_def sample_segment_def wf_record_def rec_size_eq key_bytes_len_def
      offsets_ok_def index_ok_def record_consts)

theorem read_from_correct_witness:
  "read_from (\<lambda>_. 3) (sample_segment [1, 2]) 5 10 100 6 =
     [\<lparr>r_offset = 5, r_timestamp_ms = 0, r_key = None, r_value = [1, 2]\<rparr>]"
  using read_from_correct[OF sample_segment_holds[of "[1, 2]"], of 100 5 10 6]
  by (simp add: rec_size_eq key_bytes_len_def read_window_def READ_WINDOW_BYTES_def
      INDEX_INTERVAL_BYTES_def)



text \<open>C17: a batch write is all or nothing as long as the roll-back works. It succeeds and both files
  have grown by exactly the batch; or it fails with the roll-back reported and both files are what
  they were; or it reports that it could not roll back, in which case the bytes below the old size
  are still intact.\<close>

theorem write_batch_atomic:
  assumes "ap_size_bytes a = length (ap_log a)" "ap_index_len a = length (ap_idx a)"
  shows "case write_batch io lb ib a of
       (Inr _, a') \<Rightarrow> ap_log a' = ap_log a @ lb \<and> ap_idx a' = ap_idx a @ ib \<and>
          ap_size_bytes a' = length (ap_log a') \<and> ap_index_len a' = length (ap_idx a')
     | (Inl rolled, a') \<Rightarrow> (rolled \<longrightarrow> a' = a) \<and> (rolled \<longleftrightarrow> io_cut_log io \<and> io_cut_index io) \<and>
          ap_size_bytes a' = ap_size_bytes a \<and> take (ap_size_bytes a) (ap_log a') = ap_log a"
  by (rule write_batch_cases[OF assms])

theorem write_batch_atomic_witness:
  "write_batch \<lparr>io_write = IndexWriteFails 3, io_cut_log = True, io_cut_index = True\<rparr> [1, 2] [3, 4, 5, 6]
     (appender_create 0 [7] [8]) = (Inl True, appender_create 0 [7] [8])"
proof -
  let ?io = "\<lparr>io_write = IndexWriteFails 3, io_cut_log = True, io_cut_index = True\<rparr>"
  have "fst (write_batch ?io [1, 2] [3, 4, 5, 6] (appender_create 0 [7] [8])) = Inl True"
    by (simp add: write_batch_def Let_def)
  then show ?thesis
    using write_batch_atomic[of "appender_create 0 [7] [8]" ?io "[1, 2]" "[3, 4, 5, 6]"]
    by (auto simp: appender_create_def split: prod.splits)
qed

text \<open>The index file round trip: loading what \<open>write_all_to\<close> wrote gives the entries back, and the
  length check accepts it.\<close>

theorem index_file_roundtrip:
  assumes "entries_fit es"
  shows "load_index (index_bytes es) = Inr es"
  by (rule load_index_bytes[OF assms])

theorem index_file_roundtrip_witness:
  "load_index (index_bytes [(0, 0), (7, 4200)]) = Inr [(0, 0), (7, 4200)]"
  by (rule index_file_roundtrip) (simp add: entries_fit_def)

end
