(* ===== verification/Storage_Recover.thy ===== *)
theory Storage_Recover
  imports Storage_Segment "HOL-Library.AList"
begin

text \<open>
  Start-up recovery of a partition directory, \<open>storage/recover.rs\<close>: finishing an interrupted
  compaction, sweeping its temporary files, listing the segments, scanning each of them and
  opening the appender on the last one.

  A directory is an association list from file names to contents, in the order \<open>read_dir\<close> yields
  it. The JSON parser of the compaction marker is third-party code and the parameter
  \<open>parse_marker\<close>. File operations on files that are there succeed; a missing file is \<open>NotFound\<close>.
  Offsets are natural numbers; the code's \<open>offset + 1\<close> wraps only behind a record at 2^64 - 1.
\<close>

type_synonym dir = "(string \<times> u8 list) list"

definition dir_get :: "dir \<Rightarrow> string \<Rightarrow> u8 list option" where
  "dir_get d n = map_of d n"

definition dir_put :: "string \<Rightarrow> u8 list \<Rightarrow> dir \<Rightarrow> dir" where
  "dir_put n b d = AList.update n b d"

definition dir_remove :: "string \<Rightarrow> dir \<Rightarrow> dir" where
  "dir_remove n d = filter (\<lambda>e. fst e \<noteq> n) d"

text \<open>\<open>fs::rename\<close> when the source exists, which is how the code calls it.\<close>

definition dir_rename :: "string \<Rightarrow> string \<Rightarrow> dir \<Rightarrow> dir" where
  "dir_rename a b d = (case dir_get d a of None \<Rightarrow> d | Some x \<Rightarrow> dir_put b x (dir_remove a d))"

lemma dir_get_put [simp]: "dir_get (dir_put n b d) m = (if m = n then Some b else dir_get d m)"
  by (simp add: dir_get_def dir_put_def update_conv')

lemma dir_get_remove [simp]: "dir_get (dir_remove n d) m = (if m = n then None else dir_get d m)"
  by (induction d) (auto simp: dir_get_def dir_remove_def)

lemma dir_get_rename [simp]:
  "a \<noteq> b \<Longrightarrow> dir_get (dir_rename a b d) m =
     (if dir_get d a = None then dir_get d m
      else if m = b then dir_get d a else if m = a then None else dir_get d m)"
  by (auto simp: dir_rename_def split: option.splits)


section \<open>Compaction left-overs\<close>

definition COMPACTION_MARKER :: string where "COMPACTION_MARKER = ''compaction.marker''"

record compaction_marker =
  cm_base :: nat
  cm_victims :: "nat list"

definition compaction_tmp_names :: "nat \<Rightarrow> string \<times> string" where
  "compaction_tmp_names base =
     (pad_left 20 (dec_digits base) @ ''.compact.tmp.log'',
      pad_left 20 (dec_digits base) @ ''.compact.tmp.index'')"

definition remove_segment_files :: "nat \<Rightarrow> dir \<Rightarrow> dir" where
  "remove_segment_files v d = dir_remove (segment_index_name v) (dir_remove (segment_log_name v) d)"

definition finish_compaction :: "(u8 list \<Rightarrow> compaction_marker option) \<Rightarrow> dir \<Rightarrow> dir" where
  "finish_compaction parse_marker d =
     (case dir_get d COMPACTION_MARKER of
        None \<Rightarrow> d
      | Some bytes \<Rightarrow>
          (case parse_marker bytes of
             None \<Rightarrow> dir_remove COMPACTION_MARKER d
           | Some marker \<Rightarrow>
               let (tmp_log, tmp_idx) = compaction_tmp_names (cm_base marker);
                   d1 = (if dir_get d tmp_log \<noteq> None
                         then dir_rename tmp_log (segment_log_name (cm_base marker)) d else d);
                   d2 = (if dir_get d1 tmp_idx \<noteq> None
                         then dir_rename tmp_idx (segment_index_name (cm_base marker)) d1 else d1);
                   d3 = fold remove_segment_files (cm_victims marker) d2
               in dir_remove COMPACTION_MARKER d3))"

definition sweep_compaction_tmp :: "dir \<Rightarrow> dir" where
  "sweep_compaction_tmp d = filter (\<lambda>e. \<not> str_contains ''.compact.tmp.'' (fst e)) d"

definition segment_base_of :: "string \<Rightarrow> nat option" where
  "segment_base_of name =
     (case split_ext name of
        (stem, ext) \<Rightarrow>
          if ext \<noteq> Some ''log'' then None
          else if CHR ''.'' \<in> set stem then None
          else parse_u64 stem)"

definition collect_segment_base_offsets :: "dir \<Rightarrow> nat list" where
  "collect_segment_base_offsets d = List.map_filter (\<lambda>e. segment_base_of (fst e)) d"


section \<open>Scanning one segment\<close>

record segment_scan =
  sc_entries :: entries
  sc_next_offset :: nat
  sc_valid_bytes :: nat
  sc_damaged :: bool
  sc_index_trusted :: bool
  sc_min_ts :: int
  sc_max_ts :: int

definition empty_scan :: "nat \<Rightarrow> bool \<Rightarrow> segment_scan" where
  "empty_scan base trusted =
     \<lparr>sc_entries = [], sc_next_offset = base, sc_valid_bytes = 0, sc_damaged = False,
      sc_index_trusted = trusted, sc_min_ts = i64_max, sc_max_ts = i64_min\<rparr>"

definition index_wants :: "nat option \<Rightarrow> nat \<Rightarrow> bool" where
  "index_wants last_index_pos pos =
     (case last_index_pos of None \<Rightarrow> True | Some p \<Rightarrow> pos \<ge> p + INDEX_INTERVAL_BYTES)"

text \<open>The loop of \<open>scan_full\<close>; the scan so far is the accumulator.\<close>

function scan_loop ::
    "(u8 list \<Rightarrow> 32 word) \<Rightarrow> u8 list \<Rightarrow> nat \<Rightarrow> cursor \<Rightarrow> nat option \<Rightarrow> segment_scan \<Rightarrow> segment_scan" where
  "scan_loop crc logf base c last_index_pos s =
     (case next_record crc logf c of
        (Inl e, c') \<Rightarrow> s\<lparr>sc_damaged := True\<rparr>
      | (Inr None, c') \<Rightarrow> s
      | (Inr (Some r), c') \<Rightarrow>
          let pos_before = c_pos c;
              wants = index_wants last_index_pos pos_before
          in scan_loop crc logf base c' (if wants then Some pos_before else last_index_pos)
               (s\<lparr>sc_entries := sc_entries s @ (if wants then [(r_offset r - base, pos_before)] else []),
                  sc_next_offset := r_offset r + 1,
                  sc_valid_bytes := c_pos c',
                  sc_min_ts := min (sc_min_ts s) (r_timestamp_ms r),
                  sc_max_ts := max (sc_max_ts s) (r_timestamp_ms r)\<rparr>))"
  by pat_completeness auto
termination
  by (relation "measure (\<lambda>(_, _, _, c, _, _). c_limit c - c_pos c)")
    (auto dest!: sym[of "(_, _)"] next_record_some)

declare scan_loop.simps [simp del]

definition scan_full :: "(u8 list \<Rightarrow> 32 word) \<Rightarrow> dir \<Rightarrow> nat \<Rightarrow> segment_scan" where
  "scan_full crc d base_offset =
     (case dir_get d (segment_log_name base_offset) of
        None \<Rightarrow> empty_scan base_offset False
      | Some logf \<Rightarrow>
          let s = scan_loop crc logf base_offset (cursor_new 0 (length logf) READ_WINDOW_BYTES) None
                    (empty_scan base_offset False)
          in s\<lparr>sc_damaged := sc_damaged s \<or> sc_valid_bytes s \<noteq> length logf\<rparr>)"

fun windows_increase :: "entries \<Rightarrow> bool" where
  "windows_increase (a # b # es) =
     (\<not> (fst b \<le> fst a \<or> snd b \<le> snd a) \<and> windows_increase (b # es))"
| "windows_increase _ = True"

definition thin_index :: "entries \<Rightarrow> entries" where
  "thin_index es =
     foldl (\<lambda>out (rel, pos).
       if out \<noteq> [] \<and> pos < snd (last out) + INDEX_INTERVAL_BYTES then out else out @ [(rel, pos)]) [] es"

text \<open>The walk from the last index entry to the end of the file: \<open>None\<close> for every surprise, or the
  last record seen and where the cursor stopped.\<close>

function tail_loop ::
    "(u8 list \<Rightarrow> 32 word) \<Rightarrow> u8 list \<Rightarrow> nat \<Rightarrow> nat \<Rightarrow> cursor \<Rightarrow> bool \<Rightarrow> es_record option \<Rightarrow>
     (es_record option \<times> nat) option" where
  "tail_loop crc logf base last_rel c first_in_tail lst =
     (case next_record crc logf c of
        (Inl e, c') \<Rightarrow> None
      | (Inr None, c') \<Rightarrow> Some (lst, c_pos c')
      | (Inr (Some r), c') \<Rightarrow>
          if first_in_tail \<and> (r_offset r < base \<or> r_offset r - base \<noteq> last_rel) then None
          else tail_loop crc logf base last_rel c' False (Some r))"
  by pat_completeness auto
termination
  by (relation "measure (\<lambda>(_, _, _, _, c, _, _). c_limit c - c_pos c)")
    (auto dest!: sym[of "(_, _)"] next_record_some)

declare tail_loop.simps [simp del]

definition scan_sealed_trusted :: "(u8 list \<Rightarrow> 32 word) \<Rightarrow> dir \<Rightarrow> nat \<Rightarrow> segment_scan option" where
  "scan_sealed_trusted crc d base =
     (case (dir_get d (segment_log_name base), dir_get d (segment_index_name base)) of
        (Some logf, Some idxf) \<Rightarrow>
          (case load_index idxf of
             Inl e \<Rightarrow> None
           | Inr entries \<Rightarrow>
               let sz = length logf
               in if sz = 0 then (if entries = [] then Some (empty_scan base True) else None)
               else if entries = [] then None
               else if snd (hd entries) \<noteq> 0 then None
               else if \<not> windows_increase entries then None
               else if snd (last entries) \<ge> sz then None
               else
                 (case fst (next_record crc logf (cursor_new 0 sz 4096)) of
                    Inr (Some first) \<Rightarrow>
                      if r_offset first < base \<or> r_offset first - base \<noteq> fst (hd entries) then None
                      else
                        (case tail_loop crc logf base (fst (last entries))
                                (cursor_new (snd (last entries)) sz READ_WINDOW_BYTES) True None of
                           Some (Some lst, pos) \<Rightarrow>
                             if pos \<noteq> sz then None
                             else Some
                               \<lparr>sc_entries = thin_index entries, sc_next_offset = r_offset lst + 1,
                                sc_valid_bytes = sz, sc_damaged = False, sc_index_trusted = True,
                                sc_min_ts = min (r_timestamp_ms first) (r_timestamp_ms lst),
                                sc_max_ts = max (r_timestamp_ms first) (r_timestamp_ms lst)\<rparr>
                         | _ \<Rightarrow> None)
                  | _ \<Rightarrow> None))
      | _ \<Rightarrow> None)"


section \<open>The whole directory\<close>

record recovered =
  rc_segments :: "segment list"
  rc_next_offset :: nat
  rc_appender :: appender

text \<open>One round of the loop over the segments: the scan, the repairs on disk, the opened segment.\<close>

definition recover_segment ::
    "(u8 list \<Rightarrow> 32 word) \<Rightarrow> nat \<Rightarrow> bool \<Rightarrow> dir \<Rightarrow> io_error + segment \<times> segment_scan \<times> dir" where
  "recover_segment crc base_offset is_active d =
     (let log_name = segment_log_name base_offset; idx_name = segment_index_name base_offset;
          trusted = (if is_active then None else scan_sealed_trusted crc d base_offset);
          scan = (case trusted of Some s \<Rightarrow> s | None \<Rightarrow> scan_full crc d base_offset);
          d1 = (if sc_damaged scan \<and> is_active
                then (case dir_get d log_name of
                        None \<Rightarrow> d | Some f \<Rightarrow> dir_put log_name (set_len (sc_valid_bytes scan) f) d)
                else d);
          current = (case dir_get d1 idx_name of
                       None \<Rightarrow> None
                     | Some f \<Rightarrow> (case load_index f of Inl _ \<Rightarrow> None | Inr es \<Rightarrow> Some es));
          d2 = (if \<not> sc_index_trusted scan \<and> current \<noteq> Some (sc_entries scan)
                then dir_put idx_name (index_bytes (sc_entries scan)) d1 else d1)
      in case dir_get d2 log_name of
           None \<Rightarrow> Inl NotFound
         | Some f \<Rightarrow>
             Inr (\<lparr>sg_base_offset = base_offset, sg_size_bytes = sc_valid_bytes scan,
                   sg_index = sc_entries scan, sg_min_timestamp_ms = sc_min_ts scan,
                   sg_max_timestamp_ms = sc_max_ts scan, sg_file = f\<rparr>, scan, d2))"

fun recover_loop ::
    "(u8 list \<Rightarrow> 32 word) \<Rightarrow> nat list \<Rightarrow> segment list \<Rightarrow> nat \<Rightarrow> entries \<Rightarrow> dir \<Rightarrow>
     io_error + segment list \<times> nat \<times> entries \<times> dir" where
  "recover_loop crc [] segs next_offset active_entries d = Inr (segs, next_offset, active_entries, d)"
| "recover_loop crc (b # bs) segs next_offset active_entries d =
     (let is_active = (bs = [])
      in case recover_segment crc b is_active d of
           Inl e \<Rightarrow> Inl e
         | Inr (seg, scan, d') \<Rightarrow>
             recover_loop crc bs (segs @ [seg]) (max next_offset (sc_next_offset scan))
               (if is_active then sc_entries scan else active_entries) d')"

definition file_or_empty :: "dir \<Rightarrow> string \<Rightarrow> u8 list" where
  "file_or_empty d n = (case dir_get d n of None \<Rightarrow> [] | Some f \<Rightarrow> f)"

definition put_appender_files :: "appender \<Rightarrow> dir \<Rightarrow> dir" where
  "put_appender_files a d =
     dir_put (segment_index_name (ap_base_offset a)) (ap_idx a)
       (dir_put (segment_log_name (ap_base_offset a)) (ap_log a) d)"

definition recover_partition ::
    "(u8 list \<Rightarrow> 32 word) \<Rightarrow> (u8 list \<Rightarrow> compaction_marker option) \<Rightarrow> dir \<Rightarrow> io_error + recovered \<times> dir" where
  "recover_partition crc parse_marker d0 =
     (let d = sweep_compaction_tmp (finish_compaction parse_marker d0);
          base_offsets = sort (collect_segment_base_offsets d)
      in if base_offsets = [] then
           let a = appender_create 0 (file_or_empty d (segment_log_name 0))
                     (file_or_empty d (segment_index_name 0))
           in Inr (\<lparr>rc_segments = [segment_open_empty 0 (ap_log a)], rc_next_offset = 0, rc_appender = a\<rparr>,
                   put_appender_files a d)
         else
           (case recover_loop crc base_offsets [] (hd base_offsets) [] d of
              Inl e \<Rightarrow> Inl e
            | Inr (segs, next_offset, active_entries, d') \<Rightarrow>
                let active = last segs; b = sg_base_offset active;
                    a = appender_open_existing b (file_or_empty d' (segment_log_name b))
                          (file_or_empty d' (segment_index_name b)) (sg_size_bytes active)
                          (length active_entries * INDEX_ENTRY_LEN)
                          (if active_entries = [] then None else Some (snd (last active_entries)))
                in Inr (\<lparr>rc_segments = segs, rc_next_offset = next_offset, rc_appender = a\<rparr>,
                        put_appender_files a d')))"



section \<open>The sparse index of a list of records\<close>

fun sparse :: "nat \<Rightarrow> nat option \<Rightarrow> nat \<Rightarrow> es_record list \<Rightarrow> entries" where
  "sparse base lst pos [] = []"
| "sparse base lst pos (r # rs) =
     (if index_wants lst pos
      then (r_offset r - base, pos) # sparse base (Some pos) (pos + rec_size r) rs
      else sparse base lst (pos + rec_size r) rs)"

definition next_after :: "nat \<Rightarrow> es_record list \<Rightarrow> nat" where
  "next_after n rs = (if rs = [] then n else r_offset (last rs) + 1)"

lemma next_after_Cons [simp]: "next_after n (r # rs) = next_after (r_offset r + 1) rs"
  by (simp add: next_after_def)

lemma next_after_Nil [simp]: "next_after n [] = n"
  by (simp add: next_after_def)

lemma scan_loop_records:
  assumes "at_records crc logf c rs tail" "sc_valid_bytes s = c_pos c"
  shows "scan_loop crc logf base c lst s =
     s\<lparr>sc_entries := sc_entries s @ sparse base lst (c_pos c) rs,
       sc_next_offset := next_after (sc_next_offset s) rs,
       sc_valid_bytes := c_pos c + total_size rs,
       sc_damaged := (if tail = [] then sc_damaged s else True),
       sc_min_ts := foldl (\<lambda>m r. min m (r_timestamp_ms r)) (sc_min_ts s) rs,
       sc_max_ts := foldl (\<lambda>m r. max m (r_timestamp_ms r)) (sc_max_ts s) rs\<rparr>"
  using assms
proof (induction rs arbitrary: c lst s)
  case Nil
  then show ?case
    using at_records_Nil[of crc logf c tail]
    by (cases s, subst scan_loop.simps) (auto split: if_splits sum.splits)
next
  case (Cons r rs)
  from Cons.prems(1) obtain c' where c': "next_record crc logf c = (Inr (Some r), c')"
    "at_records crc logf c' rs tail" "c_pos c' = c_pos c + rec_size r"
    by (rule at_records_Cons)
  show ?case
    using Cons.IH[OF c'(2)] Cons.prems(2) c'(1,3)
    by (subst scan_loop.simps) (simp add: Let_def add.assoc)
qed

text \<open>The window of the recovery scan, and the condition that every record fits it.\<close>

definition fits_scan :: "es_record list \<Rightarrow> bool" where
  "fits_scan rs \<longleftrightarrow> list_all (\<lambda>r. wf_record r \<and> rec_size r \<le> READ_WINDOW_BYTES) rs"

lemma at_records_start:
  assumes "fits_scan rs" "stops crc tail"
  shows "at_records crc (records_bytes crc rs @ tail)
     (cursor_new 0 (total_size rs + length tail) READ_WINDOW_BYTES) rs tail"
  using assms
  by (auto simp: at_records_def cursor_ok_new rest_of_def fits_scan_def list_all_iff max_def
      READ_WINDOW_BYTES_def)

lemma scan_full_records:
  assumes "dir_get d (segment_log_name base) = Some (records_bytes crc rs @ tail)"
    and "fits_scan rs" "stops crc tail"
  shows "scan_full crc d base =
     \<lparr>sc_entries = sparse base None 0 rs, sc_next_offset = next_after base rs,
      sc_valid_bytes = total_size rs, sc_damaged = (tail \<noteq> []), sc_index_trusted = False,
      sc_min_ts = foldl (\<lambda>m r. min m (r_timestamp_ms r)) i64_max rs,
      sc_max_ts = foldl (\<lambda>m r. max m (r_timestamp_ms r)) i64_min rs\<rparr>"
  using scan_loop_records[OF at_records_start[OF assms(2,3)], of "empty_scan base False" base None] assms(1)
  by (simp add: scan_full_def Let_def empty_scan_def)

lemma sparse_sound:
  assumes "offsets_ok base rs" "(rel, p) \<in> set (sparse base lst pos (drop k rs))" "k \<le> length rs"
    and "pos = total_size (take k rs)"
  shows "\<exists>i<length rs. k \<le> i \<and> r_offset (rs ! i) = base + rel \<and> p = total_size (take i rs)"
  using assms(2-)
proof (induction "length rs - k" arbitrary: k lst pos)
  case 0
  then show ?case by simp
next
  case (Suc n)
  then have k: "k < length rs" by simp
  have d: "drop k rs = rs ! k # drop (Suc k) rs" using k by (simp add: Cons_nth_drop_Suc)
  have t: "total_size (take (Suc k) rs) = pos + rec_size (rs ! k)"
    using k Suc.prems(3) by (simp add: take_Suc_conv_app_nth)
  have b: "base \<le> r_offset (rs ! k)"
    using assms(1) k by (simp add: offsets_ok_def list_all_length)
  have ih: "\<exists>i<length rs. Suc k \<le> i \<and> r_offset (rs ! i) = base + rel \<and> p = total_size (take i rs)"
    if "(rel, p) \<in> set (sparse base l (pos + rec_size (rs ! k)) (drop (Suc k) rs))" for l
    using Suc.hyps(1)[OF _ that] Suc.hyps(2) k t by simp
  show ?case
  proof (cases "index_wants lst pos \<and> (rel, p) = (r_offset (rs ! k) - base, pos)")
    case True
    then show ?thesis using k b Suc.prems(3) by (intro exI[of _ k]) auto
  next
    case False
    then have "\<exists>l. (rel, p) \<in> set (sparse base l (pos + rec_size (rs ! k)) (drop (Suc k) rs))"
      using Suc.prems(1) by (auto simp: d split: if_splits)
    then show ?thesis using ih by (meson Suc_leD)
  qed
qed

lemma sparse_rel:
  "e \<in> set (sparse base lst pos rs) \<Longrightarrow> \<exists>r\<in>set rs. fst e = r_offset r - base"
  by (induction rs arbitrary: lst pos) (auto split: if_splits)

lemma sparse_sorted:
  "sorted_wrt (<) (map r_offset rs) \<Longrightarrow> sorted (map fst (sparse base lst pos rs))"
  by (induction rs arbitrary: lst pos)
    (auto dest!: sparse_rel intro!: diff_le_mono intro: less_imp_le)

lemma index_ok_sparse: "offsets_ok base rs \<Longrightarrow> index_ok base rs (sparse base None 0 rs)"
  unfolding index_ok_def
  using sparse_sorted[of rs base None 0] sparse_sound[of base rs _ _ None 0 0]
  by (fastforce simp: offsets_ok_def list_all_iff)


section \<open>Trusting the index of a sealed segment\<close>

lemma tail_loop_records:
  assumes "at_records crc logf c rs []" "tail_loop crc logf base rel c first lst = Some (x, p)"
  shows "x = (if rs = [] then lst else Some (last rs))"
  using assms
proof (induction rs arbitrary: c first lst)
  case Nil
  then show ?case
    using at_records_Nil[of crc logf c "[]"] by (subst (asm) tail_loop.simps) auto
next
  case (Cons r rs)
  from Cons.prems(1) obtain c' where c': "next_record crc logf c = (Inr (Some r), c')"
    "at_records crc logf c' rs []" by (rule at_records_Cons)
  then have "tail_loop crc logf base rel c' False (Some r) = Some (x, p)"
    using Cons.prems(2) by (subst (asm) tail_loop.simps) (auto split: if_splits)
  then show ?case using Cons.IH[OF c'(2)] by auto
qed

lemma thin_index_aux:
  assumes "sorted (map fst (out @ es))"
  shows "sorted (map fst (foldl (\<lambda>out (rel, pos).
       if out \<noteq> [] \<and> pos < snd (last out) + INDEX_INTERVAL_BYTES then out else out @ [(rel, pos)]) out es)) \<and>
     set (foldl (\<lambda>out (rel, pos).
       if out \<noteq> [] \<and> pos < snd (last out) + INDEX_INTERVAL_BYTES then out else out @ [(rel, pos)]) out es)
     \<subseteq> set out \<union> set es"
  using assms
proof (induction es arbitrary: out)
  case (Cons e es)
  obtain rel pos where e: "e = (rel, pos)" by (cases e)
  have "sorted (map fst (out @ es))" "sorted (map fst ((out @ [e]) @ es))"
    using Cons.prems by (auto simp: sorted_append)
  then show ?case
    using Cons.IH[of out] Cons.IH[of "out @ [e]"] by (auto simp: e)
qed simp

lemma index_ok_thin: "index_ok base rs es \<Longrightarrow> index_ok base rs (thin_index es)"
  using thin_index_aux[of "[]" es] unfolding index_ok_def thin_index_def
  by (auto simp: list_all_iff)

lemma scan_sealed_trusted_records:
  assumes log: "dir_get d (segment_log_name base) = Some (records_bytes crc rs)"
    and rs: "fits_scan rs" "offsets_ok base rs"
    and idx: "\<And>f es. dir_get d (segment_index_name base) = Some f \<Longrightarrow> load_index f = Inr es \<Longrightarrow> index_ok base rs es"
    and scan: "scan_sealed_trusted crc d base = Some s"
  shows "sc_valid_bytes s = total_size rs \<and> \<not> sc_damaged s \<and> sc_index_trusted s \<and>
     sc_next_offset s = next_after base rs \<and> index_ok base rs (sc_entries s)"
proof -
  obtain f es where f: "dir_get d (segment_index_name base) = Some f" "load_index f = Inr es"
    using scan log by (auto simp: scan_sealed_trusted_def split: option.splits sum.splits)
  note ok = idx[OF f]
  show ?thesis
  proof (cases "rs = []")
    case True
    then show ?thesis
      using scan log f
      by (auto simp: scan_sealed_trusted_def empty_scan_def index_ok_def split: if_splits)
  next
    case False
    then have sz: "total_size rs \<noteq> 0" using total_size_ge[of rs] by auto
    from scan log f sz obtain lst pos
      where es: "es \<noteq> []"
        and t: "tail_loop crc (records_bytes crc rs) base (fst (last es))
          (cursor_new (snd (last es)) (total_size rs) READ_WINDOW_BYTES) True None = Some (Some lst, pos)"
        and s: "sc_entries s = thin_index es" "sc_next_offset s = r_offset lst + 1"
          "sc_valid_bytes s = total_size rs" "\<not> sc_damaged s" "sc_index_trusted s"
      by (auto simp: scan_sealed_trusted_def Let_def split: if_splits sum.splits option.splits)
    obtain i where i: "i < length rs" "snd (last es) = total_size (take i rs)"
      using ok last_in_set[OF es] by (fastforce simp: index_ok_def list_all_iff case_prod_beta)
    have "at_records crc (records_bytes crc rs)
        (cursor_new (snd (last es)) (total_size rs) READ_WINDOW_BYTES) (drop i rs) []"
      using rs(1) drop_records_bytes[of i rs crc]
      by (auto simp: at_records_def cursor_ok_new rest_of_def i(2) fits_scan_def list_all_iff
          dest!: in_set_dropD intro: max.coboundedI1)
    from tail_loop_records[OF this t] have "lst = last rs"
      using i(1) by simp
    then show ?thesis
      using False index_ok_thin[OF ok] by (simp add: s next_after_def)
  qed
qed


section \<open>Loading is the inverse of writing\<close>

lemma concat_chunks:
  "16 * n \<le> length f \<Longrightarrow> concat (map (\<lambda>i. subslice (16 * i) (16 * i + 16) f) [0..<n]) = take (16 * n) f"
proof (induction n)
  case (Suc n)
  then have "take (16 * n) f @ subslice (16 * n) (16 * n + 16) f = take (16 * n + 16) f"
    by (intro take_subslice) auto
  then show ?case using Suc by (simp add: add.commute)
qed simp

lemma chunk_entry:
  assumes "length ch = 16"
  shows "encode_index_entry (from_be_bytes (subslice 0 8 ch)) (from_be_bytes (subslice 8 16 ch)) = ch"
proof -
  have "subslice 0 8 ch @ subslice 8 16 ch = ch"
    using assms by (simp add: subslice_def)
  then show ?thesis
    using assms from_be_sub[of 8 ch 0 8] from_be_sub[of 16 ch 8 8]
    by (simp add: encode_index_entry_def)
qed

lemma load_index_inverse:
  assumes "load_index f = Inr es"
  shows "f = index_bytes es"
proof -
  define n where "n = length f div 16"
  have len: "length f = 16 * n"
    using assms by (auto simp: load_index_def INDEX_ENTRY_LEN_def n_def split: if_splits)
  have es: "es = map (\<lambda>i. let chunk = subslice (16 * i) (16 * i + 16) f
        in (from_be_bytes (subslice 0 8 chunk), from_be_bytes (subslice 8 16 chunk))) [0..<n]"
    using assms by (simp add: load_index_def INDEX_ENTRY_LEN_def n_def split: if_splits)
  have "index_bytes es = concat (map (\<lambda>i. subslice (16 * i) (16 * i + 16) f) [0..<n])"
    unfolding es index_bytes_def map_map
    by (rule arg_cong[where f = concat], rule map_cong[OF refl])
      (simp add: Let_def chunk_entry length_subslice len)
  then show ?thesis using concat_chunks[of n f] len by simp
qed


section \<open>Recovering a directory of segments\<close>

lemma pad_dec_inj:
  assumes "a \<le> u64_max" "b \<le> u64_max" "pad_left w (dec_digits a) = pad_left w (dec_digits b)"
  shows "a = b"
  using parse_u64_pad[OF assms(1), of w] parse_u64_pad[OF assms(2), of w] unfolding assms(3) by simp

lemma log_index_names [simp]: "segment_log_name a \<noteq> segment_index_name b"
proof -
  have "last (segment_log_name a) \<noteq> last (segment_index_name b)"
    by (simp add: segment_log_name_def segment_index_name_def)
  then show ?thesis by (rule contrapos_nn) (rule arg_cong[where f = last])
qed

lemmas index_log_names [simp] = not_sym[OF log_index_names]

lemma segment_names_inj:
  assumes "a \<le> u64_max" "b \<le> u64_max" "a \<noteq> b"
  shows "segment_log_name a \<noteq> segment_log_name b" "segment_index_name a \<noteq> segment_index_name b"
  using pad_dec_inj[OF assms(1,2)] assms(3)
  by (auto simp: segment_log_name_def segment_index_name_def)

text \<open>
  A segment on disk: its log is the records followed by \<open>tail\<close>; of a sealed one nothing follows,
  and its index file, if it loads at all, points at records.
\<close>

definition seg_on_disk :: "(u8 list \<Rightarrow> 32 word) \<Rightarrow> dir \<Rightarrow> bool \<Rightarrow> u8 list \<Rightarrow> nat \<times> es_record list \<Rightarrow> bool" where
  "seg_on_disk crc d is_active tail s \<longleftrightarrow>
     (case s of (b, rs) \<Rightarrow>
        dir_get d (segment_log_name b) = Some (records_bytes crc rs @ (if is_active then tail else [])) \<and>
        fits_scan rs \<and> offsets_ok b rs \<and>
        (is_active \<or> (case dir_get d (segment_index_name b) of
           None \<Rightarrow> True
         | Some f \<Rightarrow> (case load_index f of Inl _ \<Rightarrow> True | Inr es \<Rightarrow> index_ok b rs es))))"

fun chain_on_disk :: "(u8 list \<Rightarrow> 32 word) \<Rightarrow> dir \<Rightarrow> u8 list \<Rightarrow> (nat \<times> es_record list) list \<Rightarrow> bool" where
  "chain_on_disk crc d tail [] = True"
| "chain_on_disk crc d tail (s # ss) = (seg_on_disk crc d (ss = []) tail s \<and> chain_on_disk crc d tail ss)"

definition recovers_to :: "(u8 list \<Rightarrow> 32 word) \<Rightarrow> segment \<Rightarrow> nat \<times> es_record list \<Rightarrow> bool" where
  "recovers_to crc seg s \<longleftrightarrow> sg_base_offset seg = fst s \<and> segment_holds crc seg (snd s)"

definition same_except :: "nat \<Rightarrow> dir \<Rightarrow> dir \<Rightarrow> bool" where
  "same_except b d d' \<longleftrightarrow>
     (\<forall>n. n \<noteq> segment_log_name b \<longrightarrow> n \<noteq> segment_index_name b \<longrightarrow> dir_get d' n = dir_get d n)"

lemma recover_sealed:
  assumes disk: "seg_on_disk crc d False tail (b, rs)"
  shows "\<exists>seg scan d'. recover_segment crc b False d = Inr (seg, scan, d') \<and>
     recovers_to crc seg (b, rs) \<and> sc_next_offset scan = next_after b rs \<and> same_except b d d'"
proof -
  have log: "dir_get d (segment_log_name b) = Some (records_bytes crc rs)"
    and rs: "fits_scan rs" "offsets_ok b rs"
    and idx: "\<And>f es. dir_get d (segment_index_name b) = Some f \<Longrightarrow> load_index f = Inr es \<Longrightarrow> index_ok b rs es"
    using disk by (auto simp: seg_on_disk_def)
  have wf: "list_all wf_record rs" using rs(1) by (auto simp: fits_scan_def list_all_iff)
  define scan where "scan = (case scan_sealed_trusted crc d b of Some s \<Rightarrow> s | None \<Rightarrow> scan_full crc d b)"
  have s: "sc_valid_bytes scan = total_size rs" "\<not> sc_damaged scan"
    "sc_next_offset scan = next_after b rs" "index_ok b rs (sc_entries scan)"
    using scan_sealed_trusted_records[OF log rs idx] scan_full_records[of d b crc rs "[]"] log rs
      index_ok_sparse[OF rs(2)]
    by (auto simp: scan_def split: option.splits)
  show ?thesis
    using s log rs wf
    by (auto simp: recover_segment_def Let_def scan_def[symmetric] recovers_to_def segment_holds_def
        same_except_def)
qed

lemma recover_active:
  assumes disk: "seg_on_disk crc d True tail (b, rs)" and tail: "stops crc tail"
  shows "\<exists>seg scan d'. recover_segment crc b True d = Inr (seg, scan, d') \<and>
     recovers_to crc seg (b, rs) \<and> sg_file seg = records_bytes crc rs \<and>
     sg_index seg = sparse b None 0 rs \<and>
     sc_next_offset scan = next_after b rs \<and> sc_entries scan = sparse b None 0 rs \<and>
     dir_get d' (segment_log_name b) = Some (records_bytes crc rs) \<and>
     dir_get d' (segment_index_name b) = Some (index_bytes (sparse b None 0 rs)) \<and>
     same_except b d d'"
proof -
  have log: "dir_get d (segment_log_name b) = Some (records_bytes crc rs @ tail)"
    and rs: "fits_scan rs" "offsets_ok b rs"
    using disk by (auto simp: seg_on_disk_def)
  have wf: "list_all wf_record rs" using rs(1) by (auto simp: fits_scan_def list_all_iff)
  note scan = scan_full_records[OF log rs(1) tail]
  have cut: "set_len (total_size rs) (records_bytes crc rs @ tail) = records_bytes crc rs"
    by (simp add: set_len_def)
  have idx: "f = index_bytes (sparse b None 0 rs)" if "load_index f = Inr (sparse b None 0 rs)" for f
    by (rule load_index_inverse[OF that])
  show ?thesis
    using log wf rs index_ok_sparse[OF rs(2)]
    by (cases "tail = []")
      (auto simp: recover_segment_def Let_def scan recovers_to_def segment_holds_def same_except_def cut
        split: option.splits sum.splits dest: idx)
qed

lemma chain_frame:
  assumes "same_except b d d'" "b \<le> u64_max" "list_all (\<lambda>s. fst s \<noteq> b \<and> fst s \<le> u64_max) ss"
  shows "chain_on_disk crc d' tail ss = chain_on_disk crc d tail ss"
  using assms(3)
proof (induction ss)
  case (Cons s ss)
  obtain c rs where s: "s = (c, rs)" by (cases s)
  then have "dir_get d' (segment_log_name c) = dir_get d (segment_log_name c)"
    "dir_get d' (segment_index_name c) = dir_get d (segment_index_name c)"
    using assms(1,2) Cons.prems segment_names_inj[of c b] by (simp_all add: same_except_def)
  then show ?case using Cons by (simp add: s seg_on_disk_def)
qed simp

definition recovered_next :: "nat \<Rightarrow> (nat \<times> es_record list) list \<Rightarrow> nat" where
  "recovered_next n ss = foldl (\<lambda>n s. max n (next_after (fst s) (snd s))) n ss"

lemma recover_loop_ok:
  assumes "chain_on_disk crc d tail ss" "ss \<noteq> []" "stops crc tail"
    and "sorted_wrt (<) (map fst ss)" "list_all (\<lambda>s. fst s \<le> u64_max) ss"
  shows "\<exists>segs d'. recover_loop crc (map fst ss) acc n ae d =
       Inr (acc @ segs, recovered_next n ss, sparse (fst (last ss)) None 0 (snd (last ss)), d') \<and>
     list_all2 (recovers_to crc) segs ss \<and> sg_file (last segs) = records_bytes crc (snd (last ss)) \<and>
     sg_index (last segs) = sparse (fst (last ss)) None 0 (snd (last ss)) \<and>
     dir_get d' (segment_log_name (fst (last ss))) = Some (records_bytes crc (snd (last ss))) \<and>
     dir_get d' (segment_index_name (fst (last ss))) =
       Some (index_bytes (sparse (fst (last ss)) None 0 (snd (last ss))))"
  using assms
proof (induction ss arbitrary: d acc n ae)
  case (Cons s ss)
  obtain b rs where s: "s = (b, rs)" by (cases s)
  show ?case
  proof (cases "ss = []")
    case True
    then show ?thesis
      using Cons.prems recover_active[of crc d tail b rs]
      by (auto simp: s recovered_next_def)
  next
    case False
    obtain seg scan d1 where one: "recover_segment crc b False d = Inr (seg, scan, d1)"
      "recovers_to crc seg (b, rs)" "sc_next_offset scan = next_after b rs" "same_except b d d1"
      using recover_sealed[of crc d tail b rs] Cons.prems(1) False by (auto simp: s)
    have "chain_on_disk crc d1 tail ss"
      using chain_frame[OF one(4), of ss crc tail] Cons.prems by (auto simp: s list_all_iff)
    then obtain segs d' where rest: "recover_loop crc (map fst ss) (acc @ [seg])
        (max n (next_after b rs)) ae d1 =
        Inr ((acc @ [seg]) @ segs, recovered_next (max n (next_after b rs)) ss,
             sparse (fst (last ss)) None 0 (snd (last ss)), d')"
      "list_all2 (recovers_to crc) segs ss" "sg_file (last segs) = records_bytes crc (snd (last ss))"
      "sg_index (last segs) = sparse (fst (last ss)) None 0 (snd (last ss))"
      "dir_get d' (segment_log_name (fst (last ss))) = Some (records_bytes crc (snd (last ss)))"
      "dir_get d' (segment_index_name (fst (last ss))) =
         Some (index_bytes (sparse (fst (last ss)) None 0 (snd (last ss))))"
      using Cons.IH[of d1 "acc @ [seg]" "max n (next_after b rs)" ae] Cons.prems False by auto
    have "segs \<noteq> []" using rest(2) False by auto
    then show ?thesis
      using one rest False by (intro exI[of _ "seg # segs"] exI[of _ d']) (auto simp: s recovered_next_def)
  qed
qed simp

text \<open>Successive segments do not overlap, so the recovered offset is the one after the last record.\<close>

definition chained :: "(nat \<times> es_record list) list \<Rightarrow> bool" where
  "chained ss \<longleftrightarrow> sorted_wrt (\<lambda>s t. fst s < fst t \<and> next_after (fst s) (snd s) \<le> fst t) ss"

lemma next_after_ge: "offsets_ok b rs \<Longrightarrow> b \<le> next_after b rs"
  by (auto simp: next_after_def offsets_ok_def list_all_iff le_SucI)

lemma recovered_next_bound:
  "list_all (\<lambda>s. next_after (fst s) (snd s) \<le> m) ss \<Longrightarrow> n \<le> m \<Longrightarrow> recovered_next n ss \<le> m"
  by (induction ss arbitrary: n) (auto simp: recovered_next_def)

lemma recovered_next_last:
  assumes "chained ss" "ss \<noteq> []" "list_all (\<lambda>s. offsets_ok (fst s) (snd s)) ss"
  shows "recovered_next (fst (hd ss)) ss = next_after (fst (last ss)) (snd (last ss))"
proof -
  obtain xs x where ss: "ss = xs @ [x]" using assms(2) by (metis rev_exhaust)
  have ge: "fst x \<le> next_after (fst x) (snd x)" using assms(3) by (simp add: ss next_after_ge)
  have "list_all (\<lambda>s. next_after (fst s) (snd s) \<le> fst x \<and> fst s \<le> fst x) xs"
    using assms(1) by (auto simp: chained_def ss sorted_wrt_append list_all_iff intro: less_imp_le)
  then have "recovered_next (fst (hd ss)) xs \<le> fst x"
    by (intro recovered_next_bound) (cases xs; auto simp: ss list_all_iff)+
  then show ?thesis using ge by (simp add: ss recovered_next_def)
qed

lemma chained_sorted: "chained ss \<Longrightarrow> sorted_wrt (<) (map fst ss)"
  unfolding chained_def sorted_wrt_map by (erule sorted_wrt_mono_rel[rotated]) simp

lemma chain_offsets: "chain_on_disk crc d tail ss \<Longrightarrow> list_all (\<lambda>s. offsets_ok (fst s) (snd s)) ss"
  by (induction ss) (auto simp: seg_on_disk_def split: prod.splits)

text \<open>The appender describes the files of its segment exactly.\<close>

definition appender_ok :: "appender \<Rightarrow> segment \<Rightarrow> bool" where
  "appender_ok a seg \<longleftrightarrow>
     ap_base_offset a = sg_base_offset seg \<and> ap_log a = sg_file seg \<and>
     ap_size_bytes a = length (ap_log a) \<and> sg_size_bytes seg = ap_size_bytes a \<and>
     ap_idx a = index_bytes (sg_index seg) \<and> ap_index_len a = length (ap_idx a) \<and>
     ap_last_index_pos a = (if sg_index seg = [] then None else Some (snd (last (sg_index seg))))"

lemma list_all2_last: "list_all2 P xs ys \<Longrightarrow> ys \<noteq> [] \<Longrightarrow> P (last xs) (last ys)"
  by (cases xs rule: rev_cases; cases ys rule: rev_cases)
    (auto simp: list_all2_append2 list_all2_Cons2)

lemma recover_partition_ok:
  fixes d0 parse_marker
  defines "d \<equiv> sweep_compaction_tmp (finish_compaction parse_marker d0)"
  assumes listing: "sort (collect_segment_base_offsets d) = map fst ss" "ss \<noteq> []"
    and disk: "chain_on_disk crc d tail ss" "chained ss" "list_all (\<lambda>s. fst s \<le> u64_max) ss"
    and tail: "stops crc tail"
  shows "\<exists>p d'. recover_partition crc parse_marker d0 = Inr (p, d') \<and>
     list_all2 (recovers_to crc) (rc_segments p) ss \<and>
     rc_next_offset p = next_after (fst (last ss)) (snd (last ss)) \<and>
     appender_ok (rc_appender p) (last (rc_segments p)) \<and>
     sg_index (last (rc_segments p)) = sparse (fst (last ss)) None 0 (snd (last ss)) \<and>
     ap_log (rc_appender p) = records_bytes crc (snd (last ss)) \<and>
     dir_get d' (segment_log_name (fst (last ss))) = Some (records_bytes crc (snd (last ss)))"
proof -
  obtain b rs where l: "last ss = (b, rs)" by (cases "last ss")
  from recover_loop_ok[OF disk(1) listing(2) tail chained_sorted[OF disk(2)] disk(3),
      of "[]" "fst (hd ss)" "[]"]
  obtain segs d' where loop: "recover_loop crc (map fst ss) [] (fst (hd ss)) [] d =
       Inr (segs, recovered_next (fst (hd ss)) ss, sparse b None 0 rs, d')"
     "list_all2 (recovers_to crc) segs ss" "sg_file (last segs) = records_bytes crc rs"
     "sg_index (last segs) = sparse b None 0 rs"
     "dir_get d' (segment_log_name b) = Some (records_bytes crc rs)"
     "dir_get d' (segment_index_name b) = Some (index_bytes (sparse b None 0 rs))"
    by (auto simp: l)
  have nx: "recovered_next (fst (hd ss)) ss = next_after b rs"
    using recovered_next_last[OF disk(2) listing(2) chain_offsets[OF disk(1)]] l by simp
  have act: "sg_base_offset (last segs) = b" "sg_size_bytes (last segs) = total_size rs"
    using list_all2_last[OF loop(2) listing(2)] l by (auto simp: recovers_to_def segment_holds_def)
  have ne: "map fst ss \<noteq> []" "hd (map fst ss) = fst (hd ss)" using listing(2) by (simp_all add: hd_map)
  show ?thesis
    using loop act nx ne listing
    by (auto simp: recover_partition_def d_def[symmetric] Let_def l appender_ok_def file_or_empty_def
        appender_open_existing_def INDEX_ENTRY_LEN_def put_appender_files_def)
qed


section \<open>File names\<close>

lemma str_contains_chars: "str_contains needle s \<Longrightarrow> c \<in> set needle \<Longrightarrow> c \<in> set s"
proof (induction needle s rule: str_contains.induct)
  case (2 needle c' cs)
  then show ?case by (metis in_set_takeD set_subset_Cons str_contains.simps(2) subsetD)
qed simp

lemma segment_name_chars:
  "CHR ''c'' \<notin> set (segment_log_name b)" "CHR ''c'' \<notin> set (segment_index_name b)"
  by (auto simp: segment_log_name_def segment_index_name_def dest!: pad_left_chars)
    (metis digit_char_neq(3))+

lemma segment_names_not_tmp [simp]:
  "\<not> str_contains ''.compact.tmp.'' (segment_log_name b)"
  "\<not> str_contains ''.compact.tmp.'' (segment_index_name b)"
  using segment_name_chars str_contains_chars[of "''.compact.tmp.''" _ "CHR ''c''"] by auto

lemma segment_names_not_marker [simp]:
  "segment_log_name b \<noteq> COMPACTION_MARKER" "segment_index_name b \<noteq> COMPACTION_MARKER"
  using segment_name_chars[of b] by (auto simp: COMPACTION_MARKER_def)

lemmas marker_not_segment_names [simp] = segment_names_not_marker[THEN not_sym]

lemma pad_left_no_dot: "CHR ''.'' \<notin> set (pad_left w (dec_digits b))"
  by (auto dest!: pad_left_chars) (metis digit_char_neq(2))

lemma pad_left_not_Nil: "pad_left w (dec_digits b) \<noteq> []"
  by (simp add: pad_left_def)

lemma split_ext_pad:
  assumes "CHR ''.'' \<notin> set ext"
  shows "split_ext (pad_left w (dec_digits b) @ CHR ''.'' # ext) = (pad_left w (dec_digits b), Some ext)"
  using pad_left_no_dot[of w b] pad_left_not_Nil[of w b]
  by (intro split_ext_simple assms) auto

lemma segment_base_of_log [simp]: "b \<le> u64_max \<Longrightarrow> segment_base_of (segment_log_name b) = Some b"
  using split_ext_pad[of "''log''" 20 b] pad_left_no_dot[of 20 b] parse_u64_pad[of b 20]
  by (simp add: segment_base_of_def segment_log_name_def)

lemma segment_base_of_index [simp]: "segment_base_of (segment_index_name b) = None"
  using split_ext_pad[of "''index''" 20 b]
  by (simp add: segment_base_of_def segment_index_name_def)

lemma finish_compaction_none [simp]: "dir_get d COMPACTION_MARKER = None \<Longrightarrow> finish_compaction pm d = d"
  by (simp add: finish_compaction_def)

text \<open>A directory that holds nothing but the log of one segment.\<close>

lemma single_log_dir:
  assumes "b \<le> u64_max"
  shows "sweep_compaction_tmp (finish_compaction pm [(segment_log_name b, f)]) = [(segment_log_name b, f)]"
    "collect_segment_base_offsets [(segment_log_name b, f)] = [b]"
  using assms
  by (simp_all add: dir_get_def sweep_compaction_tmp_def collect_segment_base_offsets_def
      List.map_filter_simps)


section \<open>A record larger than the scan window\<close>

lemma scan_full_large:
  assumes "dir_get d (segment_log_name b) = Some (records_bytes crc (r # rs) @ tail)"
    and "wf_record r" "READ_WINDOW_BYTES < rec_size r"
  shows "sc_damaged (scan_full crc d b) \<and> sc_valid_bytes (scan_full crc d b) = 0 \<and>
     sc_entries (scan_full crc d b) = [] \<and> sc_next_offset (scan_full crc d b) = b \<and>
     \<not> sc_index_trusted (scan_full crc d b)"
proof -
  let ?f = "records_bytes crc (r # rs) @ tail"
  let ?c = "cursor_new 0 (length ?f) READ_WINDOW_BYTES"
  have "cursor_ok ?f ?c" "rest_of ?f ?c = encode_rec crc r @ (records_bytes crc rs @ tail)"
    by (rule cursor_ok_new) (simp_all add: rest_of_def)
  from next_record_exact[OF this assms(2)]
  have "fst (next_record crc ?f ?c) = Inl (Truncated 0)"
    using assms(3) by (simp add: READ_WINDOW_BYTES_def)
  then have "scan_loop crc ?f b ?c None (empty_scan b False) = (empty_scan b False)\<lparr>sc_damaged := True\<rparr>"
    by (subst scan_loop.simps) (auto split: prod.splits)
  then show ?thesis
    using assms(1) by (simp add: scan_full_def Let_def empty_scan_def)
qed

lemma recover_partition_large:
  fixes d0 parse_marker
  defines "d \<equiv> sweep_compaction_tmp (finish_compaction parse_marker d0)"
  assumes "collect_segment_base_offsets d = [b]"
    and "dir_get d (segment_log_name b) = Some (records_bytes crc (r # rs))"
    and "wf_record r" "READ_WINDOW_BYTES < rec_size r"
  shows "\<exists>p d'. recover_partition crc parse_marker d0 = Inr (p, d') \<and> rc_next_offset p = b \<and>
     dir_get d' (segment_log_name b) = Some []"
proof -
  note scan = scan_full_large[of d b crc r rs "[]"]
  show ?thesis
    using assms(2-) scan
    by (auto simp: recover_partition_def d_def[symmetric] Let_def recover_segment_def set_len_def
        appender_open_existing_def file_or_empty_def put_appender_files_def
        split: option.splits sum.splits)
qed


section \<open>Properties\<close>

text \<open>C14: recovery of a directory of segments. If every log is a run of records, the last one possibly
  followed by a torn write or garbage, recovery succeeds; each segment serves exactly its records;
  the next offset is the one after the last record; the torn tail is gone from the file and
  the appender agrees with the files it appends to. Two conditions: no record is larger than the
  256 KiB scan window, and an index file of a sealed segment, where there is one, is a right index
  of its log, since recovery trusts it.\<close>

theorem recovery_correct:
  fixes d0 parse_marker
  defines "d \<equiv> sweep_compaction_tmp (finish_compaction parse_marker d0)"
  assumes "sort (collect_segment_base_offsets d) = map fst ss" "ss \<noteq> []"
    and "chain_on_disk crc d tail ss" "chained ss" "list_all (\<lambda>s. fst s \<le> u64_max) ss"
    and "stops crc tail"
  shows "\<exists>p d'. recover_partition crc parse_marker d0 = Inr (p, d') \<and>
     list_all2 (recovers_to crc) (rc_segments p) ss \<and>
     rc_next_offset p = next_after (fst (last ss)) (snd (last ss)) \<and>
     appender_ok (rc_appender p) (last (rc_segments p)) \<and>
     sg_index (last (rc_segments p)) = sparse (fst (last ss)) None 0 (snd (last ss)) \<and>
     ap_log (rc_appender p) = records_bytes crc (snd (last ss)) \<and>
     dir_get d' (segment_log_name (fst (last ss))) = Some (records_bytes crc (snd (last ss)))"
  using recover_partition_ok[OF assms(2-)[unfolded d_def]] .

definition sample_rec5 :: es_record where
  "sample_rec5 = \<lparr>r_offset = 5, r_timestamp_ms = 0, r_key = None, r_value = [1, 2]\<rparr>"

lemma sample_rec5_ok: "fits_scan [sample_rec5]" "offsets_ok 5 [sample_rec5]" "rec_size sample_rec5 = 34"
  by (simp_all add: fits_scan_def offsets_ok_def sample_rec5_def wf_record_def rec_size_eq
      key_bytes_len_def record_consts READ_WINDOW_BYTES_def)

theorem recovery_correct_witness:
  "\<exists>p d'. recover_partition (\<lambda>_. 3) (\<lambda>_. None)
       [(segment_log_name 5, encode_rec (\<lambda>_. 3) sample_rec5 @ [0, 0])] = Inr (p, d') \<and>
     rc_next_offset p = 6 \<and> ap_log (rc_appender p) = encode_rec (\<lambda>_. 3) sample_rec5"
proof -
  let ?crc = "\<lambda>_ :: u8 list. 3 :: 32 word" and ?pm = "\<lambda>_ :: u8 list. None :: compaction_marker option"
  let ?d = "[(segment_log_name 5, encode_rec ?crc sample_rec5 @ [0, 0])]"
  have d: "sweep_compaction_tmp (finish_compaction ?pm ?d) = ?d"
    "collect_segment_base_offsets ?d = [5]"
    by (rule single_log_dir; simp)+
  have t: "stops ?crc [0, 0]"
    by (simp add: stops_def decode_record_def record_consts)
  have "chain_on_disk ?crc ?d [0, 0] [(5, [sample_rec5])]"
    using sample_rec5_ok by (simp add: seg_on_disk_def dir_get_def)
  from recovery_correct[of ?pm ?d "[(5, [sample_rec5])]" ?crc "[0, 0]", unfolded d, OF _ _ this _ _ t]
  show ?thesis by (auto simp: chained_def next_after_def sample_rec5_def)
qed

text \<open>C18: loss of data at recovery. The scan takes a record that does not fit its 256 KiB window for a torn
  tail, although a larger record is accepted and acknowledged. If the
  first record of the only segment is that large, a restart cuts the intact log to nothing, all
  records behind it included, and hands its offsets out again.\<close>

theorem recovery_drops_large_record:
  fixes d0 parse_marker
  defines "d \<equiv> sweep_compaction_tmp (finish_compaction parse_marker d0)"
  assumes "collect_segment_base_offsets d = [b]"
    and "dir_get d (segment_log_name b) = Some (records_bytes crc (r # rs))"
    and "wf_record r" "READ_WINDOW_BYTES < rec_size r"
  shows "\<exists>p d'. recover_partition crc parse_marker d0 = Inr (p, d') \<and> rc_next_offset p = b \<and>
     dir_get d' (segment_log_name b) = Some []"
  using recover_partition_large[OF assms(2-)[unfolded d_def]] .

theorem recovery_drops_large_record_witness:
  "\<exists>p d'. recover_partition (\<lambda>_. 3) (\<lambda>_. None)
       [(segment_log_name 0, encode_rec (\<lambda>_. 3)
           \<lparr>r_offset = 0, r_timestamp_ms = 0, r_key = None, r_value = replicate 300000 7\<rparr>)] = Inr (p, d') \<and>
     rc_next_offset p = 0 \<and> dir_get d' (segment_log_name 0) = Some []"
proof -
  let ?crc = "\<lambda>_ :: u8 list. 3 :: 32 word" and ?pm = "\<lambda>_ :: u8 list. None :: compaction_marker option"
  let ?r = "\<lparr>r_offset = 0, r_timestamp_ms = 0, r_key = None, r_value = replicate 300000 7\<rparr> :: es_record"
  let ?d = "[(segment_log_name 0, encode_rec ?crc ?r)]"
  have d: "sweep_compaction_tmp (finish_compaction ?pm ?d) = ?d"
    "collect_segment_base_offsets ?d = [0]"
    by (rule single_log_dir; simp)+
  have sz: "rec_size ?r = 300032" by (simp add: rec_size_eq key_bytes_len_def)
  have "wf_record ?r" "READ_WINDOW_BYTES < rec_size ?r"
    unfolding wf_record_def sz by (simp_all add: record_consts READ_WINDOW_BYTES_def)
  from recovery_drops_large_record[of ?pm ?d 0 ?crc ?r "[]", unfolded d, OF _ _ this]
  show ?thesis by (simp add: dir_get_def)
qed

text \<open>The name of a log file determines its base offset: listing a directory finds the segment that
  was created under that name, takes no index file for a segment, and no two segments share a
  file.\<close>

theorem segment_names_roundtrip:
  assumes "a \<le> u64_max" "b \<le> u64_max"
  shows "segment_base_of (segment_log_name a) = Some a \<and> segment_base_of (segment_index_name a) = None \<and>
     (segment_log_name a = segment_log_name b \<longleftrightarrow> a = b) \<and> segment_log_name a \<noteq> segment_index_name b"
  using assms segment_names_inj[OF assms] by auto

theorem segment_names_roundtrip_witness:
  "segment_base_of (segment_log_name 4711) = Some 4711 \<and> segment_log_name 4711 \<noteq> segment_log_name 4712"
  using segment_names_roundtrip[of 4711 4712] by simp

end
