(* ===== verification/Partition_Log.thy ===== *)
theory Partition_Log
  imports Storage_Recover "HOL-Library.Sublist"
begin

text \<open>
  The partition of \<open>es-broker/src/partition.rs\<close>: an append-only log over segments, with group
  commit, fencing after an I/O failure it cannot undo, bounded reads across segments, and the
  removal of sealed segments.

  The state is one record. The appender lock makes every append one atomic step, so an append is a
  function on the state; the \<open>fsync\<close> that follows runs under its own lock and is a second
  function, \<open>sync_upto\<close>. Faults are inputs: three lists give the outcome of the coming batch
  writes, rolls and fsyncs, and an exhausted list means that the call succeeds. A pair of file
  handles is identified by the base offset of its segment. \<open>pt_durable\<close> is the disk's side of
  \<open>fsync\<close>, the number of log bytes of each segment on stable storage; \<open>pt_lost\<close> are the handles on
  which an fsync has failed, whose dirty pages the kernel may have dropped, so that a later fsync
  that reports success makes nothing more durable; \<open>pt_stray\<close> are the bases of segment files that a
  roll created and then did not come to use; \<open>pt_issued\<close> is a history of the write marks with the
  log size each write left. No operation of the code reads these four.

  Offsets and sizes are natural numbers. The code keeps offsets in \<open>u64\<close>; the model differs only
  behind a record at offset 2^64 - 1, where \<open>offset + 1\<close> wraps. The fence is checked before the
  appender lock is taken; here the check and the locked part of an append are one step.
\<close>

section \<open>State\<close>

record append_record =
  ar_key :: "u8 list option"
  ar_value :: "u8 list"
  ar_timestamp_ms :: "int option"
  ar_offset :: "nat option"

datatype durability = Policy | Deferred

datatype append_error = Fenced | WriteFailed | RollFailed | SyncFailed

datatype roll_outcome = RollOk | RollSyncFails | RollCreateFails | RollLeavesFiles

record write_mark =
  wm_seq :: nat
  wm_handle :: nat

record partition =
  pt_segment_bytes :: nat
  pt_next_offset :: nat
  pt_start_offset :: nat
  pt_segments :: "segment list"
  pt_appender :: appender
  pt_flush_every_records :: nat
  pt_unsynced :: nat
  pt_write_seq :: nat
  pt_latest :: write_mark
  pt_synced :: nat
  pt_poisoned :: bool
  pt_writes :: "io_outcome list"
  pt_rolls :: "roll_outcome list"
  pt_syncs :: "bool list"
  pt_durable :: "nat \<Rightarrow> nat"
  pt_lost :: "nat set"
  pt_stray :: "nat list"
  pt_issued :: "(nat \<times> nat \<times> nat) list"

record pending_batch =
  pb_log :: "u8 list"
  pb_index :: "u8 list"
  pb_entries :: entries
  pb_last_index_pos :: "nat option"
  pb_min_ts :: int
  pb_max_ts :: int
  pb_next :: nat
  pb_count :: nat

definition empty_batch :: pending_batch where
  "empty_batch =
     \<lparr>pb_log = [], pb_index = [], pb_entries = [], pb_last_index_pos = None, pb_min_ts = i64_max,
      pb_max_ts = i64_min, pb_next = 0, pb_count = 0\<rparr>"

definition pop :: "'a \<Rightarrow> 'a list \<Rightarrow> 'a \<times> 'a list" where
  "pop dflt xs = (case xs of [] \<Rightarrow> (dflt, []) | x # xs' \<Rightarrow> (x, xs'))"

definition io_fine :: io_outcome where
  "io_fine = \<lparr>io_write = WriteOk, io_cut_log = True, io_cut_index = True\<rparr>"


section \<open>Opening\<close>

definition partition_open ::
    "(u8 list \<Rightarrow> 32 word) \<Rightarrow> (u8 list \<Rightarrow> compaction_marker option) \<Rightarrow> dir \<Rightarrow> nat \<Rightarrow> nat \<Rightarrow>
     io_error + partition \<times> dir" where
  "partition_open crc parse_marker d segment_bytes flush_every_records =
     (case recover_partition crc parse_marker d of
        Inl e \<Rightarrow> Inl e
      | Inr (recovered, d') \<Rightarrow>
          Inr (\<lparr>pt_segment_bytes = segment_bytes, pt_next_offset = rc_next_offset recovered,
                pt_start_offset =
                  (case rc_segments recovered of [] \<Rightarrow> 0 | s # _ \<Rightarrow> sg_base_offset s),
                pt_segments = rc_segments recovered, pt_appender = rc_appender recovered,
                pt_flush_every_records = max flush_every_records 1, pt_unsynced = 0, pt_write_seq = 0,
                pt_latest = \<lparr>wm_seq = 0, wm_handle = ap_base_offset (rc_appender recovered)\<rparr>,
                pt_synced = 0, pt_poisoned = False, pt_writes = [], pt_rolls = [], pt_syncs = [],
                pt_durable = (\<lambda>_. 0), pt_lost = {}, pt_stray = [], pt_issued = []\<rparr>, d'))"


section \<open>Appending\<close>

definition update_last :: "('a \<Rightarrow> 'a) \<Rightarrow> 'a list \<Rightarrow> 'a list" where
  "update_last f xs = (if xs = [] then [] else butlast xs @ [f (last xs)])"

text \<open>A write through the appender shows through the read handle of the active segment: both are the
  same file.\<close>

definition set_appender :: "appender \<Rightarrow> partition \<Rightarrow> partition" where
  "set_appender a p =
     p\<lparr>pt_appender := a, pt_segments := update_last (\<lambda>s. s\<lparr>sg_file := ap_log a\<rparr>) (pt_segments p)\<rparr>"

definition publish :: "pending_batch \<Rightarrow> nat \<Rightarrow> segment \<Rightarrow> segment" where
  "publish b sz s =
     (let s1 = s\<lparr>sg_size_bytes := sz,
                 sg_index := foldl (\<lambda>ix (rel, pos). index_push ix rel pos) (sg_index s) (pb_entries b)\<rparr>
      in if pb_min_ts b \<noteq> i64_max
         then observe_timestamp (pb_max_ts b) (observe_timestamp (pb_min_ts b) s1) else s1)"

definition commit_batch :: "pending_batch \<Rightarrow> partition \<Rightarrow> (append_error + unit) \<times> partition" where
  "commit_batch b p =
     (if pb_count b = 0 then (Inr (), p)
      else
        let (io, ios) = pop io_fine (pt_writes p);
            (res, app) = write_batch io (pb_log b) (pb_index b) (pt_appender p);
            p1 = set_appender app (p\<lparr>pt_writes := ios\<rparr>)
        in case res of
             Inl rolled_back \<Rightarrow>
               (Inl WriteFailed, if rolled_back then p1 else p1\<lparr>pt_poisoned := True\<rparr>)
           | Inr _ \<Rightarrow>
               let app' = (if pb_last_index_pos b \<noteq> None
                           then app\<lparr>ap_last_index_pos := pb_last_index_pos b\<rparr> else app);
                   sq = pt_write_seq p + 1
               in (Inr (), p1\<lparr>pt_appender := app',
                     pt_segments := update_last (publish b (ap_size_bytes app')) (pt_segments p1),
                     pt_next_offset := pb_next b,
                     pt_write_seq := sq,
                     pt_latest := \<lparr>wm_seq = sq, wm_handle = ap_base_offset app'\<rparr>,
                     pt_unsynced := (pt_unsynced p + pb_count b) mod 2 ^ 32,
                     pt_issued := (sq, ap_base_offset app', length (ap_log app')) # pt_issued p\<rparr>))"

text \<open>\<open>sync_data\<close> on the log of the segment with base \<open>h\<close>: everything written to it is durable, unless
  an fsync on it has failed before.\<close>

definition file_length :: "partition \<Rightarrow> nat \<Rightarrow> nat" where
  "file_length p h =
     (case filter (\<lambda>s. sg_base_offset s = h) (pt_segments p) of
        [] \<Rightarrow> pt_durable p h
      | s # _ \<Rightarrow> length (sg_file s))"

definition fsync :: "nat \<Rightarrow> partition \<Rightarrow> partition" where
  "fsync h p = (if h \<in> pt_lost p then p else p\<lparr>pt_durable := (pt_durable p)(h := file_length p h)\<rparr>)"

definition fsync_fails :: "nat \<Rightarrow> partition \<Rightarrow> partition" where
  "fsync_fails h p = p\<lparr>pt_lost := insert h (pt_lost p), pt_poisoned := True\<rparr>"

text \<open>The new segment starts on files that do not exist yet, or that an earlier roll left empty. A roll
  may fail before it has created them or after.\<close>

definition roll :: "nat \<Rightarrow> partition \<Rightarrow> (append_error + unit) \<times> partition" where
  "roll new_base p =
     (let (out, rest) = pop RollOk (pt_rolls p);
          p0 = p\<lparr>pt_rolls := rest\<rparr>
      in case out of
           RollSyncFails \<Rightarrow> (Inl RollFailed, fsync_fails (ap_base_offset (pt_appender p)) p0)
         | RollCreateFails \<Rightarrow> (Inl RollFailed, fsync (ap_base_offset (pt_appender p)) p0)
         | RollLeavesFiles \<Rightarrow>
             (Inl RollFailed, (fsync (ap_base_offset (pt_appender p)) p0)\<lparr>pt_stray := new_base # pt_stray p\<rparr>)
         | RollOk \<Rightarrow>
             let p1 = fsync (ap_base_offset (pt_appender p)) p0
             in (Inr (), p1\<lparr>pt_appender := appender_create new_base [] [],
                            pt_segments := pt_segments p1 @ [segment_open_empty new_base []]\<rparr>))"

definition add_record :: "nat \<Rightarrow> int \<Rightarrow> append_record \<Rightarrow> (u8 list \<Rightarrow> 32 word) \<Rightarrow> appender \<Rightarrow> pending_batch \<Rightarrow> pending_batch" where
  "add_record offset ts r crc app b =
     (let file_pos = ap_size_bytes app + length (pb_log b);
          lst = (case pb_last_index_pos b of Some p \<Rightarrow> Some p | None \<Rightarrow> ap_last_index_pos app);
          wants_entry = index_wants lst file_pos;
          rel = offset - ap_base_offset app
      in b\<lparr>pb_log := pb_log b @ encode_record crc offset ts (ar_key r) (ar_value r),
           pb_index := pb_index b @ (if wants_entry then encode_index_entry rel file_pos else []),
           pb_entries := pb_entries b @ (if wants_entry then [(rel, file_pos)] else []),
           pb_last_index_pos := (if wants_entry then Some file_pos else pb_last_index_pos b),
           pb_min_ts := min (pb_min_ts b) ts,
           pb_max_ts := max (pb_max_ts b) ts,
           pb_next := offset + 1,
           pb_count := pb_count b + 1\<rparr>)"

text \<open>One record with its offset: roll first if it does not fit the active segment.\<close>

definition place_record ::
    "(u8 list \<Rightarrow> 32 word) \<Rightarrow> int \<Rightarrow> append_record \<Rightarrow> nat \<Rightarrow> pending_batch \<Rightarrow> partition \<Rightarrow>
     (append_error + pending_batch) \<times> partition" where
  "place_record crc now r offset b p =
     (let need = record_disk_size (map_option length (ar_key r)) (length (ar_value r));
          pending = ap_size_bytes (pt_appender p) + length (pb_log b);
          ts = (case ar_timestamp_ms r of Some t \<Rightarrow> t | None \<Rightarrow> now)
      in if pending > 0 \<and> pending + need > pt_segment_bytes p then
           (case commit_batch b p of
              (Inl e, p1) \<Rightarrow> (Inl e, p1)
            | (Inr _, p1) \<Rightarrow>
                (case roll offset p1 of
                   (Inl e, p2) \<Rightarrow> (Inl e, p2)
                 | (Inr _, p2) \<Rightarrow>
                     (Inr (add_record offset ts r crc (pt_appender p2) empty_batch), p2)))
         else (Inr (add_record offset ts r crc (pt_appender p) b), p))"

text \<open>The loop over the records, under the appender lock. An explicit offset below the end is taken as
  already applied.\<close>

fun append_loop ::
    "(u8 list \<Rightarrow> 32 word) \<Rightarrow> int \<Rightarrow> append_record list \<Rightarrow> nat \<Rightarrow> pending_batch \<Rightarrow> nat list \<Rightarrow> nat \<Rightarrow> partition \<Rightarrow>
     (append_error + nat list \<times> pending_batch \<times> nat) \<times> partition" where
  "append_loop crc now [] nxt b offsets fresh p = (Inr (offsets, b, fresh), p)"
| "append_loop crc now (r # rs) nxt b offsets fresh p =
     (let offset = (case ar_offset r of Some o' \<Rightarrow> o' | None \<Rightarrow> nxt)
      in if offset < nxt then append_loop crc now rs nxt b (offsets @ [offset]) fresh p
         else
           (case place_record crc now r offset b p of
              (Inl e, p') \<Rightarrow> (Inl e, p')
            | (Inr b', p') \<Rightarrow>
                append_loop crc now rs (offset + 1) b' (offsets @ [offset]) (fresh + 1) p'))"

definition sync_upto :: "nat \<Rightarrow> nat \<Rightarrow> partition \<Rightarrow> (append_error + unit) \<times> partition" where
  "sync_upto sq h p =
     (if pt_synced p \<ge> sq then (Inr (), p)
      else
        let mark = pt_latest p;
            target = (if wm_handle mark = h then wm_seq mark else sq);
            (ok, rest) = pop True (pt_syncs p);
            p1 = p\<lparr>pt_unsynced := 0, pt_syncs := rest\<rparr>
        in if \<not> ok then (Inl SyncFailed, fsync_fails h p1)
           else (Inr (), (fsync h p1)\<lparr>pt_synced := max (pt_synced p) target\<rparr>))"

text \<open>The part of \<open>append_batch\<close> under the appender lock.\<close>

definition append_locked ::
    "(u8 list \<Rightarrow> 32 word) \<Rightarrow> int \<Rightarrow> append_record list \<Rightarrow> partition \<Rightarrow>
     (append_error + nat list \<times> nat) \<times> partition" where
  "append_locked crc now records p =
     (case append_loop crc now records (pt_next_offset p) empty_batch [] 0 p of
        (Inl e, p1) \<Rightarrow> (Inl e, p1)
      | (Inr (offsets, b, fresh), p1) \<Rightarrow>
          (case commit_batch b p1 of
             (Inl e, p2) \<Rightarrow> (Inl e, p2)
           | (Inr _, p2) \<Rightarrow> (Inr (offsets, fresh), p2)))"

definition append_batch ::
    "(u8 list \<Rightarrow> 32 word) \<Rightarrow> int \<Rightarrow> append_record list \<Rightarrow> durability \<Rightarrow> partition \<Rightarrow>
     (append_error + nat list) \<times> partition" where
  "append_batch crc now records dur p =
     (if pt_poisoned p then (Inl Fenced, p)
      else
        (case append_locked crc now records p of
           (Inl e, p1) \<Rightarrow> (Inl e, p1)
         | (Inr (offsets, fresh), p1) \<Rightarrow>
             let mark = pt_latest p1; threshold = max (pt_flush_every_records p1) 1
             in if dur = Policy \<and> fresh > 0 \<and> (threshold = 1 \<or> pt_unsynced p1 \<ge> threshold)
                then (case sync_upto (wm_seq mark) (wm_handle mark) p1 of
                        (Inl e, p2) \<Rightarrow> (Inl e, p2)
                      | (Inr _, p2) \<Rightarrow> (Inr offsets, p2))
                else (Inr offsets, p1)))"

definition sync_all :: "partition \<Rightarrow> (append_error + unit) \<times> partition" where
  "sync_all p = sync_upto (max (wm_seq (pt_latest p)) 1) (wm_handle (pt_latest p)) p"

definition sync_pending :: "partition \<Rightarrow> (append_error + unit) \<times> partition" where
  "sync_pending p = (if pt_unsynced p = 0 then (Inr (), p) else sync_all p)"

definition advance_to :: "nat \<Rightarrow> partition \<Rightarrow> partition" where
  "advance_to offset p = p\<lparr>pt_next_offset := max (pt_next_offset p) offset\<rparr>"


section \<open>Reading\<close>

text \<open>\<open>slice::partition_point\<close> on segments in base order.\<close>

definition segment_index_for :: "segment list \<Rightarrow> nat \<Rightarrow> nat" where
  "segment_index_for segs target_offset =
     length (takeWhile (\<lambda>s. sg_base_offset s \<le> target_offset) segs) - 1"

text \<open>The walk across segments, over the segments from the current one on.\<close>

fun read_walk ::
    "(u8 list \<Rightarrow> 32 word) \<Rightarrow> nat \<Rightarrow> nat \<Rightarrow> nat \<Rightarrow> nat \<Rightarrow> segment list \<Rightarrow> nat \<Rightarrow> es_record list \<times> nat" where
  "read_walk crc target max_records max_bytes hwm [] effective_next = ([], effective_next)"
| "read_walk crc target max_records max_bytes hwm (s # ss) effective_next =
     (let records = read_from crc s target max_records max_bytes hwm
      in if records = [] then
           read_walk crc target max_records max_bytes hwm ss
             (case ss of
                s' # _ \<Rightarrow> max (sg_base_offset s') effective_next
              | [] \<Rightarrow> max effective_next hwm)
         else (records, effective_next))"

definition read_records_raw ::
    "(u8 list \<Rightarrow> 32 word) \<Rightarrow> partition \<Rightarrow> nat \<Rightarrow> nat \<Rightarrow> nat \<Rightarrow> es_record list \<times> nat \<times> nat" where
  "read_records_raw crc p target_offset max_records max_bytes =
     (let hwm = pt_next_offset p
      in if target_offset \<ge> hwm \<or> max_records = 0 then ([], target_offset, hwm)
         else
           let target = max target_offset (pt_start_offset p);
               (out, effective_next) =
                 read_walk crc target max_records max_bytes hwm
                   (drop (segment_index_for (pt_segments p) target) (pt_segments p)) target
           in (out, if out = [] then effective_next else r_offset (last out) + 1, hwm))"


section \<open>Dropping sealed segments\<close>

definition unlink_plan :: "nat list \<Rightarrow> partition \<Rightarrow> nat list \<times> partition" where
  "unlink_plan victim_bases p =
     (let cur = pt_segments p
      in if length cur \<le> 1 then ([], p)
         else
           let active_base = sg_base_offset (last cur);
               victims = set (filter (\<lambda>b. b < active_base) victim_bases)
           in if victims = {} then ([], p)
              else
                let new_vec = filter (\<lambda>s. sg_base_offset s \<notin> victims) cur
                in (map sg_base_offset (filter (\<lambda>s. sg_base_offset s \<in> victims) cur),
                    p\<lparr>pt_segments := new_vec,
                      pt_start_offset :=
                        (case new_vec of [] \<Rightarrow> active_base | s # _ \<Rightarrow> sg_base_offset s)\<rparr>))"

text \<open>Unlinking the files after the grace period, when the shutdown does not come first.\<close>

definition drop_sealed_segments :: "bool \<Rightarrow> nat list \<Rightarrow> partition \<times> dir \<Rightarrow> nat \<times> partition \<times> dir" where
  "drop_sealed_segments cancelled victim_bases pd =
     (let (p, d) = pd; (bases, p') = unlink_plan victim_bases p
      in if bases = [] \<or> cancelled then (0, p', d)
         else (sum_list (map (\<lambda>b. length (file_or_empty d (segment_log_name b))) bases), p',
               fold remove_segment_files bases d))"


section \<open>The invariant\<close>

text \<open>
  The partition holds the segments \<open>ss\<close>: pairs of a base offset and the records under it. The
  records of all of them, in order, are its contents.
\<close>

definition contents :: "(nat \<times> es_record list) list \<Rightarrow> es_record list" where
  "contents ss = concat (map snd ss)"

definition part_core :: "(u8 list \<Rightarrow> 32 word) \<Rightarrow> partition \<Rightarrow> (nat \<times> es_record list) list \<Rightarrow> bool" where
  "part_core crc p ss \<longleftrightarrow>
     ss \<noteq> [] \<and> list_all2 (recovers_to crc) (pt_segments p) ss \<and> chained ss \<and>
     list_all (\<lambda>r. r_offset r < pt_next_offset p) (contents ss) \<and>
     pt_start_offset p = fst (hd ss) \<and>
     sg_file (last (pt_segments p)) = ap_log (pt_appender p) \<and>
     ap_base_offset (pt_appender p) = fst (last ss) \<and>
     (pt_poisoned p \<or>
      appender_ok (pt_appender p) (last (pt_segments p)) \<and>
      sg_index (last (pt_segments p)) = sparse (fst (last ss)) None 0 (snd (last ss)))"

definition part_inv :: "(u8 list \<Rightarrow> 32 word) \<Rightarrow> partition \<Rightarrow> (nat \<times> es_record list) list \<Rightarrow> bool" where
  "part_inv crc p ss \<longleftrightarrow>
     part_core crc p ss \<and> next_after (fst (last ss)) (snd (last ss)) \<le> pt_next_offset p"

text \<open>What an append is meant to do: the offsets it answers and the records it adds.\<close>

fun assign :: "int \<Rightarrow> nat \<Rightarrow> append_record list \<Rightarrow> nat list \<times> es_record list" where
  "assign now nxt [] = ([], [])"
| "assign now nxt (r # rs) =
     (let offset = (case ar_offset r of Some o' \<Rightarrow> o' | None \<Rightarrow> nxt)
      in if offset < nxt then map_prod ((#) offset) id (assign now nxt rs)
         else map_prod ((#) offset)
                ((#) \<lparr>r_offset = offset,
                      r_timestamp_ms = (case ar_timestamp_ms r of Some t \<Rightarrow> t | None \<Rightarrow> now),
                      r_key = ar_key r, r_value = ar_value r\<rparr>)
                (assign now (offset + 1) rs))"

definition extend_last :: "(nat \<times> es_record list) list \<Rightarrow> es_record list \<Rightarrow> (nat \<times> es_record list) list" where
  "extend_last ss brs = butlast ss @ [(fst (last ss), snd (last ss) @ brs)]"

lemma extend_last_Nil [simp]: "ss \<noteq> [] \<Longrightarrow> extend_last ss [] = ss"
  by (simp add: extend_last_def)

lemma extend_last_simps [simp]:
  "last (extend_last ss brs) = (fst (last ss), snd (last ss) @ brs)" "extend_last ss brs \<noteq> []"
  by (simp_all add: extend_last_def)

lemma hd_extend_last: "ss \<noteq> [] \<Longrightarrow> fst (hd (extend_last ss brs)) = fst (hd ss)"
  by (cases ss rule: rev_cases) (auto simp: extend_last_def hd_append)

lemma contents_extend: "ss \<noteq> [] \<Longrightarrow> contents (extend_last ss brs) = contents ss @ brs"
  by (cases ss rule: rev_cases) (auto simp: extend_last_def contents_def)

lemma chained_extend: "chained ss \<Longrightarrow> ss \<noteq> [] \<Longrightarrow> chained (extend_last ss brs)"
  by (cases ss rule: rev_cases) (auto simp: extend_last_def chained_def sorted_wrt_append)

lemma chained_snoc:
  assumes "chained ss" "ss \<noteq> []" "fst (last ss) < b" "next_after (fst (last ss)) (snd (last ss)) \<le> b"
  shows "chained (ss @ [(b, rs)])"
  using assms
  by (cases ss rule: rev_cases) (fastforce simp: chained_def sorted_wrt_append)+

lemma update_last_snoc [simp]: "update_last f (xs @ [x]) = xs @ [f x]"
  by (simp add: update_last_def)

lemma list_all2_snoc_cases:
  assumes "list_all2 P xs ys" "ys \<noteq> []"
  obtains xs' x ys' y where "xs = xs' @ [x]" "ys = ys' @ [y]" "list_all2 P xs' ys'" "P x y"
  using assms by (cases ys rule: rev_cases) (auto simp: list_all2_append2 list_all2_Cons2)

text \<open>A pending batch that stands for the records \<open>brs\<close>, to go behind \<open>rs\<close> in the active segment.\<close>

definition last_pos :: "nat option \<Rightarrow> entries \<Rightarrow> nat option" where
  "last_pos l es = (if es = [] then l else Some (snd (last es)))"

lemma sparse_append:
  "sparse base l pos (xs @ ys) =
     sparse base l pos xs @ sparse base (last_pos l (sparse base l pos xs)) (pos + total_size xs) ys"
  by (induction xs arbitrary: l pos) (auto simp: last_pos_def add.assoc)

definition batch_inv ::
    "(u8 list \<Rightarrow> 32 word) \<Rightarrow> appender \<Rightarrow> es_record list \<Rightarrow> pending_batch \<Rightarrow> es_record list \<Rightarrow> bool" where
  "batch_inv crc app rs b brs \<longleftrightarrow>
     pb_log b = records_bytes crc brs \<and>
     pb_entries b = sparse (ap_base_offset app) (ap_last_index_pos app) (total_size rs) brs \<and>
     pb_index b = index_bytes (pb_entries b) \<and> pb_last_index_pos b = last_pos None (pb_entries b) \<and>
     pb_count b = length brs \<and> (brs \<noteq> [] \<longrightarrow> pb_next b = r_offset (last brs) + 1) \<and>
     list_all wf_record brs \<and> offsets_ok (ap_base_offset app) (rs @ brs)"

lemma batch_inv_empty: "offsets_ok (ap_base_offset app) rs \<Longrightarrow> batch_inv crc app rs empty_batch []"
  by (simp add: batch_inv_def empty_batch_def index_bytes_def last_pos_def)

lemma offsets_ok_snoc:
  assumes "offsets_ok b rs" "next_after b rs \<le> r_offset r"
  shows "offsets_ok b (rs @ [r])"
proof -
  have "r_offset x < r_offset r" if "x \<in> set rs" for x
  proof -
    have "r_offset x \<le> r_offset (last rs)"
      using assms(1) that
      by (cases rs rule: rev_cases) (auto simp: offsets_ok_def sorted_wrt_append intro: less_imp_le)
    then show ?thesis using assms(2) \<open>x \<in> set rs\<close> by (auto simp: next_after_def split: if_splits)
  qed
  then show ?thesis
    using assms next_after_ge[OF assms(1)] by (auto simp: offsets_ok_def sorted_wrt_append)
qed

lemma batch_inv_add:
  assumes b: "batch_inv crc app rs b brs" and sz: "ap_size_bytes app = total_size rs"
    and r: "r = \<lparr>r_offset = offset, r_timestamp_ms = ts, r_key = ar_key a, r_value = ar_value a\<rparr>"
    and wf: "wf_record r" and nxt: "next_after (ap_base_offset app) (rs @ brs) \<le> offset"
  shows "batch_inv crc app rs (add_record offset ts a crc app b) (brs @ [r])"
proof -
  let ?base = "ap_base_offset app" and ?l = "ap_last_index_pos app"
  let ?pos = "total_size rs + total_size brs"
  have lst: "(case pb_last_index_pos b of Some p \<Rightarrow> Some p | None \<Rightarrow> ?l) = last_pos ?l (pb_entries b)"
    using b by (auto simp: batch_inv_def last_pos_def)
  have enc: "encode_record crc offset ts (ar_key a) (ar_value a) = encode_rec crc r"
    by (simp add: encode_rec_def r)
  have off: "offsets_ok ?base (rs @ brs @ [r])"
    using offsets_ok_snoc[of ?base "rs @ brs" r] b nxt by (simp add: batch_inv_def r)
  have ent: "sparse ?base ?l (total_size rs) (brs @ [r]) =
      pb_entries b @ (if index_wants (last_pos ?l (pb_entries b)) ?pos then [(offset - ?base, ?pos)] else [])"
    using b by (simp add: sparse_append batch_inv_def r)
  show ?thesis
    using b sz wf off
    unfolding batch_inv_def add_record_def Let_def lst enc ent
    by (auto simp: r last_pos_def index_bytes_append) (simp_all add: index_bytes_def)
qed


section \<open>Committing and rolling\<close>

lemma foldl_index_push: "foldl (\<lambda>ix (rel, pos). index_push ix rel pos) ix es = ix @ es"
  by (induction es arbitrary: ix) (auto simp: index_push_def)

lemma publish_fields [simp]:
  "sg_base_offset (publish b sz s) = sg_base_offset s" "sg_file (publish b sz s) = sg_file s"
  "sg_size_bytes (publish b sz s) = sz" "sg_index (publish b sz s) = sg_index s @ pb_entries b"
  by (simp_all add: publish_def observe_timestamp_def foldl_index_push Let_def)

lemma active_log:
  assumes "recovers_to crc s (base, rs)" "appender_ok app s"
  shows "ap_log app = records_bytes crc rs" "ap_size_bytes app = total_size rs"
  using assms by (auto simp: recovers_to_def appender_ok_def segment_holds_def)

text \<open>The active segment after a successful batch.\<close>

lemma active_extend:
  assumes rec: "recovers_to crc s (base, rs)" and app: "appender_ok app s"
    and ix: "sg_index s = sparse base None 0 rs" and b: "batch_inv crc app rs b brs"
    and app': "app' = app\<lparr>ap_log := ap_log app @ pb_log b, ap_idx := ap_idx app @ pb_index b,
       ap_size_bytes := ap_size_bytes app + length (pb_log b),
       ap_index_len := ap_index_len app + length (pb_index b),
       ap_last_index_pos := (if pb_last_index_pos b \<noteq> None then pb_last_index_pos b
                             else ap_last_index_pos app)\<rparr>"
  shows "recovers_to crc (publish b (ap_size_bytes app') (s\<lparr>sg_file := ap_log app'\<rparr>)) (base, rs @ brs)"
    "appender_ok app' (publish b (ap_size_bytes app') (s\<lparr>sg_file := ap_log app'\<rparr>))"
    "sg_index s @ pb_entries b = sparse base None 0 (rs @ brs)"
proof -
  have base: "ap_base_offset app = base" "sg_base_offset s = base"
    using rec app by (simp_all add: recovers_to_def appender_ok_def)
  have lp: "ap_last_index_pos app = last_pos None (sparse base None 0 rs)"
    using app ix by (simp add: appender_ok_def last_pos_def)
  show ent: "sg_index s @ pb_entries b = sparse base None 0 (rs @ brs)"
    using b by (simp add: ix batch_inv_def base sparse_append lp)
  have off: "offsets_ok base (rs @ brs)" using b by (simp add: batch_inv_def base)
  have wf: "list_all wf_record (rs @ brs)"
    using b rec by (simp add: batch_inv_def recovers_to_def segment_holds_def)
  note L = active_log[OF rec app]
  have log: "pb_log b = records_bytes crc brs" using b by (simp add: batch_inv_def)
  show "recovers_to crc (publish b (ap_size_bytes app') (s\<lparr>sg_file := ap_log app'\<rparr>)) (base, rs @ brs)"
    using off wf index_ok_sparse[OF off]
    by (simp add: recovers_to_def segment_holds_def base app' L log ent)
  show "appender_ok app' (publish b (ap_size_bytes app') (s\<lparr>sg_file := ap_log app'\<rparr>))"
    using app b
    by (auto simp: appender_ok_def app' batch_inv_def index_bytes_append last_pos_def)
qed

lemma recovers_to_torn:
  assumes "recovers_to crc s x" "take (sg_size_bytes s) f = sg_file s" "sg_size_bytes s = length (sg_file s)"
  shows "recovers_to crc (s\<lparr>sg_file := f\<rparr>) x"
proof -
  have "sg_size_bytes s \<le> length f" using assms(2,3) by (metis length_take min.cobounded1)
  then show ?thesis
    using assms by (auto simp: recovers_to_def segment_holds_def)
qed

text \<open>Exchanging the active segment.\<close>

lemma part_core_active:
  assumes "part_core crc p ss" "pt_segments p = segs @ [s]" "ss = ss' @ [(base, rs)]"
    and "pt_segments p' = segs @ [s']" "recovers_to crc s' (base, rs @ brs)"
    and "sg_file s' = ap_log (pt_appender p')" "ap_base_offset (pt_appender p') = base"
    and "pt_start_offset p' = pt_start_offset p"
    and "list_all (\<lambda>r. r_offset r < pt_next_offset p') (contents ss @ brs)"
    and "pt_poisoned p' \<or> appender_ok (pt_appender p') s' \<and> sg_index s' = sparse base None 0 (rs @ brs)"
  shows "part_core crc p' (extend_last ss brs)"
proof -
  have "list_all2 (recovers_to crc) segs ss'"
    using assms(1-3) by (auto simp: part_core_def list_all2_append1 list_all2_append2 list_all2_Cons1)
  moreover have "chained (extend_last ss brs)" "fst (hd (extend_last ss brs)) = fst (hd ss)"
    "contents (extend_last ss brs) = contents ss @ brs"
    using assms(1,3) by (simp_all add: part_core_def chained_extend hd_extend_last contents_extend)
  moreover have "extend_last ss brs = ss' @ [(base, rs @ brs)]"
    by (simp add: extend_last_def assms(3))
  ultimately show ?thesis
    using assms by (auto simp: part_core_def list_all2_append list_all2_lengthD)
qed

lemma commit_batch_ok:
  assumes core: "part_core crc p ss" and np: "\<not> pt_poisoned p"
    and b: "batch_inv crc (pt_appender p) (snd (last ss)) b brs"
    and nx: "brs \<noteq> [] \<longrightarrow> pt_next_offset p \<le> pb_next b"
  shows "case commit_batch b p of
      (Inr _, p') \<Rightarrow> part_core crc p' (extend_last ss brs) \<and> \<not> pt_poisoned p' \<and>
         pt_next_offset p' = (if brs = [] then pt_next_offset p else pb_next b) \<and>
         pt_segment_bytes p' = pt_segment_bytes p
    | (Inl e, p') \<Rightarrow> part_core crc p' ss \<and> pt_next_offset p' = pt_next_offset p"
proof (cases "brs = []")
  case True
  then show ?thesis
    using b core np by (simp add: commit_batch_def batch_inv_def part_core_def)
next
  case False
  obtain segs s ss' x where d: "pt_segments p = segs @ [s]" "ss = ss' @ [x]"
    "list_all2 (recovers_to crc) segs ss'" "recovers_to crc s x"
    using core list_all2_snoc_cases unfolding part_core_def by metis
  obtain base rs where x: "x = (base, rs)" by (cases x)
  have app: "appender_ok (pt_appender p) s" and ix: "sg_index s = sparse base None 0 rs"
    and fl: "sg_file s = ap_log (pt_appender p)" and base: "ap_base_offset (pt_appender p) = base"
    using core np d by (auto simp: part_core_def x)
  obtain io ios where io: "pop io_fine (pt_writes p) = (io, ios)" by (cases "pop io_fine (pt_writes p)")
  obtain res app1 where w: "write_batch io (pb_log b) (pb_index b) (pt_appender p) = (res, app1)"
    by (cases "write_batch io (pb_log b) (pb_index b) (pt_appender p)")
  have cnt: "pb_count b \<noteq> 0" using b False by (simp add: batch_inv_def)
  have len: "ap_size_bytes (pt_appender p) = length (ap_log (pt_appender p))"
    "ap_index_len (pt_appender p) = length (ap_idx (pt_appender p))"
    "sg_size_bytes s = ap_size_bytes (pt_appender p)"
    using app by (simp_all add: appender_ok_def)
  note W = write_batch_cases[OF len(1,2), of io "pb_log b" "pb_index b", unfolded w]
  show ?thesis
  proof (cases res)
    case (Inl rolled)
    then have t: "take (sg_size_bytes s) (ap_log app1) = sg_file s" and r: "rolled \<longrightarrow> app1 = pt_appender p"
      using W len fl by auto
    have b1: "ap_base_offset app1 = base"
      using w base by (auto simp: write_batch_def Let_def split: write_outcome.splits)
    have "recovers_to crc (s\<lparr>sg_file := ap_log app1\<rparr>) (base, rs)"
      using recovers_to_torn[OF d(4) t] len fl by (simp add: x)
    then have rec1: "recovers_to crc (s\<lparr>sg_file := ap_log app1\<rparr>) (base, rs @ [])" by simp
    define p' where "p' = (if rolled then set_appender app1 (p\<lparr>pt_writes := ios\<rparr>)
        else (set_appender app1 (p\<lparr>pt_writes := ios\<rparr>))\<lparr>pt_poisoned := True\<rparr>)"
    have P: "pt_segments p' = segs @ [s\<lparr>sg_file := ap_log app1\<rparr>]" "pt_appender p' = app1"
      "pt_start_offset p' = pt_start_offset p" "pt_next_offset p' = pt_next_offset p"
      by (simp_all add: p'_def set_appender_def d(1))
    have ok: "pt_poisoned p' \<or> appender_ok (pt_appender p') (s\<lparr>sg_file := ap_log app1\<rparr>) \<and>
        sg_index (s\<lparr>sg_file := ap_log app1\<rparr>) = sparse base None 0 (rs @ [])"
      using r app ix fl by (cases rolled) (auto simp: p'_def set_appender_def appender_ok_def)
    have "list_all (\<lambda>r. r_offset r < pt_next_offset p') (contents ss @ [])"
      using core P by (simp add: part_core_def)
    from part_core_active[OF core d(1) d(2)[unfolded x] P(1) rec1 _ _ P(3) this ok]
    have "part_core crc p' ss" using b1 d(2) by (simp add: P)
    moreover have "commit_batch b p = (Inl WriteFailed, p')"
      using cnt by (simp add: commit_batch_def io w Inl p'_def Let_def)
    ultimately show ?thesis by (simp add: P)
  next
    case (Inr u)
    define app2 where "app2 = (if pb_last_index_pos b \<noteq> None
        then app1\<lparr>ap_last_index_pos := pb_last_index_pos b\<rparr> else app1)"
    have app2: "app2 = (pt_appender p)\<lparr>ap_log := ap_log (pt_appender p) @ pb_log b,
       ap_idx := ap_idx (pt_appender p) @ pb_index b,
       ap_size_bytes := ap_size_bytes (pt_appender p) + length (pb_log b),
       ap_index_len := ap_index_len (pt_appender p) + length (pb_index b),
       ap_last_index_pos := (if pb_last_index_pos b \<noteq> None then pb_last_index_pos b
                             else ap_last_index_pos (pt_appender p))\<rparr>"
      using w Inr by (auto simp: write_batch_def Let_def app2_def split: write_outcome.splits)
    have b': "batch_inv crc (pt_appender p) rs b brs" using b d x by simp
    note E = active_extend[OF d(4)[unfolded x] app ix b' app2]
    have nxt: "list_all (\<lambda>r. r_offset r < pb_next b) (contents ss @ brs)"
    proof -
      have "pb_next b = r_offset (last brs) + 1" "offsets_ok base (rs @ brs)"
        using b' False base by (simp_all add: batch_inv_def)
      then have "list_all (\<lambda>r. r_offset r < pb_next b) brs"
        by (cases brs rule: rev_cases)
          (auto simp: offsets_ok_def sorted_wrt_append list_all_iff less_Suc_eq)
      then show ?thesis
        using core nx False by (auto simp: part_core_def list_all_iff intro: less_le_trans)
    qed
    define s' where "s' = publish b (ap_size_bytes app2) (s\<lparr>sg_file := ap_log app2\<rparr>)"
    define p' where "p' = (set_appender app1 (p\<lparr>pt_writes := ios\<rparr>))\<lparr>pt_appender := app2,
        pt_segments := segs @ [s'], pt_next_offset := pb_next b, pt_write_seq := pt_write_seq p + 1,
        pt_latest := \<lparr>wm_seq = pt_write_seq p + 1, wm_handle = ap_base_offset app2\<rparr>,
        pt_unsynced := (pt_unsynced p + pb_count b) mod 2 ^ 32,
        pt_issued := (pt_write_seq p + 1, ap_base_offset app2, length (ap_log app2)) # pt_issued p\<rparr>"
    have "commit_batch b p = (Inr (), p')"
      using cnt d(1) by (simp add: commit_batch_def io w Inr p'_def Let_def set_appender_def s'_def app2_def)
    moreover have P: "pt_segments p' = segs @ [s']" "pt_appender p' = app2"
      "pt_start_offset p' = pt_start_offset p" "pt_next_offset p' = pb_next b"
      "pt_poisoned p' = pt_poisoned p" "pt_segment_bytes p' = pt_segment_bytes p"
      by (simp_all add: p'_def set_appender_def)
    moreover have "part_core crc p' (extend_last ss brs)"
    proof (rule part_core_active[OF core d(1) d(2)[unfolded x] P(1) _ _ _ P(3)])
      show "recovers_to crc s' (base, rs @ brs)" using E(1) by (simp only: s'_def)
      show "sg_file s' = ap_log (pt_appender p')" by (simp add: s'_def P)
      show "ap_base_offset (pt_appender p') = base" by (simp add: P app2 base)
      show "list_all (\<lambda>r. r_offset r < pt_next_offset p') (contents ss @ brs)" by (simp only: P nxt)
      show "pt_poisoned p' \<or>
          appender_ok (pt_appender p') s' \<and> sg_index s' = sparse base None 0 (rs @ brs)"
        using E(2,3) by (simp add: P s'_def)
    qed
    ultimately show ?thesis using np False by simp
  qed
qed

lemma fsync_fields [simp]:
  "pt_segments (fsync h p) = pt_segments p" "pt_appender (fsync h p) = pt_appender p"
  "pt_next_offset (fsync h p) = pt_next_offset p" "pt_start_offset (fsync h p) = pt_start_offset p"
  "pt_poisoned (fsync h p) = pt_poisoned p" "pt_segment_bytes (fsync h p) = pt_segment_bytes p"
  "pt_latest (fsync h p) = pt_latest p" "pt_write_seq (fsync h p) = pt_write_seq p"
  "pt_synced (fsync h p) = pt_synced p" "pt_issued (fsync h p) = pt_issued p"
  "pt_flush_every_records (fsync h p) = pt_flush_every_records p" "pt_lost (fsync h p) = pt_lost p"
  by (simp_all add: fsync_def)

lemma fsync_fails_fields [simp]:
  "pt_segments (fsync_fails h p) = pt_segments p" "pt_appender (fsync_fails h p) = pt_appender p"
  "pt_next_offset (fsync_fails h p) = pt_next_offset p" "pt_start_offset (fsync_fails h p) = pt_start_offset p"
  "pt_poisoned (fsync_fails h p)" "pt_segment_bytes (fsync_fails h p) = pt_segment_bytes p"
  "pt_latest (fsync_fails h p) = pt_latest p" "pt_write_seq (fsync_fails h p) = pt_write_seq p"
  "pt_synced (fsync_fails h p) = pt_synced p" "pt_issued (fsync_fails h p) = pt_issued p"
  "pt_durable (fsync_fails h p) = pt_durable p" "pt_lost (fsync_fails h p) = insert h (pt_lost p)"
  by (simp_all add: fsync_fails_def)

lemma part_core_cong:
  assumes "part_core crc p ss" "pt_segments p' = pt_segments p" "pt_appender p' = pt_appender p"
    "pt_start_offset p' = pt_start_offset p" "pt_next_offset p \<le> pt_next_offset p'"
    "pt_poisoned p \<longrightarrow> pt_poisoned p'"
  shows "part_core crc p' ss"
  using assms by (auto simp: part_core_def list_all_iff intro: less_le_trans)

lemma recovers_to_fresh: "recovers_to crc (segment_open_empty b []) (b, [])"
  by (simp add: recovers_to_def segment_open_empty_def segment_holds_def offsets_ok_def index_ok_def)

lemma appender_ok_fresh: "appender_ok (appender_create b [] []) (segment_open_empty b [])"
  by (simp add: appender_ok_def appender_create_def segment_open_empty_def index_bytes_def)

lemma roll_ok:
  assumes core: "part_core crc p ss" and np: "\<not> pt_poisoned p"
    and nb: "fst (last ss) < b" "next_after (fst (last ss)) (snd (last ss)) \<le> b"
  shows "case roll b p of
      (Inr _, p') \<Rightarrow> part_core crc p' (ss @ [(b, [])]) \<and> \<not> pt_poisoned p' \<and>
        pt_next_offset p' = pt_next_offset p \<and> pt_segment_bytes p' = pt_segment_bytes p \<and>
        pt_appender p' = appender_create b [] []
    | (Inl e, p') \<Rightarrow> part_core crc p' ss \<and> pt_next_offset p' = pt_next_offset p"
proof -
  obtain out rest where o': "pop RollOk (pt_rolls p) = (out, rest)" by (cases "pop RollOk (pt_rolls p)")
  have ne: "ss \<noteq> []" and ch: "chained ss" using core by (simp_all add: part_core_def)
  show ?thesis
  proof (cases out)
    case RollOk
    have "last (pt_segments p @ [segment_open_empty b []]) = segment_open_empty b []"
      "sg_file (segment_open_empty b []) = []" "sg_index (segment_open_empty b []) = []"
      "ap_log (appender_create b [] []) = []" "ap_base_offset (appender_create b [] []) = b"
      by (simp_all add: segment_open_empty_def appender_create_def)
    then show ?thesis
      using core np RollOk ne chained_snoc[OF ch ne nb] recovers_to_fresh[of crc b] appender_ok_fresh[of b]
      by (auto simp: roll_def o' Let_def part_core_def contents_def intro!: list_all2_appendI)
  qed (auto simp: roll_def o' Let_def np intro: part_core_cong[OF core])
qed


section \<open>Appending refines the assignment of offsets\<close>

text \<open>The loop invariant: \<open>brs\<close> is pending, \<open>nxt\<close> is the next free offset.\<close>

definition loop_inv ::
    "(u8 list \<Rightarrow> 32 word) \<Rightarrow> partition \<Rightarrow> (nat \<times> es_record list) list \<Rightarrow> pending_batch \<Rightarrow> es_record list \<Rightarrow> nat \<Rightarrow> bool" where
  "loop_inv crc p ss b brs nxt \<longleftrightarrow>
     part_core crc p ss \<and> \<not> pt_poisoned p \<and> batch_inv crc (pt_appender p) (snd (last ss)) b brs \<and>
     next_after (fst (last ss)) (snd (last ss) @ brs) \<le> nxt \<and> pt_next_offset p \<le> nxt \<and>
     (if brs = [] then nxt = pt_next_offset p else nxt = pb_next b)"

definition new_record :: "int \<Rightarrow> append_record \<Rightarrow> nat \<Rightarrow> es_record" where
  "new_record now r offset =
     \<lparr>r_offset = offset, r_timestamp_ms = (case ar_timestamp_ms r of Some t \<Rightarrow> t | None \<Rightarrow> now),
      r_key = ar_key r, r_value = ar_value r\<rparr>"

lemma pb_next_add_record [simp]: "pb_next (add_record offset ts r crc app b) = offset + 1"
  by (simp add: add_record_def Let_def)

lemma part_core_active_facts:
  assumes "part_core crc p ss" "\<not> pt_poisoned p"
  shows "ap_size_bytes (pt_appender p) = total_size (snd (last ss))"
    "ap_base_offset (pt_appender p) = fst (last ss)" "ss \<noteq> []"
    "offsets_ok (fst (last ss)) (snd (last ss))"
proof -
  have l: "recovers_to crc (last (pt_segments p)) (fst (last ss), snd (last ss))"
    using assms list_all2_last[of "recovers_to crc" "pt_segments p" ss] by (simp add: part_core_def)
  moreover have "appender_ok (pt_appender p) (last (pt_segments p))"
    using assms by (simp add: part_core_def)
  ultimately show "ap_size_bytes (pt_appender p) = total_size (snd (last ss))"
    by (rule active_log)
  show "ap_base_offset (pt_appender p) = fst (last ss)" "ss \<noteq> []"
    using assms by (simp_all add: part_core_def)
  show "offsets_ok (fst (last ss)) (snd (last ss))"
    using l by (auto simp: recovers_to_def segment_holds_def)
qed

text \<open>Where a record lands after a commit and a roll.\<close>

lemma place_after_roll:
  assumes core: "part_core crc p2 (ss' @ [(offset, [])])" and np: "\<not> pt_poisoned p2"
    and nx: "pt_next_offset p2 \<le> offset" and wf: "wf_record (new_record now r offset)"
    and app: "pt_appender p2 = appender_create offset [] []"
  shows "loop_inv crc p2 (ss' @ [(offset, [])])
     (add_record offset (r_timestamp_ms (new_record now r offset)) r crc (pt_appender p2) empty_batch)
     [new_record now r offset] (offset + 1)"
proof -
  note A = part_core_active_facts[OF core np]
  have base: "ap_base_offset (pt_appender p2) = offset" using A(2) by simp
  have "batch_inv crc (pt_appender p2) []
      (add_record offset (r_timestamp_ms (new_record now r offset)) r crc (pt_appender p2) empty_batch)
      ([] @ [new_record now r offset])"
    using A wf by (intro batch_inv_add batch_inv_empty) (auto simp: new_record_def offsets_ok_def)
  then show ?thesis
    using core np nx by (simp add: loop_inv_def new_record_def next_after_def)
qed

lemma next_after_gt: "offsets_ok b rs \<Longrightarrow> rs \<noteq> [] \<Longrightarrow> b < next_after b rs"
  using last_in_set[of rs] by (auto simp: next_after_def offsets_ok_def list_all_iff le_imp_less_Suc)

lemma place_record_ok:
  assumes inv: "loop_inv crc p ss b brs nxt" and off: "nxt \<le> offset"
    and wf: "wf_record (new_record now r offset)"
    and g: "g \<longrightarrow> part_inv crc p ss \<and> offset = nxt"
  shows "case place_record crc now r offset b p of
      (Inr b', p') \<Rightarrow> \<exists>ss' brs'. loop_inv crc p' ss' b' brs' (offset + 1) \<and> (g \<longrightarrow> part_inv crc p' ss') \<and>
         prefix (contents ss) (contents ss') \<and> contents ss' @ brs' = contents ss @ brs @ [new_record now r offset]
    | (Inl e, p') \<Rightarrow> \<exists>ss'. part_core crc p' ss' \<and> (g \<longrightarrow> part_inv crc p' ss') \<and>
         prefix (contents ss) (contents ss') \<and> prefix (contents ss') (contents ss @ brs)"
proof -
  have core: "part_core crc p ss" and np: "\<not> pt_poisoned p"
    and b: "batch_inv crc (pt_appender p) (snd (last ss)) b brs"
    and nx: "next_after (fst (last ss)) (snd (last ss) @ brs) \<le> nxt" "pt_next_offset p \<le> nxt"
      "brs \<noteq> [] \<longrightarrow> nxt = pb_next b"
    using inv by (auto simp: loop_inv_def split: if_splits)
  note A = part_core_active_facts[OF core np]
  let ?need = "record_disk_size (map_option length (ar_key r)) (length (ar_value r))"
  let ?pending = "ap_size_bytes (pt_appender p) + length (pb_log b)"
  let ?ts = "case ar_timestamp_ms r of Some t \<Rightarrow> t | None \<Rightarrow> now"
  have ts: "r_timestamp_ms (new_record now r offset) = ?ts" by (simp add: new_record_def)
  show ?thesis
  proof (cases "?pending > 0 \<and> ?pending + ?need > pt_segment_bytes p")
    case False
    have "batch_inv crc (pt_appender p) (snd (last ss)) (add_record offset ?ts r crc (pt_appender p) b)
        (brs @ [new_record now r offset])"
      using A nx(1) off wf by (intro batch_inv_add[OF b]) (auto simp: new_record_def)
    then have "loop_inv crc p ss (add_record offset ?ts r crc (pt_appender p) b)
        (brs @ [new_record now r offset]) (offset + 1)"
      using core np nx off by (simp add: loop_inv_def new_record_def next_after_def)
    moreover have "place_record crc now r offset b p = (Inr (add_record offset ?ts r crc (pt_appender p) b), p)"
      using False by (auto simp: place_record_def Let_def)
    ultimately show ?thesis using g by (auto intro!: exI[of _ ss])
  next
    case True
    have ne: "snd (last ss) @ brs \<noteq> []"
      using True A(1) b by (auto simp: batch_inv_def)
    have base: "fst (last ss) < offset"
      using next_after_gt[OF _ ne, of "fst (last ss)"] b A(2) nx(1) off by (simp add: batch_inv_def)
    obtain res p1 where c: "commit_batch b p = (res, p1)" by (cases "commit_batch b p")
    note C = commit_batch_ok[OF core np b, unfolded c]
    show ?thesis
    proof (cases res)
      case (Inl e)
      then have "part_core crc p1 ss" "g \<longrightarrow> part_inv crc p1 ss" using C nx g by (auto simp: part_inv_def)
      then show ?thesis
        using True c Inl by (auto simp: place_record_def Let_def intro!: exI[of _ ss])
    next
      case (Inr u)
      then have p1: "part_core crc p1 (extend_last ss brs)" "\<not> pt_poisoned p1" "pt_next_offset p1 \<le> offset"
        "pt_next_offset p1 = nxt"
        using C nx off inv by (auto simp: loop_inv_def split: if_splits)
      obtain res2 p2 where ro: "roll offset p1 = (res2, p2)" by (cases "roll offset p1")
      note R = roll_ok[OF p1(1,2), of offset, unfolded ro]
      have nb: "fst (last (extend_last ss brs)) < offset"
        "next_after (fst (last (extend_last ss brs))) (snd (last (extend_last ss brs))) \<le> offset"
        using base nx(1) off by simp_all
      show ?thesis
      proof (cases res2)
        case e2: (Inl e)
        then have "part_core crc p2 (extend_last ss brs)" "part_inv crc p2 (extend_last ss brs)"
          using R nb p1(4) nx(1) by (auto simp: part_inv_def)
        then show ?thesis
          using True c Inr ro e2 contents_extend[OF A(3), of brs]
          by (auto simp: place_record_def Let_def intro!: exI[of _ "extend_last ss brs"])
      next
        case r2: (Inr u2)
        then have "loop_inv crc p2 (extend_last ss brs @ [(offset, [])])
            (add_record offset ?ts r crc (pt_appender p2) empty_batch) [new_record now r offset] (offset + 1)"
          using R nb p1(3) place_after_roll[of crc p2 "extend_last ss brs" offset now r] wf
          by (simp add: ts)
        moreover have "g \<longrightarrow> part_inv crc p2 (extend_last ss brs @ [(offset, [])])"
          using r2 R nb p1(4) g by (auto simp: part_inv_def)
        moreover have "contents (extend_last ss brs @ [(offset, [])]) = contents ss @ brs"
          using contents_extend[OF A(3), of brs] by (simp add: contents_def)
        ultimately show ?thesis
          using True c Inr ro r2
          by (auto simp: place_record_def Let_def intro!: exI[of _ "extend_last ss brs @ [(offset, [])]"]
              exI[of _ "[new_record now r offset]"])
      qed
    qed
  qed
qed

definition loop_result ::
    "bool \<Rightarrow> (u8 list \<Rightarrow> 32 word) \<Rightarrow> es_record list \<Rightarrow> es_record list \<Rightarrow> nat list \<Rightarrow> nat \<Rightarrow>
     (append_error + nat list \<times> pending_batch \<times> nat) \<Rightarrow> partition \<Rightarrow> bool" where
  "loop_result g crc old new offs fresh res p' \<longleftrightarrow>
     (case res of
        Inr (offs', b', fresh') \<Rightarrow> offs' = offs \<and> fresh' = fresh \<and>
          (\<exists>ss' brs' nxt'. loop_inv crc p' ss' b' brs' nxt' \<and> (g \<longrightarrow> part_inv crc p' ss') \<and> prefix old (contents ss') \<and>
             contents ss' @ brs' = old @ new)
      | Inl e \<Rightarrow> \<exists>ss'. part_core crc p' ss' \<and> (g \<longrightarrow> part_inv crc p' ss') \<and> prefix old (contents ss') \<and> prefix (contents ss') (old @ new))"

lemma loop_result_weaken:
  assumes "loop_result g crc old' new' offs fresh res p'" "prefix old old'" "old' @ new' = old @ new"
  shows "loop_result g crc old new offs fresh res p'"
  using assms by (fastforce simp: loop_result_def split: sum.splits intro: prefix_order.trans)

lemma append_loop_ok:
  assumes "loop_inv crc p ss b brs nxt" "list_all wf_record (snd (assign now nxt rs))"
    and "append_loop crc now rs nxt b offs fresh p = (res, p')"
    and "g \<longrightarrow> part_inv crc p ss \<and> list_all (\<lambda>r. ar_offset r = None) rs"
  shows "loop_result g crc (contents ss) (brs @ snd (assign now nxt rs))
     (offs @ fst (assign now nxt rs)) (fresh + length (snd (assign now nxt rs))) res p'"
  using assms
proof (induction rs arbitrary: p ss b brs nxt offs fresh)
  case Nil
  then show ?case by (auto simp: loop_result_def intro!: exI[of _ ss] exI[of _ brs])
next
  case (Cons r rs)
  let ?off = "case ar_offset r of Some o' \<Rightarrow> o' | None \<Rightarrow> nxt"
  let ?rest = "assign now (?off + 1) rs"
  show ?case
  proof (cases "?off < nxt")
    case True
    then have as: "assign now nxt (r # rs) = (?off # fst (assign now nxt rs), snd (assign now nxt rs))"
      and ap: "append_loop crc now rs nxt b (offs @ [?off]) fresh p = (res, p')"
      using Cons.prems(3) by (simp_all add: Let_def map_prod_def split: prod.splits)
    then show ?thesis
      using Cons.IH[OF Cons.prems(1) _ ap] Cons.prems(2,4) by simp
  next
    case False
    have as: "assign now nxt (r # rs) = (?off # fst ?rest, new_record now r ?off # snd ?rest)"
      using False by (simp add: Let_def new_record_def map_prod_def split: prod.splits)
    have wf: "wf_record (new_record now r ?off)" "list_all wf_record (snd ?rest)"
      using Cons.prems(2) as by simp_all
    obtain res1 p1 where pl: "place_record crc now r ?off b p = (res1, p1)"
      by (cases "place_record crc now r ?off b p")
    note P = place_record_ok[OF Cons.prems(1) _ wf(1), of g, unfolded pl]
    have g: "g \<longrightarrow> part_inv crc p ss \<and> ?off = nxt" using Cons.prems(4) by auto
    show ?thesis
    proof (cases res1)
      case (Inl e)
      then have r: "res = Inl e" "p' = p1" using Cons.prems(3) False pl by (simp_all add: Let_def)
      obtain ss' where "part_core crc p1 ss'" "g \<longrightarrow> part_inv crc p1 ss'"
        "prefix (contents ss) (contents ss')" "prefix (contents ss') (contents ss @ brs)"
        using P False Inl g by auto
      moreover from this(4) have "prefix (contents ss') (contents ss @ brs @ xs)" for xs
        by (metis append.assoc prefix_prefix)
      ultimately show ?thesis by (auto simp: loop_result_def r)
    next
      case (Inr b')
      then obtain ss' brs' where n: "loop_inv crc p1 ss' b' brs' (?off + 1)"
        "prefix (contents ss) (contents ss')" "contents ss' @ brs' = contents ss @ brs @ [new_record now r ?off]"
        "g \<longrightarrow> part_inv crc p1 ss'"
        using P False g by auto
      have ap: "append_loop crc now rs (?off + 1) b' (offs @ [?off]) (fresh + 1) p1 = (res, p')"
        using False pl Inr Cons.prems(3) by (simp add: Let_def)
      have "contents ss' @ brs' @ snd ?rest = contents ss @ brs @ new_record now r ?off # snd ?rest"
        using n(3) by (metis append.assoc append_Cons append_Nil)
      then show ?thesis
        using loop_result_weaken[OF Cons.IH[OF n(1) wf(2) ap] n(2)] n(4) Cons.prems(4) unfolding as by simp
    qed
  qed
qed

lemma append_locked_ok:
  assumes inv: "part_inv crc p ss" and np: "\<not> pt_poisoned p"
    and wf: "list_all wf_record (snd (assign now (pt_next_offset p) rs))"
  shows "case append_locked crc now rs p of
      (Inr (offs, fresh), p') \<Rightarrow>
         offs = fst (assign now (pt_next_offset p) rs) \<and>
         fresh = length (snd (assign now (pt_next_offset p) rs)) \<and> \<not> pt_poisoned p' \<and>
         (\<exists>ss'. part_inv crc p' ss' \<and> contents ss' = contents ss @ snd (assign now (pt_next_offset p) rs))
    | (Inl e, p') \<Rightarrow> \<exists>ss'. part_core crc p' ss' \<and>
         (list_all (\<lambda>r. ar_offset r = None) rs \<longrightarrow> part_inv crc p' ss') \<and>
         prefix (contents ss) (contents ss') \<and>
         prefix (contents ss') (contents ss @ snd (assign now (pt_next_offset p) rs))"
proof -
  let ?plain = "list_all (\<lambda>r. ar_offset r = None) rs"
  let ?new = "snd (assign now (pt_next_offset p) rs)"
  have core: "part_core crc p ss" using inv by (simp add: part_inv_def)
  note A = part_core_active_facts[OF core np]
  have "loop_inv crc p ss empty_batch [] (pt_next_offset p)"
    using inv np A batch_inv_empty[of "pt_appender p" "snd (last ss)" crc]
    by (simp add: loop_inv_def part_inv_def)
  moreover obtain res p1 where ap: "append_loop crc now rs (pt_next_offset p) empty_batch [] 0 p = (res, p1)"
    by (cases "append_loop crc now rs (pt_next_offset p) empty_batch [] 0 p")
  ultimately have L: "loop_result ?plain crc (contents ss) ?new (fst (assign now (pt_next_offset p) rs)) (length ?new) res p1"
    using append_loop_ok[OF _ wf ap, of ss "[]" ?plain] inv by simp
  show ?thesis
  proof (cases res)
    case (Inl e)
    then show ?thesis using L ap by (simp add: append_locked_def loop_result_def)
  next
    case (Inr x)
    obtain offs b fresh where x: "x = (offs, b, fresh)" by (cases x)
    obtain ss' brs' nxt' where l: "loop_inv crc p1 ss' b brs' nxt'" "prefix (contents ss) (contents ss')"
      "contents ss' @ brs' = contents ss @ ?new" "offs = fst (assign now (pt_next_offset p) rs)"
      "fresh = length ?new" "?plain \<longrightarrow> part_inv crc p1 ss'"
      using L Inr x by (auto simp: loop_result_def)
    have c1: "part_core crc p1 ss'" "\<not> pt_poisoned p1"
      "batch_inv crc (pt_appender p1) (snd (last ss')) b brs'"
      "brs' \<noteq> [] \<longrightarrow> pt_next_offset p1 \<le> pb_next b"
      "next_after (fst (last ss')) (snd (last ss') @ brs') \<le> (if brs' = [] then pt_next_offset p1 else pb_next b)"
      using l(1) by (auto simp: loop_inv_def split: if_splits)
    have ne: "ss' \<noteq> []" using c1(1) by (simp add: part_core_def)
    obtain cr p2 where c: "commit_batch b p1 = (cr, p2)" by (cases "commit_batch b p1")
    have pre: "prefix (contents ss') (contents ss @ ?new)" using l(3) by (metis prefixI)
    note C = commit_batch_ok[OF c1(1-4), unfolded c]
    show ?thesis
    proof (cases cr)
      case e: (Inl e)
      then show ?thesis using C l pre ap Inr x c
        by (auto simp: append_locked_def part_inv_def intro!: exI[of _ ss'])
    next
      case u: (Inr u)
      then show ?thesis
        using C c1(5) contents_extend[OF ne, of brs'] l ap Inr x c
        by (auto simp: append_locked_def part_inv_def intro!: exI[of _ "extend_last ss' brs'"])
    qed
  qed
qed
end
