(* ===== verification/Partition_Safety.thy ===== *)
theory Partition_Safety
  imports Partition_Log
begin

text \<open>
  What the partition of \<open>Partition_Log\<close> guarantees over any interleaving of its operations: the
  durability invariant behind group commit, the step relation of concurrent callers, reads, and
  the path from an acknowledged append through a crash to the reopened partition.
\<close>

section \<open>Durability\<close>

text \<open>
  Writes to sealed segments are durable, as are all writes up to \<open>pt_synced\<close> to handles on which no
  fsync has failed; the write marks are issued in order, and segments are written in base order. A
  partition on which an fsync has failed is fenced.
\<close>

definition mark_ok :: "partition \<Rightarrow> nat \<times> nat \<times> nat \<Rightarrow> bool" where
  "mark_ok p m \<longleftrightarrow>
     (case m of (s, h, n) \<Rightarrow>
        s \<le> pt_write_seq p \<and> h \<le> ap_base_offset (pt_appender p) \<and>
        (s \<le> pt_synced p \<longrightarrow> h \<notin> pt_lost p \<longrightarrow> n \<le> pt_durable p h) \<and> n \<le> file_length p h \<and>
        (if h = ap_base_offset (pt_appender p) then wm_handle (pt_latest p) = h
         else n \<le> pt_durable p h))"

definition dur_inv :: "partition \<Rightarrow> bool" where
  "dur_inv p \<longleftrightarrow>
     pt_synced p \<le> pt_write_seq p \<and> (pt_lost p \<noteq> {} \<longrightarrow> pt_poisoned p) \<and> wm_seq (pt_latest p) = pt_write_seq p \<and>
     list_all (mark_ok p) (pt_issued p) \<and>
     (\<forall>m\<in>set (pt_issued p). \<forall>m'\<in>set (pt_issued p). fst m \<le> fst m' \<longrightarrow> fst (snd m) \<le> fst (snd m'))"

lemma active_split:
  assumes "part_core crc p ss"
  obtains segs s where "pt_segments p = segs @ [s]" "sg_file s = ap_log (pt_appender p)"
    "sg_base_offset s = ap_base_offset (pt_appender p)"
    "\<forall>t\<in>set segs. sg_base_offset t \<noteq> sg_base_offset s"
proof -
  obtain segs s ss' x where d: "pt_segments p = segs @ [s]" "ss = ss' @ [x]"
    "list_all2 (recovers_to crc) segs ss'" "recovers_to crc s x"
    using assms list_all2_snoc_cases unfolding part_core_def by metis
  have base: "ap_base_offset (pt_appender p) = fst x" "sg_file s = ap_log (pt_appender p)"
    "chained (ss' @ [x])"
    using assms d by (auto simp: part_core_def)
  have "sg_base_offset t < fst x" if t: "t \<in> set segs" for t
  proof -
    obtain y where "y \<in> set ss'" "recovers_to crc t y"
      using t d(3) by (metis in_set_conv_nth list_all2_conv_all_nth)
    then show ?thesis using base(3) by (auto simp: chained_def sorted_wrt_append recovers_to_def)
  qed
  then have "\<forall>t\<in>set segs. sg_base_offset t \<noteq> sg_base_offset s"
    using d(4) by (auto simp: recovers_to_def dest: less_imp_neq)
  then show ?thesis using that[OF d(1)] d(4) base by (simp add: recovers_to_def)
qed

lemma file_length_last:
  assumes "pt_segments p = segs @ [s]" "\<forall>t\<in>set segs. sg_base_offset t \<noteq> sg_base_offset s"
  shows "file_length p (sg_base_offset s) = length (sg_file s)"
proof -
  have "filter (\<lambda>t. sg_base_offset t = sg_base_offset s) (pt_segments p) = [s]"
    using assms by (simp add: filter_empty_conv)
  then show ?thesis by (simp add: file_length_def)
qed

lemma file_length_active:
  assumes "part_core crc p ss"
  shows "file_length p (ap_base_offset (pt_appender p)) = length (ap_log (pt_appender p))"
  using active_split[OF assms] file_length_last by metis

lemma file_length_cong:
  "pt_segments p' = pt_segments p \<Longrightarrow> pt_durable p' = pt_durable p \<Longrightarrow> file_length p' h = file_length p h"
  by (simp add: file_length_def split: list.split)

lemma file_length_grows:
  assumes "pt_segments p = segs @ [s]" "pt_segments p' = segs @ [s']" "pt_durable p' = pt_durable p"
    and "sg_base_offset s' = sg_base_offset s" "length (sg_file s) \<le> length (sg_file s')"
  shows "file_length p h \<le> file_length p' h"
  using assms by (auto simp: file_length_def split: list.splits)

lemma write_batch_grows:
  assumes "ap_size_bytes a = length (ap_log a)"
  shows "length (ap_log a) \<le> length (ap_log (snd (write_batch io lb ib a)))"
    "ap_base_offset (snd (write_batch io lb ib a)) = ap_base_offset a"
  using assms by (cases "io_write io"; simp add: write_batch_def Let_def set_len_def)+

lemma mark_ok_mono:
  assumes "mark_ok p m" "\<And>h. file_length p h \<le> file_length p' h" "pt_durable p' = pt_durable p"
    and "pt_synced p' = pt_synced p" "pt_write_seq p \<le> pt_write_seq p'" "pt_lost p' = pt_lost p"
    and "ap_base_offset (pt_appender p') = ap_base_offset (pt_appender p)"
    and "wm_handle (pt_latest p') \<in> {wm_handle (pt_latest p), ap_base_offset (pt_appender p)}"
  shows "mark_ok p' m"
proof -
  obtain s h n where m: "m = (s, h, n)" by (cases m)
  have "n \<le> file_length p' h" using assms(1) order_trans[OF _ assms(2)[of h]] by (simp add: mark_ok_def m)
  then show ?thesis using assms by (auto simp: mark_ok_def m split: if_splits)
qed

lemma commit_batch_dur:
  assumes core: "part_core crc p ss" and np: "\<not> pt_poisoned p" and dur: "dur_inv p"
  shows "dur_inv (snd (commit_batch b p))"
proof (cases "pb_count b = 0")
  case True
  then show ?thesis using dur by (simp add: commit_batch_def)
next
  case False
  obtain segs s where segs: "pt_segments p = segs @ [s]" "sg_file s = ap_log (pt_appender p)"
    "sg_base_offset s = ap_base_offset (pt_appender p)"
    "\<forall>t\<in>set segs. sg_base_offset t \<noteq> sg_base_offset s"
    by (rule active_split[OF core])
  obtain io ios where io: "pop io_fine (pt_writes p) = (io, ios)" by (cases "pop io_fine (pt_writes p)")
  obtain res app1 where w: "write_batch io (pb_log b) (pb_index b) (pt_appender p) = (res, app1)"
    by (cases "write_batch io (pb_log b) (pb_index b) (pt_appender p)")
  have "appender_ok (pt_appender p) (last (pt_segments p))" using core np by (simp add: part_core_def)
  then have "ap_size_bytes (pt_appender p) = length (ap_log (pt_appender p))"
    by (simp add: appender_ok_def)
  then have base: "ap_base_offset app1 = ap_base_offset (pt_appender p)"
    and grow: "length (ap_log (pt_appender p)) \<le> length (ap_log app1)"
    using write_batch_grows[of "pt_appender p" io "pb_log b" "pb_index b"] by (simp_all add: w)
  show ?thesis
  proof (cases res)
    case (Inl rolled)
    define p' where "p' = snd (commit_batch b p)"
    have P: "pt_segments p' = segs @ [s\<lparr>sg_file := ap_log app1\<rparr>]" "pt_durable p' = pt_durable p"
      "pt_issued p' = pt_issued p" "pt_synced p' = pt_synced p" "pt_write_seq p' = pt_write_seq p"
      "pt_latest p' = pt_latest p" "pt_appender p' = app1" "pt_lost p' = pt_lost p" "pt_poisoned p \<longrightarrow> pt_poisoned p'"
      using False Inl segs by (simp_all add: p'_def commit_batch_def io w Let_def set_appender_def)
    have "file_length p h \<le> file_length p' h" for h
      using file_length_grows[OF segs(1) P(1,2)] segs grow by simp
    then show ?thesis
      using dur base P mark_ok_mono[of p _ p'] unfolding p'_def[symmetric]
      by (auto simp: dur_inv_def list_all_iff)
  next
    case (Inr u)
    define p' where "p' = snd (commit_batch b p)"
    obtain s' where P: "pt_segments p' = segs @ [s']" "pt_durable p' = pt_durable p"
      "sg_base_offset s' = sg_base_offset s" "sg_file s' = ap_log app1"
      "pt_issued p' = (pt_write_seq p + 1, ap_base_offset app1, length (ap_log app1)) # pt_issued p"
      "pt_synced p' = pt_synced p" "pt_write_seq p' = pt_write_seq p + 1"
      "pt_latest p' = \<lparr>wm_seq = pt_write_seq p + 1, wm_handle = ap_base_offset app1\<rparr>"
      "ap_base_offset (pt_appender p') = ap_base_offset app1" "ap_log (pt_appender p') = ap_log app1"
      "pt_lost p' = pt_lost p" "pt_poisoned p' = pt_poisoned p"
      using False Inr segs by (simp add: p'_def commit_batch_def io w Let_def set_appender_def)
    have "file_length p h \<le> file_length p' h" for h
      using file_length_grows[OF segs(1) P(1,2,3)] segs grow P by simp
    moreover have "file_length p' (ap_base_offset app1) = length (ap_log app1)"
      using file_length_last[OF P(1)] P(3,4) segs(3,4) base by metis
    moreover have "mark_ok p' (pt_write_seq p + 1, ap_base_offset app1, length (ap_log app1))"
      using calculation(2) P dur by (simp add: mark_ok_def dur_inv_def)
    moreover have "fst m \<le> pt_write_seq p \<and> fst (snd m) \<le> ap_base_offset app1" if "m \<in> set (pt_issued p)" for m
      using that dur base by (auto simp: dur_inv_def list_all_iff mark_ok_def)
    ultimately show ?thesis
      using dur base P mark_ok_mono[of p _ p'] unfolding p'_def[symmetric]
      by (fastforce simp: dur_inv_def list_all_iff)
  qed
qed

lemma file_length_fsync [simp]: "file_length (fsync h p) h' = file_length p h'"
  by (auto simp: file_length_def fsync_def split: list.splits)

lemma pt_durable_fsync: "pt_durable (fsync h p) h' = (if h' = h \<and> h \<notin> pt_lost p then file_length p h else pt_durable p h')"
  by (simp add: fsync_def)

text \<open>An fsync covers the writes to its own file, and the others are covered once sealed.\<close>

lemma fsync_dur:
  assumes "dur_inv p"
  shows "dur_inv (fsync h p)"
    "\<forall>m\<in>set (pt_issued p). fst (snd m) = h \<and> h \<notin> pt_lost p \<or> fst (snd m) \<noteq> ap_base_offset (pt_appender p) \<longrightarrow>
       snd (snd m) \<le> pt_durable (fsync h p) (fst (snd m))"
proof -
  have "mark_ok (fsync h p) m" if "mark_ok p m" for m
    using that by (auto simp: mark_ok_def pt_durable_fsync split: prod.splits if_splits)
  then show "dur_inv (fsync h p)" using assms by (auto simp: dur_inv_def list_all_iff)
  show "\<forall>m\<in>set (pt_issued p). fst (snd m) = h \<and> h \<notin> pt_lost p \<or> fst (snd m) \<noteq> ap_base_offset (pt_appender p) \<longrightarrow>
       snd (snd m) \<le> pt_durable (fsync h p) (fst (snd m))"
    using assms by (auto simp: dur_inv_def list_all_iff mark_ok_def pt_durable_fsync split: if_splits)
qed

lemma dur_inv_cong:
  assumes "dur_inv p" "pt_synced p' = pt_synced p" "pt_write_seq p' = pt_write_seq p"
    "pt_latest p' = pt_latest p" "pt_issued p' = pt_issued p" "pt_durable p' = pt_durable p"
    "pt_appender p' = pt_appender p" "pt_segments p' = pt_segments p" "pt_lost p' = pt_lost p"
    "pt_poisoned p \<longrightarrow> pt_poisoned p'"
  shows "dur_inv p'"
proof -
  have "file_length p' = file_length p" using assms by (intro ext file_length_cong) auto
  then have "mark_ok p' = mark_ok p" using assms by (intro ext) (simp add: mark_ok_def)
  then show ?thesis using assms by (simp add: dur_inv_def)
qed

lemma dur_inv_fsync_fails: "dur_inv p \<Longrightarrow> dur_inv (fsync_fails h p)"
proof -
  assume dur: "dur_inv p"
  have "file_length (fsync_fails h p) h' = file_length p h'" for h' by (rule file_length_cong) simp_all
  then have "mark_ok (fsync_fails h p) m" if "mark_ok p m" for m using that by (cases m) (auto simp: mark_ok_def)
  then show "dur_inv (fsync_fails h p)" using dur by (auto simp: dur_inv_def list_all_iff)
qed

lemma roll_dur:
  assumes core: "part_core crc p ss" and dur: "dur_inv p" and b: "ap_base_offset (pt_appender p) < b" and np: "\<not> pt_poisoned p"
  shows "dur_inv (snd (roll b p))"
proof -
  obtain out rest where o': "pop RollOk (pt_rolls p) = (out, rest)" by (cases "pop RollOk (pt_rolls p)")
  let ?p0 = "p\<lparr>pt_rolls := rest\<rparr>" and ?h = "ap_base_offset (pt_appender p)"
  have "dur_inv ?p0" using dur_inv_cong[OF dur] by simp
  note F = fsync_dur[OF this, of ?h]
  have lost: "pt_lost p = {}" using dur np by (simp add: dur_inv_def)
  show ?thesis
  proof (cases out)
    case RollOk
    define p' where "p' = snd (roll b p)"
    have p': "p' = (fsync ?h ?p0)\<lparr>pt_appender := appender_create b [] [],
        pt_segments := pt_segments (fsync ?h ?p0) @ [segment_open_empty b []]\<rparr>"
      using RollOk by (simp add: p'_def roll_def o' Let_def)
    have fl: "file_length p h \<le> file_length p' h" if "h \<noteq> b" for h
    proof -
      have "file_length p' h = file_length (fsync ?h ?p0) h"
        using that by (simp add: p' file_length_def segment_open_empty_def split: list.split)
      moreover have "file_length ?p0 h = file_length p h" by (rule file_length_cong) simp_all
      ultimately show ?thesis by simp
    qed
    have "mark_ok p' m" if m: "m \<in> set (pt_issued p)" for m
    proof -
      obtain s h n where mm: "m = (s, h, n)" by (cases m)
      have "mark_ok p m" "mark_ok (fsync ?h ?p0) m" "n \<le> pt_durable (fsync ?h ?p0) h"
        using F m dur lost by (auto simp: dur_inv_def list_all_iff mm mark_ok_def split: if_splits)
      then show ?thesis
        using b fl[of h] by (auto simp: mark_ok_def mm p' appender_create_def)
    qed
    then show ?thesis
      using F(1) unfolding p'_def[symmetric] by (auto simp: dur_inv_def list_all_iff p')
  next
    case RollSyncFails
    then show ?thesis using dur_inv_fsync_fails dur_inv_cong[OF dur] by (simp add: roll_def o' Let_def)
  next
    case RollCreateFails
    then show ?thesis using F(1) by (simp add: roll_def o' Let_def)
  next
    case RollLeavesFiles
    then show ?thesis using dur_inv_cong[OF F(1)] by (simp add: roll_def o' Let_def)
  qed
qed

text \<open>A roll only happens once the active segment has a record, so the new base is above the old.\<close>

lemma pending_base:
  assumes "loop_inv crc p ss b brs nxt" "nxt \<le> offset"
    and "ap_size_bytes (pt_appender p) + length (pb_log b) > 0"
  shows "ap_base_offset (pt_appender p) < offset"
proof -
  have core: "part_core crc p ss" "\<not> pt_poisoned p"
    and b: "batch_inv crc (pt_appender p) (snd (last ss)) b brs"
    and nx: "next_after (fst (last ss)) (snd (last ss) @ brs) \<le> nxt"
    using assms(1) by (auto simp: loop_inv_def)
  note A = part_core_active_facts[OF core]
  have "snd (last ss) @ brs \<noteq> []" using assms(3) A(1) b by (auto simp: batch_inv_def)
  then show ?thesis
    using next_after_gt[of "fst (last ss)" "snd (last ss) @ brs"] b A(2) nx assms(2)
    by (simp add: batch_inv_def)
qed

lemma commit_batch_base:
  assumes "part_core crc p ss" "\<not> pt_poisoned p"
  shows "ap_base_offset (pt_appender (snd (commit_batch b p))) = ap_base_offset (pt_appender p)"
proof -
  have "appender_ok (pt_appender p) (last (pt_segments p))" using assms by (simp add: part_core_def)
  then have "ap_size_bytes (pt_appender p) = length (ap_log (pt_appender p))" by (simp add: appender_ok_def)
  then show ?thesis
    using write_batch_grows(2)[of "pt_appender p"]
    by (auto simp: commit_batch_def set_appender_def Let_def split: prod.splits sum.splits)
      (metis snd_conv)+
qed

lemma place_record_dur:
  assumes inv: "loop_inv crc p ss b brs nxt" and off: "nxt \<le> offset" and dur: "dur_inv p"
  shows "dur_inv (snd (place_record crc now r offset b p))"
proof -
  have core: "part_core crc p ss" "\<not> pt_poisoned p"
    and b: "batch_inv crc (pt_appender p) (snd (last ss)) b brs"
      "brs \<noteq> [] \<longrightarrow> pt_next_offset p \<le> pb_next b"
    using inv by (auto simp: loop_inv_def split: if_splits)
  obtain res p1 where c: "commit_batch b p = (res, p1)" by (cases "commit_batch b p")
  have d1: "dur_inv p1" and base: "ap_base_offset (pt_appender p1) = ap_base_offset (pt_appender p)"
    using commit_batch_dur[OF core dur, of b] commit_batch_base[OF core, of b] by (simp_all add: c)
  have "dur_inv (snd (roll offset p1))"
    if "res = Inr u" "ap_size_bytes (pt_appender p) + length (pb_log b) > 0" for u
  proof (rule roll_dur)
    show "part_core crc p1 (extend_last ss brs)"
      using commit_batch_ok[OF core b] that(1) by (simp add: c)
    show "dur_inv p1" by (rule d1)
    show "ap_base_offset (pt_appender p1) < offset"
      using pending_base[OF inv off that(2)] base by simp
    show "\<not> pt_poisoned p1" using commit_batch_ok[OF core b] that(1) by (simp add: c)
  qed
  then show ?thesis
    using dur d1 by (auto simp: place_record_def c Let_def split: sum.splits prod.splits)
qed

lemma append_loop_dur:
  assumes "loop_inv crc p ss b brs nxt" "list_all wf_record (snd (assign now nxt rs))" "dur_inv p"
  shows "dur_inv (snd (append_loop crc now rs nxt b offs fresh p))"
  using assms
proof (induction rs arbitrary: p ss b brs nxt offs fresh)
  case (Cons r rs)
  let ?off = "case ar_offset r of Some o' \<Rightarrow> o' | None \<Rightarrow> nxt"
  show ?case
  proof (cases "?off < nxt")
    case True
    then show ?thesis
      using Cons.IH[OF Cons.prems(1)] Cons.prems(2,3) by (simp add: Let_def map_prod_def split: prod.splits)
  next
    case False
    have wf: "wf_record (new_record now r ?off)" "list_all wf_record (snd (assign now (?off + 1) rs))"
      using Cons.prems(2) False by (simp_all add: Let_def new_record_def map_prod_def split: prod.splits)
    obtain res1 p1 where pl: "place_record crc now r ?off b p = (res1, p1)"
      by (cases "place_record crc now r ?off b p")
    have d1: "dur_inv p1"
      using place_record_dur[OF Cons.prems(1) _ Cons.prems(3), of ?off now r] False pl by simp
    have "\<exists>ss' brs'. loop_inv crc p1 ss' b' brs' (?off + 1)" if "res1 = Inr b'" for b'
      using place_record_ok[OF Cons.prems(1) _ wf(1), of False] False that by (auto simp: pl)
    then show ?thesis
      using Cons.IH wf(2) d1 False by (auto simp: Let_def pl split: sum.splits)
  qed
qed simp

lemma append_locked_dur:
  assumes inv: "part_inv crc p ss" and np: "\<not> pt_poisoned p" and dur: "dur_inv p"
    and wf: "list_all wf_record (snd (assign now (pt_next_offset p) rs))"
  shows "dur_inv (snd (append_locked crc now rs p))"
proof -
  have core: "part_core crc p ss" using inv by (simp add: part_inv_def)
  note A = part_core_active_facts[OF core np]
  have li: "loop_inv crc p ss empty_batch [] (pt_next_offset p)"
    using inv np A batch_inv_empty[of "pt_appender p" "snd (last ss)" crc]
    by (simp add: loop_inv_def part_inv_def)
  obtain res p1 where ap: "append_loop crc now rs (pt_next_offset p) empty_batch [] 0 p = (res, p1)"
    by (cases "append_loop crc now rs (pt_next_offset p) empty_batch [] 0 p")
  have d1: "dur_inv p1" using append_loop_dur[OF li wf dur, of "[]" 0] ap by simp
  have "dur_inv (snd (commit_batch b p1))" if "res = Inr (offs, b, fresh)" for offs b fresh
    using append_loop_ok[OF li wf ap, of False] that commit_batch_dur[OF _ _ d1]
    by (auto simp: loop_result_def loop_inv_def)
  then show ?thesis
    using d1 by (auto simp: append_locked_def ap split: sum.splits prod.splits)
qed

lemma sync_upto_fields:
  "pt_segments (snd (sync_upto s h p)) = pt_segments p" "pt_appender (snd (sync_upto s h p)) = pt_appender p"
  "pt_next_offset (snd (sync_upto s h p)) = pt_next_offset p"
  "pt_start_offset (snd (sync_upto s h p)) = pt_start_offset p"
  "pt_issued (snd (sync_upto s h p)) = pt_issued p"
  "pt_poisoned p \<longrightarrow> pt_poisoned (snd (sync_upto s h p))"
  by (simp_all add: sync_upto_def Let_def split: prod.splits)

lemma part_inv_sync: "part_inv crc p ss \<Longrightarrow> part_inv crc (snd (sync_upto s h p)) ss"
  using part_core_cong[of crc p ss "snd (sync_upto s h p)"] by (simp add: part_inv_def sync_upto_fields)

text \<open>The heart of group commit: syncing an issued mark covers every mark up to the new
  \<open>pt_synced\<close>.\<close>

lemma sync_target_covered:
  assumes dur: "dur_inv p" and m: "(s, h, n) \<in> set (pt_issued p)"
    and t: "target = (if wm_handle (pt_latest p) = h then wm_seq (pt_latest p) else s)"
    and m': "(s', h', n') \<in> set (pt_issued p)" "s' \<le> max (pt_synced p) target" "h' \<notin> pt_lost p"
  shows "n' \<le> pt_durable (fsync h p) h'"
proof (cases "h' = ap_base_offset (pt_appender p) \<and> h' \<noteq> h")
  case True
  have mk: "mark_ok p (s', h', n')" "mark_ok p (s, h, n)"
    using dur m m'(1) by (auto simp: dur_inv_def list_all_iff)
  then have lat: "wm_handle (pt_latest p) = h'" "h \<le> h'" using True by (auto simp: mark_ok_def)
  then have "target = s" using True t by simp
  moreover have "\<not> s' \<le> s"
    using dur m m'(1) True lat unfolding dur_inv_def by fastforce
  ultimately have "s' \<le> pt_synced p" using m'(2) by (simp add: max_def split: if_splits)
  then show ?thesis using mk(1) True m'(3) by (auto simp: mark_ok_def pt_durable_fsync)
next
  case False
  then show ?thesis using fsync_dur(2)[OF dur, of h] m'(1,3) by force
qed

lemma sync_upto_dur:
  assumes dur: "dur_inv p" and m: "(s, h, n) \<in> set (pt_issued p)"
  shows "dur_inv (snd (sync_upto s h p))"
    "fst (sync_upto s h p) = Inr () \<Longrightarrow> s \<le> pt_synced (snd (sync_upto s h p))"
proof -
  let ?target = "if wm_handle (pt_latest p) = h then wm_seq (pt_latest p) else s"
  obtain ok rest where o': "pop True (pt_syncs p) = (ok, rest)" by (cases "pop True (pt_syncs p)")
  let ?p1 = "p\<lparr>pt_unsynced := 0, pt_syncs := rest\<rparr>"
  have s: "s \<le> pt_write_seq p" "s \<le> ?target"
    using dur m by (auto simp: dur_inv_def list_all_iff mark_ok_def)
  then show "fst (sync_upto s h p) = Inr () \<Longrightarrow> s \<le> pt_synced (snd (sync_upto s h p))"
    by (auto simp: sync_upto_def o' Let_def split: if_splits)
  have d1: "dur_inv ?p1" using dur_inv_cong[OF dur] by simp
  have "dur_inv ((fsync h ?p1)\<lparr>pt_synced := max (pt_synced p) ?target\<rparr>)"
  proof -
    have "mark_ok ((fsync h ?p1)\<lparr>pt_synced := max (pt_synced p) ?target\<rparr>) m'"
      if m': "m' \<in> set (pt_issued p)" for m'
    proof -
      obtain s' h' n' where mm: "m' = (s', h', n')" by (cases m')
      have "s' \<le> max (pt_synced p) ?target \<longrightarrow> h' \<notin> pt_lost p \<longrightarrow> n' \<le> pt_durable (fsync h ?p1) h'"
        using sync_target_covered[OF d1, of s h n ?target s' h' n'] m m' mm by simp
      moreover have "mark_ok (fsync h ?p1) m'"
        using fsync_dur(1)[OF d1, of h] m' by (auto simp: dur_inv_def list_all_iff)
      moreover have "file_length ((fsync h ?p1)\<lparr>pt_synced := x\<rparr>) h' = file_length (fsync h ?p1) h'" for x
        by (rule file_length_cong) simp_all
      ultimately show ?thesis by (auto simp: mark_ok_def mm split: if_splits)
    qed
    then show ?thesis
      using fsync_dur(1)[OF d1, of h] s(1) by (auto simp: dur_inv_def list_all_iff)
  qed
  moreover have "dur_inv (fsync_fails h ?p1)" by (rule dur_inv_fsync_fails[OF d1])
  ultimately show "dur_inv (snd (sync_upto s h p))"
    using dur by (simp add: sync_upto_def o' Let_def)
qed


section \<open>Dropping segments\<close>

lemma list_all2_filter_bases:
  "list_all2 (recovers_to crc) segs ss \<Longrightarrow>
     list_all2 (recovers_to crc) (filter (\<lambda>s. sg_base_offset s \<notin> V) segs) (filter (\<lambda>x. fst x \<notin> V) ss) \<and>
     map sg_base_offset (filter (\<lambda>s. sg_base_offset s \<in> V) segs) = filter (\<lambda>b. b \<in> V) (map fst ss)"
  by (induction rule: list_all2_induct) (auto simp: recovers_to_def)

lemma contents_filter: "set (contents (filter P ss)) \<subseteq> set (contents ss)"
  by (auto simp: contents_def)

lemma unlink_plan_ok:
  assumes inv: "part_inv crc p ss" and dur: "dur_inv p" and V: "V = {b \<in> set vs. b < fst (last ss)}"
  shows "part_inv crc (snd (unlink_plan vs p)) (filter (\<lambda>x. fst x \<notin> V) ss)"
    "fst (unlink_plan vs p) = filter (\<lambda>b. b \<in> V) (map fst ss)" "dur_inv (snd (unlink_plan vs p))"
proof -
  have core: "part_core crc p ss" using inv by (simp add: part_inv_def)
  obtain segs s where seg: "pt_segments p = segs @ [s]" "sg_file s = ap_log (pt_appender p)"
    "sg_base_offset s = ap_base_offset (pt_appender p)"
    by (rule active_split[OF core])
  have base: "ap_base_offset (pt_appender p) = fst (last ss)" "ss \<noteq> []"
    and l2: "list_all2 (recovers_to crc) (pt_segments p) ss" and ch: "chained ss"
    using core by (simp_all add: part_core_def)
  have V_def: "V = set (filter (\<lambda>b. b < sg_base_offset s) vs)" using V base seg(3) by auto
  have "part_inv crc (snd (unlink_plan vs p)) (filter (\<lambda>x. fst x \<notin> V) ss) \<and>
    fst (unlink_plan vs p) = filter (\<lambda>b. b \<in> V) (map fst ss) \<and> dur_inv (snd (unlink_plan vs p))"
  proof (cases "length (pt_segments p) \<le> 1 \<or> V = {}")
    case True
    then have "unlink_plan vs p = ([], p)" by (auto simp: unlink_plan_def seg(1) V_def Let_def)
    moreover have "filter (\<lambda>x. fst x \<notin> V) ss = ss" "filter (\<lambda>b. b \<in> V) (map fst ss) = []"
    proof -
      have "length ss \<le> 1 \<or> V = {}" using True list_all2_lengthD[OF l2] by simp
      then have "\<forall>x \<in> set ss. fst x \<notin> V" using V base(2) by (cases ss) auto
      then show "filter (\<lambda>x. fst x \<notin> V) ss = ss" "filter (\<lambda>b. b \<in> V) (map fst ss) = []"
        by (simp_all add: filter_id_conv filter_empty_conv)
    qed
    ultimately show ?thesis using inv dur by simp
  next
    case False
    define p' where "p' = snd (unlink_plan vs p)"
    let ?ss = "filter (\<lambda>x. fst x \<notin> V) ss" and ?segs = "filter (\<lambda>t. sg_base_offset t \<notin> V) segs @ [s]"
    have act: "sg_base_offset s \<notin> V" by (simp add: V_def)
    have la: "last (pt_segments p) = s" by (simp add: seg(1))
    have fs: "filter (\<lambda>t. sg_base_offset t \<notin> V) (pt_segments p) = ?segs" using act by (simp add: seg(1))
    have u: "unlink_plan vs p = (map sg_base_offset (filter (\<lambda>t. sg_base_offset t \<in> V) (pt_segments p)),
        p\<lparr>pt_segments := ?segs, pt_start_offset := sg_base_offset (hd ?segs)\<rparr>)"
      unfolding unlink_plan_def Let_def la V_def[symmetric] fs using False
      by (cases "filter (\<lambda>t. sg_base_offset t \<notin> V) segs") simp_all
    obtain ss0 x where sx: "ss = ss0 @ [x]" using base(2) by (metis rev_exhaust)
    have ssx: "?ss = filter (\<lambda>x. fst x \<notin> V) ss0 @ [x]" using act base seg(3) sx by simp
    note L = list_all2_filter_bases[OF l2, of V, unfolded fs]
    have hd: "sg_base_offset (hd ?segs) = fst (hd ?ss)"
      using conjunct1[OF L] by (cases ?segs; cases ?ss) (auto simp: recovers_to_def)
    have P: "pt_segments p' = ?segs" "pt_start_offset p' = fst (hd ?ss)" "pt_appender p' = pt_appender p"
      "pt_next_offset p' = pt_next_offset p" "pt_poisoned p' = pt_poisoned p" "pt_issued p' = pt_issued p"
      "pt_durable p' = pt_durable p" "pt_synced p' = pt_synced p" "pt_write_seq p' = pt_write_seq p"
      "pt_latest p' = pt_latest p" "pt_lost p' = pt_lost p"
      by (simp_all add: p'_def u hd)
    have "chained ?ss" using ch by (simp add: chained_def sorted_wrt_filter)
    moreover have Q: "?ss \<noteq> []" "last ?ss = last ss" "last ?segs = last (pt_segments p)"
      by (simp_all only: ssx) (simp_all add: sx la)
    ultimately have "part_inv crc p' ?ss"
      using inv conjunct1[OF L] contents_filter[of "\<lambda>x. fst x \<notin> V" ss]
      unfolding part_inv_def part_core_def P Q by (auto simp: list_all_iff)
    moreover have "dur_inv p'"
    proof -
      have "mark_ok p' m" if "mark_ok p m" for m
      proof -
        obtain q h n where m: "m = (q, h, n)" by (cases m)
        have "n \<le> file_length p' h"
        proof (cases "h \<in> V")
          case True
          then have "filter (\<lambda>t. sg_base_offset t = h) (pt_segments p') = []"
            using act by (auto simp: P filter_empty_conv)
          moreover have "h \<noteq> ap_base_offset (pt_appender p)" using True act seg(3) by auto
          ultimately show ?thesis using that by (simp add: m mark_ok_def file_length_def P)
        next
          case False
          then have "filter (\<lambda>t. sg_base_offset t = h) (pt_segments p') =
              filter (\<lambda>t. sg_base_offset t = h) (pt_segments p)"
            unfolding P fs[symmetric] filter_filter by (intro filter_cong) auto
          then have "file_length p' h = file_length p h"
            by (simp add: file_length_def P(7) split: list.split)
          then show ?thesis using that by (simp add: m mark_ok_def)
        qed
        then show ?thesis using that by (simp add: m mark_ok_def P)
      qed
      then show ?thesis using dur by (auto simp: dur_inv_def list_all_iff P)
    qed
    moreover have "fst (unlink_plan vs p) = filter (\<lambda>b. b \<in> V) (map fst ss)"
      using L by (simp add: u)
    ultimately show ?thesis by (simp add: p'_def)
  qed
  then show "part_inv crc (snd (unlink_plan vs p)) (filter (\<lambda>x. fst x \<notin> V) ss)"
    "fst (unlink_plan vs p) = filter (\<lambda>b. b \<in> V) (map fst ss)" "dur_inv (snd (unlink_plan vs p))" by blast+
qed


section \<open>Concurrent callers\<close>

text \<open>
  The steps of a partition without Raft serving any number of callers. An append is atomic under the
  appender lock; the fsync that acknowledges it is a separate step, for a mark some append was
  given. An append that found the partition fenced changes nothing and is no step; an fsync runs
  also on a fenced partition. At any time the environment may decide how the coming writes, rolls
  and fsyncs end.
\<close>

inductive pstep :: "(u8 list \<Rightarrow> 32 word) \<Rightarrow> partition \<Rightarrow> partition \<Rightarrow> bool" for crc where
  step_append: "\<not> pt_poisoned p \<Longrightarrow> list_all (\<lambda>r. ar_offset r = None) rs \<Longrightarrow>
    list_all wf_record (snd (assign now (pt_next_offset p) rs)) \<Longrightarrow>
    pstep crc p (snd (append_locked crc now rs p))"
| step_sync: "(s, h, n) \<in> set (pt_issued p) \<Longrightarrow> pstep crc p (snd (sync_upto s h p))"
| step_drop: "pstep crc p (snd (unlink_plan vs p))"
| step_advance: "pstep crc p (advance_to o' p)"
| step_faults: "pstep crc p (p\<lparr>pt_writes := ws, pt_rolls := rolls, pt_syncs := syncs\<rparr>)"

inductive_cases pstepE: "pstep crc p p'"

definition part_ok :: "(u8 list \<Rightarrow> 32 word) \<Rightarrow> partition \<Rightarrow> bool" where
  "part_ok crc p \<longleftrightarrow> (\<exists>ss. part_inv crc p ss) \<and> dur_inv p"

lemma part_inv_advance: "part_inv crc p ss \<Longrightarrow> part_inv crc (advance_to o' p) ss"
  using part_core_cong[of crc p ss "advance_to o' p"] by (auto simp: part_inv_def advance_to_def)

lemma pstep_ok:
  assumes "pstep crc p p'" "part_ok crc p"
  shows "part_ok crc p'"
proof -
  obtain ss where inv: "part_inv crc p ss" and dur: "dur_inv p" using assms(2) by (auto simp: part_ok_def)
  from assms(1) show ?thesis
  proof cases
    case (step_append rs now)
    obtain res where res: "append_locked crc now rs p = (res, p')"
      using step_append(1) by (metis prod.collapse)
    show ?thesis
      using append_locked_ok[OF inv step_append(2,4), unfolded res]
        append_locked_dur[OF inv step_append(2) dur step_append(4)] step_append(1,3)
      by (cases res) (auto simp: part_ok_def)
  next
    case (step_sync s h n)
    then show ?thesis
      using part_inv_sync[OF inv] sync_upto_dur(1)[OF dur] unfolding part_ok_def by blast
  next
    case (step_drop vs)
    then show ?thesis
      using unlink_plan_ok(1,3)[OF inv dur refl, of vs] unfolding part_ok_def by blast
  next
    case (step_advance o')
    then have "dur_inv p'" using dur_inv_cong[OF dur] by (simp add: advance_to_def)
    then show ?thesis using step_advance part_inv_advance[OF inv] unfolding part_ok_def by blast
  next
    case (step_faults ws rolls syncs)
    then have "dur_inv p'" "part_inv crc p' ss"
      using dur_inv_cong[OF dur] inv part_core_cong[of crc p ss p'] by (simp_all add: part_inv_def)
    then show ?thesis unfolding part_ok_def by blast
  qed
qed

lemma psteps_ok: "(pstep crc)\<^sup>*\<^sup>* p p' \<Longrightarrow> part_ok crc p \<Longrightarrow> part_ok crc p'"
  by (induction rule: rtranclp_induct) (auto intro: pstep_ok)


section \<open>Reading\<close>

lemma prefix_fill: "prefix (fill f mb acc xs) xs"
  by (induction f mb acc xs rule: fill.induct) auto

lemma fill_Nil: "fill True mb acc xs = [] \<longleftrightarrow> xs = []"
  by (cases xs) auto

lemma eligible_all: "list_all (\<lambda>r. r_offset r < hwm) xs \<Longrightarrow> eligible target hwm xs = filter (\<lambda>r. target \<le> r_offset r) xs"
  by (induction xs) auto

definition at_least :: "nat \<Rightarrow> es_record list \<Rightarrow> es_record list" where
  "at_least target rs = filter (\<lambda>r. target \<le> r_offset r) rs"

lemma at_least_append [simp]: "at_least t (xs @ ys) = at_least t xs @ at_least t ys"
  by (simp add: at_least_def)

lemma read_walk_ok:
  assumes "list_all2 (recovers_to crc) segs ss" "0 < mr"
    and "list_all (\<lambda>r. r_offset r < hwm \<and> rec_size r \<le> read_window mb) (contents ss)"
    and "list_all (\<lambda>s. fst s \<le> hwm) ss"
  shows "prefix (fst (read_walk crc target mr mb hwm segs en)) (at_least target (contents ss)) \<and>
     (fst (read_walk crc target mr mb hwm segs en) = [] \<longleftrightarrow> at_least target (contents ss) = []) \<and>
     (at_least target (contents ss) = [] \<longrightarrow> segs \<noteq> [] \<longrightarrow>
        snd (read_walk crc target mr mb hwm segs en) = max en hwm)"
  using assms
proof (induction segs ss arbitrary: en rule: list_all2_induct)
  case Nil
  then show ?case by (simp add: contents_def at_least_def)
next
  case (Cons seg segs s ss)
  let ?rs = "snd s"
  have c: "contents (s # ss) = ?rs @ contents ss" by (simp add: contents_def)
  have small: "list_all (\<lambda>r. rec_size r \<le> read_window mb) ?rs" "list_all (\<lambda>r. r_offset r < hwm) ?rs"
    using Cons.prems(2) by (auto simp: c list_all_iff)
  have rf: "read_from crc seg target mr mb hwm = take mr (fill True mb 0 (at_least target ?rs))"
  proof (cases "target < hwm")
    case True
    then show ?thesis
      using read_from_records[OF _ small(1), of crc seg target mr hwm] Cons.hyps(1)
        eligible_all[OF small(2), of target]
      by (simp add: recovers_to_def at_least_def)
  next
    case False
    then have "at_least target ?rs = []"
      using small(2) by (auto simp: at_least_def filter_empty_conv list_all_iff)
    then show ?thesis using False by (simp add: read_from_def)
  qed
  show ?case
  proof (cases "at_least target ?rs = []")
    case True
    then have e: "read_from crc seg target mr mb hwm = []" by (simp add: rf)
    have b: "segs = [] \<longleftrightarrow> ss = []" using Cons.hyps(2) by (auto dest: list_all2_lengthD)
    have base: "segs \<noteq> [] \<Longrightarrow> sg_base_offset (hd segs) \<le> hwm"
      using Cons.hyps(2) Cons.prems(3) by (cases segs; cases ss) (auto simp: recovers_to_def)
    show ?thesis
    proof (cases "segs = []")
      case nil: True
      then show ?thesis using True e b by (simp add: c contents_def at_least_def)
    next
      case False
      let ?en = "max (sg_base_offset (hd segs)) en"
      have w: "read_walk crc target mr mb hwm (seg # segs) en = read_walk crc target mr mb hwm segs ?en"
        using False e by (cases segs) simp_all
      have "max ?en hwm = max en hwm" using base[OF False] by simp
      then show ?thesis
        using Cons.IH[of ?en] Cons.prems False True unfolding w by (simp add: c list_all_iff)
    qed
  next
    case False
    have "take mr (fill True mb 0 (at_least target ?rs)) \<noteq> []"
      using False Cons.prems(1) by (simp add: fill_Nil)
    moreover have "prefix (take mr (fill True mb 0 (at_least target ?rs))) (at_least target ?rs @ ys)" for ys
      using prefix_fill[of True mb 0 "at_least target ?rs"] take_is_prefix[of mr]
      by (metis prefix_order.trans prefix_prefix)
    ultimately show ?thesis using False by (simp add: rf c)
  qed
qed

lemma at_least_drop:
  assumes ch: "chained ss" and off: "list_all (\<lambda>s. offsets_ok (fst s) (snd s)) ss"
    and i: "i < length ss \<longrightarrow> fst (ss ! i) \<le> target" and li: "i \<le> length ss"
  shows "i < length ss \<Longrightarrow> at_least target (contents ss) = at_least target (contents (drop i ss))"
proof -
  assume il: "i < length ss"
  have "at_least target (contents (take i ss)) = []"
  proof -
    have "r_offset r < target" if r: "r \<in> set (contents (take i ss))" for r
    proof -
      obtain s where "s \<in> set (take i ss)" "r \<in> set (snd s)" using r by (auto simp: contents_def)
      then obtain j where j: "j < i" "r \<in> set (snd (ss ! j))"
        using il by (auto simp: in_set_conv_nth[of s])
      have "next_after (fst (ss ! j)) (snd (ss ! j)) \<le> fst (ss ! i)"
        using ch il j(1) by (auto simp: chained_def sorted_wrt_iff_nth_less)
      moreover have "r_offset r < next_after (fst (ss ! j)) (snd (ss ! j))"
        using off j il
        by (cases "snd (ss ! j)" rule: rev_cases)
          (auto simp: list_all_length offsets_ok_def sorted_wrt_append next_after_def less_Suc_eq
            dest!: spec[of _ j])
      ultimately show ?thesis using i il by simp
    qed
    then show ?thesis by (auto simp: at_least_def filter_empty_conv not_le)
  qed
  moreover have "contents ss = contents (take i ss) @ contents (drop i ss)"
    by (metis append_take_drop_id concat_append contents_def map_append)
  ultimately show ?thesis by simp
qed

lemma chained_bases: "chained ss \<Longrightarrow> i \<le> j \<Longrightarrow> j < length ss \<Longrightarrow> fst (ss ! i) \<le> fst (ss ! j)"
  by (cases "i = j") (auto simp: chained_def sorted_wrt_iff_nth_less intro: less_imp_le)

lemma recovers_offsets: "list_all2 (recovers_to crc) segs ss \<Longrightarrow> list_all (\<lambda>s. offsets_ok (fst s) (snd s)) ss"
  by (induction rule: list_all2_induct) (auto simp: recovers_to_def segment_holds_def)

lemma part_inv_bases:
  assumes "part_inv crc p ss"
  shows "list_all (\<lambda>s. fst s \<le> pt_next_offset p) ss"
proof -
  have l2: "list_all2 (recovers_to crc) (pt_segments p) ss" and ch: "chained ss" and ne: "ss \<noteq> []"
    and nx: "next_after (fst (last ss)) (snd (last ss)) \<le> pt_next_offset p"
    using assms by (simp_all add: part_inv_def part_core_def)
  have "offsets_ok (fst (last ss)) (snd (last ss))"
    using recovers_offsets[OF l2] ne by (simp add: list_all_iff)
  then have "fst (last ss) \<le> pt_next_offset p" using next_after_ge nx le_trans by blast
  moreover have "fst (ss ! i) \<le> fst (last ss)" if "i < length ss" for i
    using chained_bases[OF ch, of i "length ss - 1"] that ne by (simp add: last_conv_nth)
  ultimately show ?thesis by (auto simp: list_all_length intro: le_trans)
qed

lemma segment_index_for_ok:
  assumes l2: "list_all2 (recovers_to crc) segs ss" and ne: "ss \<noteq> []" and hd: "fst (hd ss) \<le> target"
  shows "segment_index_for segs target < length ss \<and> fst (ss ! segment_index_for segs target) \<le> target"
proof -
  let ?tw = "takeWhile (\<lambda>s. sg_base_offset s \<le> target) segs"
  have len: "length segs = length ss" and b: "\<And>i. i < length ss \<Longrightarrow> sg_base_offset (segs ! i) = fst (ss ! i)"
    using l2 by (auto simp: list_all2_conv_all_nth recovers_to_def)
  have "sg_base_offset (hd segs) \<le> target" using l2 ne hd by (cases segs; cases ss) (auto simp: recovers_to_def)
  then have "?tw \<noteq> []" using len ne by (cases segs) auto
  then have i: "length ?tw - 1 < length ?tw" by simp
  then have "length ?tw - 1 < length ss" using length_takeWhile_le[of "\<lambda>s. sg_base_offset s \<le> target" segs] len by linarith
  moreover have "sg_base_offset (segs ! (length ?tw - 1)) \<le> target"
    using nth_mem[OF i] takeWhile_nth[OF i] by (metis set_takeWhileD)
  ultimately show ?thesis using b by (simp add: segment_index_for_def)
qed

lemma read_records_raw_ok:
  assumes inv: "part_inv crc p ss" and small: "list_all (\<lambda>r. rec_size r \<le> read_window mb) (contents ss)"
    and go: "target < pt_next_offset p" "0 < mr"
    and r: "read_records_raw crc p target mr mb = (out, nxt, hwm)"
  shows "prefix out (at_least (max target (pt_start_offset p)) (contents ss))"
    "out = [] \<longleftrightarrow> at_least (max target (pt_start_offset p)) (contents ss) = []"
    "nxt = (if out = [] then hwm else r_offset (last out) + 1)" "hwm = pt_next_offset p"
proof -
  let ?t = "max target (pt_start_offset p)" and ?h = "pt_next_offset p"
  let ?i = "segment_index_for (pt_segments p) ?t"
  let ?W = "read_walk crc ?t mr mb ?h (drop ?i (pt_segments p)) ?t"
  have l2: "list_all2 (recovers_to crc) (pt_segments p) ss" and ch: "chained ss" and ne: "ss \<noteq> []"
    and st: "pt_start_offset p = fst (hd ss)" and lt: "list_all (\<lambda>r. r_offset r < ?h) (contents ss)"
    using inv by (simp_all add: part_inv_def part_core_def)
  note bases = part_inv_bases[OF inv]
  have i: "?i < length ss" "fst (ss ! ?i) \<le> ?t"
    using segment_index_for_ok[OF l2 ne, of ?t] st by simp_all
  have E: "at_least ?t (contents ss) = at_least ?t (contents (drop ?i ss))"
    using at_least_drop[OF ch recovers_offsets[OF l2], of ?i ?t] i by simp
  have "set (contents (drop ?i ss)) \<subseteq> set (contents ss)"
    by (auto simp: contents_def dest: in_set_dropD)
  then have "list_all (\<lambda>r. r_offset r < ?h \<and> rec_size r \<le> read_window mb) (contents (drop ?i ss))"
    using lt small by (auto simp: list_all_iff)
  moreover have "list_all (\<lambda>s. fst s \<le> ?h) (drop ?i ss)"
    using bases by (auto simp: list_all_iff dest: in_set_dropD)
  ultimately have W: "prefix (fst ?W) (at_least ?t (contents ss))"
    "fst ?W = [] \<longleftrightarrow> at_least ?t (contents ss) = []"
    "at_least ?t (contents ss) = [] \<longrightarrow> snd ?W = max ?t ?h"
    using read_walk_ok[OF list_all2_dropI[OF l2, of ?i] go(2), of ?h mb ?t ?t] i E
      list_all2_lengthD[OF l2] by auto
  have th: "max ?t ?h = ?h"
    using go(1) st bases ne by (auto simp: list_all_iff max_def)
  show "prefix out (at_least ?t (contents ss))" "out = [] \<longleftrightarrow> at_least ?t (contents ss) = []"
    "nxt = (if out = [] then hwm else r_offset (last out) + 1)" "hwm = pt_next_offset p"
    using r go W th by (auto simp: read_records_raw_def Let_def split: prod.splits if_splits)
qed
end
