(* ===== verification/Partition_Crash.thy ===== *)
theory Partition_Crash
  imports Partition_Safety
begin

text \<open>
  The partition across a crash and a restart, and the properties of the partition: appends refine
  the assignment of offsets, group commit makes acknowledged bytes durable, reads return the next
  records, and what was durable is what a restart finds.
\<close>

section \<open>Opening establishes the invariant\<close>

lemma contents_below_next:
  assumes ch: "chained ss" and off: "list_all (\<lambda>s. offsets_ok (fst s) (snd s)) ss" and ne: "ss \<noteq> []"
  shows "list_all (\<lambda>r. r_offset r < next_after (fst (last ss)) (snd (last ss))) (contents ss)"
proof -
  let ?n = "next_after (fst (last ss)) (snd (last ss))"
  have below: "r_offset r < next_after b rs" if "offsets_ok b rs" "r \<in> set rs" for b rs r
    using that by (cases rs rule: rev_cases)
      (auto simp: offsets_ok_def sorted_wrt_append next_after_def less_Suc_eq)
  have "r_offset r < ?n" if s: "s \<in> set ss" and r: "r \<in> set (snd s)" for s r
  proof -
    obtain i where i: "i < length ss" "ss ! i = s" using s by (auto simp: in_set_conv_nth)
    have o': "offsets_ok (fst s) (snd s)" "offsets_ok (fst (last ss)) (snd (last ss))"
      using off s ne by (auto simp: list_all_iff)
    show ?thesis
    proof (cases "i = length ss - 1")
      case True
      then have "s = last ss" using i ne by (simp add: last_conv_nth)
      then show ?thesis using below[OF o'(1) r] by simp
    next
      case False
      then have "next_after (fst s) (snd s) \<le> fst (last ss)"
        using ch i ne by (auto simp: chained_def sorted_wrt_iff_nth_less last_conv_nth)
      then show ?thesis using below[OF o'(1) r] next_after_ge[OF o'(2)] by linarith
    qed
  qed
  then show ?thesis by (auto simp: list_all_iff contents_def)
qed

lemma partition_open_ok:
  fixes d0 parse_marker
  defines "d \<equiv> sweep_compaction_tmp (finish_compaction parse_marker d0)"
  assumes listing: "sort (collect_segment_base_offsets d) = map fst ss" "ss \<noteq> []"
    and disk: "chain_on_disk crc d tail ss" "chained ss" "list_all (\<lambda>s. fst s \<le> u64_max) ss"
    and tail: "stops crc tail"
  shows "\<exists>p d'. partition_open crc parse_marker d0 sb fl = Inr (p, d') \<and> part_inv crc p ss \<and>
     dur_inv p \<and> \<not> pt_poisoned p"
proof -
  obtain rc d' where rc: "recover_partition crc parse_marker d0 = Inr (rc, d')"
    "list_all2 (recovers_to crc) (rc_segments rc) ss"
    "rc_next_offset rc = next_after (fst (last ss)) (snd (last ss))"
    "appender_ok (rc_appender rc) (last (rc_segments rc))"
    "sg_index (last (rc_segments rc)) = sparse (fst (last ss)) None 0 (snd (last ss))"
    using recover_partition_ok[of parse_marker d0 ss crc tail] listing disk tail unfolding d_def by blast
  have last: "recovers_to crc (last (rc_segments rc)) (last ss)"
    by (rule list_all2_last[OF rc(2) listing(2)])
  have start: "(case rc_segments rc of [] \<Rightarrow> 0 | s # _ \<Rightarrow> sg_base_offset s) = fst (hd ss)"
    using rc(2) listing(2) by (cases "rc_segments rc"; cases ss) (auto simp: recovers_to_def)
  have "ap_log (rc_appender rc) = sg_file (last (rc_segments rc))"
    "ap_base_offset (rc_appender rc) = fst (last ss)"
    using rc(4) last by (simp_all add: appender_ok_def recovers_to_def)
  then show ?thesis
    using rc listing disk contents_below_next[OF disk(2) recovers_offsets[OF rc(2)] listing(2)]
    by (simp add: partition_open_def part_inv_def part_core_def start dur_inv_def)
qed

text \<open>The partition a new directory opens to.\<close>

definition fresh_partition :: "nat \<Rightarrow> nat \<Rightarrow> partition" where
  "fresh_partition sb fl =
     \<lparr>pt_segment_bytes = sb, pt_next_offset = 0, pt_start_offset = 0,
      pt_segments = [segment_open_empty 0 []], pt_appender = appender_create 0 [] [],
      pt_flush_every_records = max fl 1, pt_unsynced = 0, pt_write_seq = 0,
      pt_latest = \<lparr>wm_seq = 0, wm_handle = 0\<rparr>, pt_synced = 0, pt_poisoned = False, pt_writes = [],
      pt_rolls = [], pt_syncs = [], pt_durable = (\<lambda>_. 0), pt_lost = {}, pt_stray = [], pt_issued = []\<rparr>"

lemma partition_open_empty:
  "partition_open crc pm [] sb fl =
     Inr (fresh_partition sb fl, put_appender_files (appender_create 0 [] []) [])"
  by (simp add: partition_open_def recover_partition_def sweep_compaction_tmp_def dir_get_def
      collect_segment_base_offsets_def List.map_filter_simps file_or_empty_def fresh_partition_def
      appender_create_def segment_open_empty_def Let_def)

lemma fresh_partition_ok:
  "part_inv crc (fresh_partition sb fl) [(0, [])]" "dur_inv (fresh_partition sb fl)"
  "\<not> pt_poisoned (fresh_partition sb fl)" "pt_next_offset (fresh_partition sb fl) = 0"
  using recovers_to_fresh[of crc 0] appender_ok_fresh[of 0]
  by (simp_all add: fresh_partition_def part_inv_def part_core_def chained_def contents_def dur_inv_def
      next_after_def segment_open_empty_def appender_create_def)

lemma fresh_part_ok: "part_ok crc (fresh_partition sb fl)"
  using fresh_partition_ok by (auto simp: part_ok_def)


section \<open>A crash cuts the active log\<close>

lemma torn_split:
  assumes "list_all wf_record rs"
  obtains k tail where "k \<le> length rs" "take n (records_bytes crc rs) = records_bytes crc (take k rs) @ tail"
    "stops crc tail" "total_size (take k rs) \<le> n" "k < length rs \<longrightarrow> n < total_size (take (Suc k) rs)"
  using assms
proof (induction rs arbitrary: n thesis)
  case Nil
  then show ?case using Nil.prems(1)[of 0 "[]"] by simp
next
  case (Cons r rs)
  show ?case
  proof (cases "rec_size r \<le> n")
    case True
    obtain k tail where k: "k \<le> length rs"
      "take (n - rec_size r) (records_bytes crc rs) = records_bytes crc (take k rs) @ tail"
      "stops crc tail" "total_size (take k rs) \<le> n - rec_size r"
      "k < length rs \<longrightarrow> n - rec_size r < total_size (take (Suc k) rs)"
      using Cons.IH[of "n - rec_size r"] Cons.prems(2) by auto
    moreover from this True have "rec_size r + total_size (take k rs) \<le> n"
      "k < length rs \<longrightarrow> n < rec_size r + total_size (take (Suc k) rs)" by linarith+
    ultimately show ?thesis using Cons.prems(1)[of "Suc k" tail] True by simp
  next
    case False
    then show ?thesis
      using Cons.prems(1)[of 0 "take n (encode_rec crc r)"] Cons.prems(2) stops_torn[of r n crc] by simp
  qed
qed

lemma total_size_take_mono: "j \<le> k \<Longrightarrow> total_size (take j rs) \<le> total_size (take k rs)"
  by (metis le_add1 le_Suc_ex take_add total_size_simps(3))

lemma chain_on_disk_snoc:
  "chain_on_disk crc d tail (ss @ [x]) \<longleftrightarrow>
     list_all (seg_on_disk crc d False tail) ss \<and> seg_on_disk crc d True tail x"
  by (induction ss) auto

lemma crash_recovers:
  fixes d0 parse_marker
  defines "d \<equiv> sweep_compaction_tmp (finish_compaction parse_marker d0)"
  assumes listing: "sort (collect_segment_base_offsets d) = map fst (ss @ [(b, rs)])"
    and sealed: "list_all (seg_on_disk crc d False []) ss"
    and active: "dir_get d (segment_log_name b) = Some (take n (records_bytes crc rs))"
    and ok: "fits_scan rs" "offsets_ok b rs" "chained (ss @ [(b, rs)])"
      "list_all (\<lambda>s. fst s \<le> u64_max) (ss @ [(b, rs)])"
  obtains p d' k where "partition_open crc parse_marker d0 sb fl = Inr (p, d')"
    "part_inv crc p (ss @ [(b, take k rs)])" "\<forall>j\<le>length rs. total_size (take j rs) \<le> n \<longrightarrow> j \<le> k"
    "k \<le> length rs"
proof -
  have wf: "list_all wf_record rs" using ok(1) by (auto simp: fits_scan_def list_all_iff)
  obtain k tail where k: "k \<le> length rs" "take n (records_bytes crc rs) = records_bytes crc (take k rs) @ tail"
    "stops crc tail" "total_size (take k rs) \<le> n" "k < length rs \<longrightarrow> n < total_size (take (Suc k) rs)"
    by (rule torn_split[OF wf])
  have "fits_scan (take k rs)" "offsets_ok b (take k rs)"
    using ok(1,2) by (auto simp: fits_scan_def offsets_ok_def list_all_iff sorted_wrt_take take_map[symmetric]
        dest: in_set_takeD)
  then have "seg_on_disk crc d True tail (b, take k rs)" using active k(2) by (simp add: seg_on_disk_def)
  moreover have "list_all (seg_on_disk crc d False tail) ss"
    using sealed by (simp add: seg_on_disk_def case_prod_beta list_all_iff)
  ultimately have chain: "chain_on_disk crc d tail (ss @ [(b, take k rs)])"
    by (simp add: chain_on_disk_snoc)
  have "chained (ss @ [(b, take k rs)])"
    using ok(3) by (auto simp: chained_def sorted_wrt_append)
  then obtain p d' where "partition_open crc parse_marker d0 sb fl = Inr (p, d')"
    "part_inv crc p (ss @ [(b, take k rs)])"
    using partition_open_ok[of parse_marker d0 "ss @ [(b, take k rs)]" crc tail sb fl] listing chain k(3) ok(4)
    unfolding d_def by auto
  moreover have "j \<le> k" if "total_size (take j rs) \<le> n" "j \<le> length rs" for j
  proof (rule ccontr)
    assume "\<not> j \<le> k"
    then have "Suc k \<le> j" "k < length rs" using that(2) by auto
    then show False using k(5) total_size_take_mono[of "Suc k" j rs] that(1) by linarith
  qed
  ultimately show ?thesis using that[of p d' k] k(1) by blast
qed


lemma append_batch_ok:
  assumes "part_inv crc p ss" "\<not> pt_poisoned p"
    and "list_all wf_record (snd (assign now (pt_next_offset p) rs))"
  shows "case append_batch crc now rs dur p of
      (Inr offs, p') \<Rightarrow>
         offs = fst (assign now (pt_next_offset p) rs) \<and> \<not> pt_poisoned p' \<and>
         (\<exists>ss'. part_inv crc p' ss' \<and> contents ss' = contents ss @ snd (assign now (pt_next_offset p) rs))
    | (Inl e, p') \<Rightarrow> \<exists>ss'. part_core crc p' ss' \<and>
         (list_all (\<lambda>r. ar_offset r = None) rs \<longrightarrow> part_inv crc p' ss') \<and>
         prefix (contents ss) (contents ss') \<and>
         prefix (contents ss') (contents ss @ snd (assign now (pt_next_offset p) rs))"
proof -
  let ?a = "assign now (pt_next_offset p) rs"
  obtain res p1 where a: "append_locked crc now rs p = (res, p1)" by (cases "append_locked crc now rs p")
  note L = append_locked_ok[OF assms, unfolded a]
  show ?thesis
  proof (cases res)
    case (Inl e)
    then show ?thesis using L a assms(2) by (simp add: append_batch_def)
  next
    case (Inr x)
    obtain offs fresh where x: "x = (offs, fresh)" by (cases x)
    obtain ss' where ss': "part_inv crc p1 ss'" "contents ss' = contents ss @ snd ?a" "offs = fst ?a"
      "\<not> pt_poisoned p1"
      using L Inr x by auto
    obtain sres p2 where s: "sync_upto (wm_seq (pt_latest p1)) (wm_handle (pt_latest p1)) p1 = (sres, p2)"
      by (cases "sync_upto (wm_seq (pt_latest p1)) (wm_handle (pt_latest p1)) p1")
    have p2: "part_inv crc p2 ss'" using part_inv_sync[OF ss'(1)] s by (metis snd_conv)
    have np: "sres = Inr u \<longrightarrow> \<not> pt_poisoned p2" for u
      using s ss'(4) by (auto simp: sync_upto_def Let_def split: prod.splits if_splits)
    have "part_core crc p2 ss'" using p2 by (simp add: part_inv_def)
    then show ?thesis
      using ss' p2 np a Inr x s assms(2) by (cases sres) (auto simp: append_batch_def Let_def)
  qed
qed


section \<open>Properties\<close>

text \<open>C1: an append does what the assignment of offsets says, with faults at any write, roll or fsync. It
  answers the offsets of \<open>assign\<close> and adds exactly its records behind the old contents, keeping
  the invariant; or it fails, and then what it added is a prefix of those records, the old
  contents are untouched, and without explicit offsets the full invariant still holds.\<close>

theorem append_batch_refines:
  assumes "part_inv crc p ss" "\<not> pt_poisoned p"
    and "list_all wf_record (snd (assign now (pt_next_offset p) rs))"
  shows "case append_batch crc now rs dur p of
      (Inr offs, p') \<Rightarrow>
         offs = fst (assign now (pt_next_offset p) rs) \<and> \<not> pt_poisoned p' \<and>
         (\<exists>ss'. part_inv crc p' ss' \<and> contents ss' = contents ss @ snd (assign now (pt_next_offset p) rs))
    | (Inl e, p') \<Rightarrow> \<exists>ss'. part_core crc p' ss' \<and>
         (list_all (\<lambda>r. ar_offset r = None) rs \<longrightarrow> part_inv crc p' ss') \<and>
         prefix (contents ss) (contents ss') \<and>
         prefix (contents ss') (contents ss @ snd (assign now (pt_next_offset p) rs))"
  using assms by (rule append_batch_ok)

definition plain_record :: "u8 list \<Rightarrow> append_record" where
  "plain_record v = \<lparr>ar_key = None, ar_value = v, ar_timestamp_ms = Some 5, ar_offset = None\<rparr>"

lemma plain_records_wf:
  "list_all wf_record (snd (assign 0 0 [plain_record [1], plain_record [2, 3]]))"
  by (simp add: plain_record_def wf_record_def rec_size_eq key_bytes_len_def record_consts)

theorem append_batch_refines_witness:
  "case append_batch (\<lambda>_. 3) 0 [plain_record [1], plain_record [2, 3]] Policy (fresh_partition 40 1) of
     (Inr offs, p') \<Rightarrow> offs = [0, 1] \<and> \<not> pt_poisoned p'
   | (Inl e, p') \<Rightarrow> \<exists>ss'. part_core (\<lambda>_. 3) p' ss'"
proof -
  have "list_all wf_record (snd (assign 0 (pt_next_offset (fresh_partition 40 1)) [plain_record [1], plain_record [2, 3]]))"
    using plain_records_wf by (simp add: fresh_partition_ok)
  from append_batch_refines[OF fresh_partition_ok(1,3) this, of "\<lambda>_. 3" Policy]
  show ?thesis
    by (auto simp: fresh_partition_ok plain_record_def split: sum.splits prod.splits)
qed


text \<open>Two records, each in a segment of its own, with the fsync of the second one failing.\<close>

definition two_records :: "append_record list" where
  "two_records = [plain_record [1], plain_record [2]]"

definition two_appends :: "partition" where
  "two_appends = snd (append_locked (\<lambda>_. 3) 0 two_records (fresh_partition 40 1))"

lemmas append_steps = append_locked_def fresh_partition_def place_record_def plain_record_def appender_create_def
  empty_batch_def record_disk_size_def record_consts add_record_def index_wants_def commit_batch_def pop_def io_fine_def
  write_batch_def set_appender_def encode_record_def length_encode_payload key_bytes_len_def

lemma two_appends_eq:
  "fst (append_locked (\<lambda>_. 3) 0 two_records (fresh_partition 40 1)) = Inr ([0, 1], 2)"
  "map sg_base_offset (pt_segments two_appends) = [0, 1]" "pt_issued two_appends = [(2, Suc 0, 33), (Suc 0, 0, 33)]"
  "pt_synced two_appends = 0" "pt_durable two_appends (Suc 0) = 0" "pt_lost two_appends = {}" "\<not> pt_poisoned two_appends"
  "pt_latest two_appends = \<lparr>wm_seq = 2, wm_handle = Suc 0\<rparr>" "pt_next_offset two_appends = 2" "pt_start_offset two_appends = 0"
  by (simp_all add: two_appends_def two_records_def append_steps roll_def fsync_def file_length_def publish_def observe_timestamp_def
      segment_open_empty_def update_last_def index_push_def Let_def)

lemma two_records_wf: "list_all wf_record (snd (assign 0 0 two_records))"
  by (simp add: two_records_def plain_record_def wf_record_def rec_size_eq key_bytes_len_def record_consts)

lemma two_appends_reached: "(pstep (\<lambda>_. 3))\<^sup>*\<^sup>* (fresh_partition 40 1) two_appends"
  unfolding two_appends_def
  by (rule r_into_rtranclp, rule step_append) (use two_records_wf in \<open>simp_all add: fresh_partition_ok two_records_def plain_record_def\<close>)

lemma two_appends_inv:
  obtains ss where "part_inv (\<lambda>_. 3) two_appends ss" "contents ss = snd (assign 0 0 two_records)" "map fst ss = [0, 1]"
proof -
  obtain q where q: "append_locked (\<lambda>_. 3) 0 two_records (fresh_partition 40 1) = (Inr ([0, 1], 2), two_appends)"
    using two_appends_eq(1) by (metis prod.collapse two_appends_def)
  obtain ss where ss: "part_inv (\<lambda>_. 3) two_appends ss" "contents ss = snd (assign 0 0 two_records)"
    using append_locked_ok[OF fresh_partition_ok(1,3), of 0 40 1 two_records "\<lambda>_. 3", unfolded q] two_records_wf
    by (auto simp: fresh_partition_ok(4) contents_def)
  have "list_all2 (recovers_to (\<lambda>_. 3)) (pt_segments two_appends) ss" using ss(1) by (simp add: part_inv_def part_core_def)
  then have "map fst ss = map sg_base_offset (pt_segments two_appends)"
    by (induction rule: list_all2_induct) (auto simp: recovers_to_def)
  then show thesis using that ss two_appends_eq(2) by simp
qed

definition sync_failed :: "partition" where
  "sync_failed = snd (sync_upto 2 1 (two_appends\<lparr>pt_writes := [], pt_rolls := [], pt_syncs := [False]\<rparr>))"

lemma sync_failed_eq: "sync_upto 2 1 (two_appends\<lparr>pt_writes := [], pt_rolls := [], pt_syncs := [False]\<rparr>) = (Inl SyncFailed, sync_failed)"
  "pt_poisoned sync_failed" "pt_lost sync_failed = {Suc 0}" "pt_syncs sync_failed = []" "pt_durable sync_failed (Suc 0) = 0"
  "pt_issued sync_failed = [(2, Suc 0, 33), (Suc 0, 0, 33)]" "pt_synced sync_failed = 0"
  by (simp_all add: sync_failed_def sync_upto_def two_appends_eq pop_def Let_def fsync_fails_def)

lemma two_appends_sync_fails_reached:
  "(pstep (\<lambda>_. 3))\<^sup>*\<^sup>* (fresh_partition 40 1) (two_appends\<lparr>pt_writes := [], pt_rolls := [], pt_syncs := [False]\<rparr>)"
  using two_appends_reached step_faults by (rule rtranclp.rtrancl_into_rtrancl)

lemma sync_failed_reached: "(pstep (\<lambda>_. 3))\<^sup>*\<^sup>* (fresh_partition 40 1) sync_failed"
proof -
  have "pstep (\<lambda>_. 3) (two_appends\<lparr>pt_writes := [], pt_rolls := [], pt_syncs := [False]\<rparr>) sync_failed"
    unfolding sync_failed_def by (rule step_sync[where n = 33]) (simp add: two_appends_eq)
  then show ?thesis by (rule rtranclp.rtrancl_into_rtrancl[OF two_appends_sync_fails_reached])
qed


text \<open>C3: group commit, for a partition without Raft. In every reachable state, when \<open>sync_upto\<close> reports success
  for the mark an append was given and no fsync of that segment has failed before, all log bytes
  that append had written are on stable storage, even if another caller's fsync did the work or
  the segment was sealed in between.\<close>

theorem group_commit_durable:
  assumes "(pstep crc)\<^sup>*\<^sup>* (fresh_partition sb fl) p" "(s, h, n) \<in> set (pt_issued p)" "h \<notin> pt_lost p"
    and "sync_upto s h p = (Inr (), p')"
  shows "n \<le> pt_durable p' h"
proof -
  have dur: "dur_inv p" using psteps_ok[OF assms(1) fresh_part_ok] by (simp add: part_ok_def)
  have "dur_inv p'" "s \<le> pt_synced p'" "(s, h, n) \<in> set (pt_issued p')"
    using sync_upto_dur[OF dur assms(2)] assms(2,4) sync_upto_fields(5)[of s h p] by simp_all
  moreover have "h \<notin> pt_lost p'"
    using assms(3,4) by (auto simp: sync_upto_def Let_def split: if_splits prod.splits)
  ultimately show ?thesis by (auto simp: dur_inv_def list_all_iff mark_ok_def)
qed

theorem group_commit_durable_witness:
  "33 \<le> pt_durable (snd (sync_upto 2 1 two_appends)) 1 \<and> 33 \<le> pt_durable (snd (sync_upto 1 0 sync_failed)) 0"
proof
  have "sync_upto 2 1 two_appends = (Inr (), snd (sync_upto 2 1 two_appends))"
    by (simp add: sync_upto_def two_appends_eq pop_def Let_def) (simp add: two_appends_def two_records_def append_steps roll_def fsync_def Let_def)
  from group_commit_durable[OF two_appends_reached _ _ this] show "33 \<le> pt_durable (snd (sync_upto 2 1 two_appends)) 1"
    by (simp add: two_appends_eq)
  have "sync_upto 1 0 sync_failed = (Inr (), snd (sync_upto 1 0 sync_failed))"
    by (simp add: sync_upto_def sync_failed_eq pop_def Let_def)
  from group_commit_durable[OF sync_failed_reached _ _ this] show "33 \<le> pt_durable (snd (sync_upto 1 0 sync_failed)) 0"
    by (simp add: sync_failed_eq)
qed

text \<open>C4: the gap in group commit. When an fsync fails, the partition is fenced, but \<open>sync_upto\<close> does not look
  at the fence: the next caller that waits for a write to the same file calls fsync again, and if
  that call returns success it is told that its write is durable, although nothing written since
  the last good fsync is.\<close>

theorem fsync_after_failure_acknowledges_lost_write:
  assumes "(pstep crc)\<^sup>*\<^sup>* (fresh_partition sb fl) p" "(s, h, n) \<in> set (pt_issued p)" "(s2, h, n2) \<in> set (pt_issued p)"
    and "pt_synced p < s2" "pt_durable p h < n2"
    and "sync_upto s h p = (Inl SyncFailed, p1)" "fst (pop True (pt_syncs p1))"
  shows "\<exists>p2. sync_upto s2 h p1 = (Inr (), p2) \<and> s2 \<le> pt_synced p2 \<and> pt_durable p2 h < n2"
proof -
  have "dur_inv p" using psteps_ok[OF assms(1) fresh_part_ok] by (simp add: part_ok_def)
  then have dur: "dur_inv p1" using sync_upto_dur[OF _ assms(2)] assms(6) by simp
  have p1: "pt_lost p1 = insert h (pt_lost p)" "pt_synced p1 = pt_synced p" "pt_durable p1 = pt_durable p" "pt_issued p1 = pt_issued p"
    using assms(6) by (auto simp: sync_upto_def Let_def split: if_splits prod.splits)
  obtain r p2 where u: "sync_upto s2 h p1 = (r, p2)" by (cases "sync_upto s2 h p1")
  have r: "r = Inr ()" "pt_durable p2 h = pt_durable p h"
    using u p1 assms(4,7) by (auto simp: sync_upto_def Let_def fsync_def split: prod.splits if_splits)
  moreover have "s2 \<le> pt_synced p2" using sync_upto_dur[OF dur, of s2 h n2] u assms(3) p1(4) r(1) by simp
  ultimately show ?thesis using u assms(5) by simp
qed

theorem fsync_after_failure_acknowledges_lost_write_witness:
  "\<exists>p2. sync_upto 2 1 sync_failed = (Inr (), p2) \<and> 2 \<le> pt_synced p2 \<and> pt_durable p2 1 < 33"
  by (rule fsync_after_failure_acknowledges_lost_write[OF two_appends_sync_fails_reached _ _ _ _ sync_failed_eq(1)])
    (simp_all add: two_appends_eq sync_failed_eq pop_def)

text \<open>C6: reading a partition. Below the high watermark a read returns a prefix of the records at or
  above the requested offset (or above the start of the log, when retention has moved it), returns
  something whenever there is any, and the offset to continue from is the one behind the last
  record returned, so following it neither skips nor repeats a record. The condition is that no
  record exceeds the read window, which lies between 16 KiB and 4 MiB.\<close>

theorem read_records_correct:
  assumes "part_inv crc p ss" "list_all (\<lambda>r. rec_size r \<le> read_window mb) (contents ss)"
    and "target < pt_next_offset p" "0 < mr"
    and "read_records_raw crc p target mr mb = (out, nxt, hwm)"
  shows "prefix out (at_least (max target (pt_start_offset p)) (contents ss)) \<and>
    (out = [] \<longleftrightarrow> at_least (max target (pt_start_offset p)) (contents ss) = []) \<and>
    nxt = (if out = [] then hwm else r_offset (last out) + 1) \<and> hwm = pt_next_offset p"
  using read_records_raw_ok[OF assms] by blast

theorem read_records_correct_witness:
  "\<exists>out nxt hwm. read_records_raw (\<lambda>_. 3) two_appends 1 10 100 = (out, nxt, hwm) \<and> map r_value out = [[2]] \<and> nxt = 2 \<and> hwm = 2"
proof -
  obtain out nxt hwm where r: "read_records_raw (\<lambda>_. 3) two_appends 1 10 100 = (out, nxt, hwm)" by (metis prod_cases3)
  obtain ss where ss: "part_inv (\<lambda>_. 3) two_appends ss" "contents ss = snd (assign 0 0 two_records)" by (rule two_appends_inv)
  have A: "at_least (max 1 (pt_start_offset two_appends)) (contents ss) = [\<lparr>r_offset = 1, r_timestamp_ms = 5, r_key = None, r_value = [2]\<rparr>]"
    unfolding ss(2) by (simp add: two_records_def plain_record_def at_least_def two_appends_eq)
  have "list_all (\<lambda>r. rec_size r \<le> read_window 100) (contents ss)"
    unfolding ss(2) by (simp add: two_records_def plain_record_def rec_size_eq key_bytes_len_def read_window_def le_max_iff_disj)
  from read_records_correct[OF ss(1) this _ _ r, unfolded A] show ?thesis
    using r by (auto simp: two_appends_eq prefix_Cons)
qed

text \<open>C2: what a crash leaves is what a restart serves. Cut the active log at any byte at or beyond the
  durable ones, keep the sealed files, which a roll has synced before it goes on, and reopen, with
  every record within the 256 KiB scan window: recovery succeeds, the sealed segments are
  served in full, the active one serves a prefix of its records, and that prefix contains every
  record that lies within the durable bytes. Larger records are lost, see
  \<open>recovery_drops_large_record\<close>.\<close>

theorem crash_keeps_durable_records:
  fixes d0 parse_marker
  defines "d \<equiv> sweep_compaction_tmp (finish_compaction parse_marker d0)"
  assumes inv: "part_inv crc p (ss @ [(b, rs)])" "\<not> pt_poisoned p"
    and listing: "sort (collect_segment_base_offsets d) = map fst (ss @ [(b, rs)])"
    and sealed: "list_all (seg_on_disk crc d False []) ss"
    and active: "dir_get d (segment_log_name b) = Some (take n (ap_log (pt_appender p)))"
      "pt_durable p b \<le> n"
    and fits: "fits_scan rs" "list_all (\<lambda>s. fst s \<le> u64_max) (ss @ [(b, rs)])"
  shows "\<exists>p' d' k. partition_open crc parse_marker d0 sb fl = Inr (p', d') \<and>
     part_inv crc p' (ss @ [(b, take k rs)]) \<and>
     (\<forall>j\<le>length rs. total_size (take j rs) \<le> pt_durable p b \<longrightarrow> j \<le> k)"
proof -
  have core: "part_core crc p (ss @ [(b, rs)])" using inv by (simp add: part_inv_def)
  have rec: "recovers_to crc (last (pt_segments p)) (b, rs)"
    and app: "appender_ok (pt_appender p) (last (pt_segments p))" and ch: "chained (ss @ [(b, rs)])"
    using core inv(2) list_all2_last[of "recovers_to crc" "pt_segments p" "ss @ [(b, rs)]"]
    by (simp_all add: part_core_def)
  note log = active_log(1)[OF rec app]
  have off: "offsets_ok b rs" using rec by (auto simp: recovers_to_def segment_holds_def)
  obtain p' d' k where "partition_open crc parse_marker d0 sb fl = Inr (p', d')"
    "part_inv crc p' (ss @ [(b, take k rs)])" "\<forall>j\<le>length rs. total_size (take j rs) \<le> n \<longrightarrow> j \<le> k"
    by (rule crash_recovers[OF listing[unfolded d_def] sealed[unfolded d_def]
          active(1)[unfolded d_def log] fits(1) off ch fits(2)])
  then show ?thesis using active(2) le_trans by blast
qed

theorem crash_keeps_durable_records_witness:
  "\<exists>p p' d' k. part_inv (\<lambda>_. 3) p [(5, [sample_rec5])] \<and>
     partition_open (\<lambda>_. 3) (\<lambda>_. None) [(segment_log_name 5, take 20 (encode_rec (\<lambda>_. 3) sample_rec5))] 100 1
       = Inr (p', d') \<and> part_inv (\<lambda>_. 3) p' [(5, take k [sample_rec5])]"
proof -
  let ?crc = "\<lambda>_ :: u8 list. 3 :: 32 word" and ?pm = "\<lambda>_ :: u8 list. None :: compaction_marker option"
  let ?f = "encode_rec ?crc sample_rec5"
  have d: "sweep_compaction_tmp (finish_compaction ?pm [(segment_log_name 5, f)]) = [(segment_log_name 5, f)]"
    "collect_segment_base_offsets [(segment_log_name 5, f)] = [5]" for f
    by (rule single_log_dir; simp)+
  have "chain_on_disk ?crc [(segment_log_name 5, ?f)] [] [(5, [sample_rec5])]"
    using sample_rec5_ok by (simp add: seg_on_disk_def dir_get_def)
  then obtain p d1 where open1: "partition_open ?crc ?pm [(segment_log_name 5, ?f)] 100 1 = Inr (p, d1)"
    and p: "part_inv ?crc p ([] @ [(5, [sample_rec5])])" "\<not> pt_poisoned p"
    using partition_open_ok[of ?pm "[(segment_log_name 5, ?f)]" "[(5, [sample_rec5])]" ?crc "[]" 100 1, unfolded d]
    by (auto simp: chained_def)
  have dur: "pt_durable p 5 = 0"
    using open1 by (auto simp: partition_open_def split: sum.splits prod.splits)
  have core: "part_core ?crc p [(5, [sample_rec5])]" using p by (simp add: part_inv_def)
  have "ap_log (pt_appender p) = records_bytes ?crc [sample_rec5]"
    using core p(2) list_all2_last[of "recovers_to ?crc" "pt_segments p" "[(5, [sample_rec5])]"]
    by (intro active_log(1)[of ?crc "last (pt_segments p)" 5]) (simp_all add: part_core_def)
  then have log: "ap_log (pt_appender p) = ?f" by simp
  show ?thesis
    using crash_keeps_durable_records[OF p, where parse_marker = ?pm and n = 20
        and ?d0.0 = "[(segment_log_name 5, take 20 ?f)]" and sb = 100 and fl = 1, unfolded d] p dur log sample_rec5_ok
    by (auto simp: dir_get_def)
qed

text \<open>C8: replaying what is already applied changes nothing. A batch whose explicit offsets all lie below
  the end of the log, which is how a replica re-applies its Raft log after a restart, is answered
  with those offsets and leaves the partition exactly as it was.\<close>

theorem replay_is_idempotent:
  assumes "\<not> pt_poisoned p" "list_all (\<lambda>r. \<exists>o'. ar_offset r = Some o' \<and> o' < pt_next_offset p) rs"
  shows "append_batch crc now rs dur p = (Inr (map (the \<circ> ar_offset) rs), p)"
proof -
  have "append_loop crc now rs (pt_next_offset p) b offs fresh p = (Inr (offs @ map (the \<circ> ar_offset) rs, b, fresh), p)"
    for b offs fresh
    using assms(2) by (induction rs arbitrary: offs) auto
  then show ?thesis
    using assms(1) by (simp add: append_batch_def append_locked_def commit_batch_def empty_batch_def)
qed

theorem replay_is_idempotent_witness:
  "append_batch (\<lambda>_. 3) 0 [\<lparr>ar_key = None, ar_value = [1], ar_timestamp_ms = None, ar_offset = Some 4\<rparr>] Policy
     (advance_to 7 (fresh_partition 40 1)) = (Inr [4], advance_to 7 (fresh_partition 40 1))"
proof -
  let ?r = "\<lparr>ar_key = None, ar_value = [1], ar_timestamp_ms = None, ar_offset = Some 4\<rparr> :: append_record"
  let ?p = "advance_to 7 (fresh_partition 40 1)"
  have "append_batch (\<lambda>_. 3) 0 [?r] Policy ?p = (Inr (map (the \<circ> ar_offset) [?r]), ?p)"
    by (rule replay_is_idempotent) (simp_all add: advance_to_def fresh_partition_def)
  then show ?thesis by (simp only: list.map comp_apply append_record.simps option.sel)
qed

text \<open>C7: dropping sealed segments removes exactly the segments that were named and lie below the active
  one. The records of all others stay, in order, as does the active segment, both invariants
  hold, and the log starts at the base of the first segment left.\<close>

theorem unlink_plan_correct:
  assumes "part_inv crc p ss" "dur_inv p" "unlink_plan vs p = (bases, p')"
  shows "bases = filter (\<lambda>b. b \<in> set vs \<and> b < fst (last ss)) (map fst ss) \<and>
     part_inv crc p' (filter (\<lambda>x. \<not> (fst x \<in> set vs \<and> fst x < fst (last ss))) ss) \<and> dur_inv p'"
  using unlink_plan_ok[OF assms(1,2) refl, of vs] assms(3) by simp

theorem unlink_plan_correct_witness:
  "fst (unlink_plan [0, 1] two_appends) = [0] \<and>
   (\<exists>ss. part_inv (\<lambda>_. 3) (snd (unlink_plan [0, 1] two_appends)) ss \<and> map r_value (contents ss) = [[2]])"
proof -
  obtain ss where ss: "part_inv (\<lambda>_. 3) two_appends ss" "contents ss = snd (assign 0 0 two_records)" "map fst ss = [0, 1]"
    by (rule two_appends_inv)
  have dur: "dur_inv two_appends" using psteps_ok[OF two_appends_reached fresh_part_ok] by (simp add: part_ok_def)
  obtain bases q where u: "unlink_plan [0, 1] two_appends = (bases, q)" by (cases "unlink_plan [0, 1] two_appends")
  obtain rs0 rs1 where e: "ss = [(0, rs0), (1, rs1)]" using ss(3) by (auto simp: map_eq_Cons_conv)
  have rs: "rs0 @ rs1 = snd (assign 0 0 two_records)" using ss(2) by (simp add: e contents_def)
  have "list_all (\<lambda>s. offsets_ok (fst s) (snd s)) ss" "chained ss"
    using ss(1) recovers_offsets by (auto simp: part_inv_def part_core_def)
  then have o': "offsets_ok 1 rs1" "next_after 0 rs0 \<le> 1" by (simp_all add: e chained_def)
  have "map r_value rs1 = [[2]]"
    using rs o' by (cases rs0) (auto simp: two_records_def plain_record_def offsets_ok_def next_after_def append_eq_Cons_conv split: if_splits)
  then show ?thesis
    unfolding u using unlink_plan_correct[OF ss(1) dur u] by (auto simp: e contents_def)
qed

end
