(* ===== verification/Raft_Messages.thy ===== *)
theory Raft_Messages
  imports ES_Prelude
begin

text \<open>
  The Raft RPC messages of \<open>raft/messages.rs\<close> and their wire format. Node ids are 32-bit numbers,
  terms and log indices 64-bit ones; \<open>encode_message\<close> is \<open>Message::encode\<close> and \<open>decode_message\<close>
  is \<open>Message::decode\<close>. The pre-allocation hints of the decoder (\<open>cap_hint\<close>) have no effect on
  what it returns and are left out.
\<close>

type_synonym node_id = nat
type_synonym raft_term = nat
type_synonym log_index = nat

section \<open>Data\<close>

record log_entry =
  le_term :: raft_term
  le_index :: log_index
  le_payload :: "u8 list"

record request_vote =
  rv_term :: raft_term
  rv_candidate_id :: node_id
  rv_last_log_index :: log_index
  rv_last_log_term :: raft_term

record request_vote_resp =
  rvr_term :: raft_term
  rvr_vote_granted :: bool
  rvr_voter_id :: node_id

record append_entries =
  ae_term :: raft_term
  ae_leader_id :: node_id
  ae_prev_log_index :: log_index
  ae_prev_log_term :: raft_term
  ae_entries :: "log_entry list"
  ae_leader_commit :: log_index

record append_entries_resp =
  aer_term :: raft_term
  aer_success :: bool
  aer_responder_id :: node_id
  aer_match_index :: log_index

record install_snapshot_msg =
  is_term :: raft_term
  is_leader_id :: node_id
  is_last_index :: log_index
  is_last_term :: raft_term
  is_offset :: nat
  is_done :: bool
  is_data :: "u8 list"

record install_snapshot_resp =
  isr_term :: raft_term
  isr_success :: bool
  isr_responder_id :: node_id
  isr_next_offset :: nat
  isr_installed_index :: log_index

datatype message =
    RequestVote request_vote
  | RequestVoteResp request_vote_resp
  | AppendEntries append_entries
  | AppendEntriesResp append_entries_resp
  | InstallSnapshot install_snapshot_msg
  | InstallSnapshotResp install_snapshot_resp

definition TAG_REQUEST_VOTE :: nat where "TAG_REQUEST_VOTE = 1"
definition TAG_REQUEST_VOTE_RESP :: nat where "TAG_REQUEST_VOTE_RESP = 2"
definition TAG_APPEND_ENTRIES :: nat where "TAG_APPEND_ENTRIES = 3"
definition TAG_APPEND_ENTRIES_RESP :: nat where "TAG_APPEND_ENTRIES_RESP = 4"
definition TAG_INSTALL_SNAPSHOT :: nat where "TAG_INSTALL_SNAPSHOT = 5"
definition TAG_INSTALL_SNAPSHOT_RESP :: nat where "TAG_INSTALL_SNAPSHOT_RESP = 6"

lemmas tag_defs = TAG_REQUEST_VOTE_def TAG_REQUEST_VOTE_RESP_def TAG_APPEND_ENTRIES_def
  TAG_APPEND_ENTRIES_RESP_def TAG_INSTALL_SNAPSHOT_def TAG_INSTALL_SNAPSHOT_RESP_def

definition PROBE_OFFSET :: nat where "PROBE_OFFSET = u64_max"

definition is_probe :: "install_snapshot_msg \<Rightarrow> bool" where
  "is_probe m \<longleftrightarrow> is_offset m = PROBE_OFFSET \<and> is_data m = [] \<and> \<not> is_done m"

fun msg_term :: "message \<Rightarrow> raft_term" where
  "msg_term (RequestVote m) = rv_term m"
| "msg_term (RequestVoteResp m) = rvr_term m"
| "msg_term (AppendEntries m) = ae_term m"
| "msg_term (AppendEntriesResp m) = aer_term m"
| "msg_term (InstallSnapshot m) = is_term m"
| "msg_term (InstallSnapshotResp m) = isr_term m"

fun msg_sender :: "message \<Rightarrow> node_id" where
  "msg_sender (RequestVote m) = rv_candidate_id m"
| "msg_sender (RequestVoteResp m) = rvr_voter_id m"
| "msg_sender (AppendEntries m) = ae_leader_id m"
| "msg_sender (AppendEntriesResp m) = aer_responder_id m"
| "msg_sender (InstallSnapshot m) = is_leader_id m"
| "msg_sender (InstallSnapshotResp m) = isr_responder_id m"


section \<open>Wire format\<close>

definition put_entry :: "log_entry \<Rightarrow> u8 list" where
  "put_entry e = be_bytes 8 (le_term e) @ be_bytes 8 (le_index e) @ be_bytes 4 (length (le_payload e)) @ le_payload e"

fun encode_message :: "message \<Rightarrow> u8 list" where
  "encode_message (RequestVote m) =
     be_bytes 1 TAG_REQUEST_VOTE @ be_bytes 8 (rv_term m) @ be_bytes 4 (rv_candidate_id m) @
     be_bytes 8 (rv_last_log_index m) @ be_bytes 8 (rv_last_log_term m)"
| "encode_message (RequestVoteResp m) =
     be_bytes 1 TAG_REQUEST_VOTE_RESP @ be_bytes 8 (rvr_term m) @ put_bool (rvr_vote_granted m) @
     be_bytes 4 (rvr_voter_id m)"
| "encode_message (AppendEntries m) =
     be_bytes 1 TAG_APPEND_ENTRIES @ be_bytes 8 (ae_term m) @ be_bytes 4 (ae_leader_id m) @
     be_bytes 8 (ae_prev_log_index m) @ be_bytes 8 (ae_prev_log_term m) @
     be_bytes 4 (length (ae_entries m)) @ concat (map put_entry (ae_entries m)) @
     be_bytes 8 (ae_leader_commit m)"
| "encode_message (AppendEntriesResp m) =
     be_bytes 1 TAG_APPEND_ENTRIES_RESP @ be_bytes 8 (aer_term m) @ put_bool (aer_success m) @
     be_bytes 4 (aer_responder_id m) @ be_bytes 8 (aer_match_index m)"
| "encode_message (InstallSnapshot m) =
     be_bytes 1 TAG_INSTALL_SNAPSHOT @ be_bytes 8 (is_term m) @ be_bytes 4 (is_leader_id m) @
     be_bytes 8 (is_last_index m) @ be_bytes 8 (is_last_term m) @ be_bytes 8 (is_offset m) @
     put_bool (is_done m) @ be_bytes 4 (length (is_data m)) @ is_data m"
| "encode_message (InstallSnapshotResp m) =
     be_bytes 1 TAG_INSTALL_SNAPSHOT_RESP @ be_bytes 8 (isr_term m) @ put_bool (isr_success m) @
     be_bytes 4 (isr_responder_id m) @ be_bytes 8 (isr_next_offset m) @ be_bytes 8 (isr_installed_index m)"

definition rd_entry :: "log_entry reader" where
  "rd_entry = rbind rd_u64 (\<lambda>t. rbind rd_u64 (\<lambda>i. rbind rd_u32 (\<lambda>len. rbind (rd_bytes len) (\<lambda>p.
     rret \<lparr>le_term = t, le_index = i, le_payload = p\<rparr>))))"

definition rd_request_vote :: "message reader" where
  "rd_request_vote = rbind rd_u64 (\<lambda>t. rbind rd_u32 (\<lambda>c. rbind rd_u64 (\<lambda>i. rbind rd_u64 (\<lambda>lt.
     rret (RequestVote \<lparr>rv_term = t, rv_candidate_id = c, rv_last_log_index = i, rv_last_log_term = lt\<rparr>)))))"

definition rd_request_vote_resp :: "message reader" where
  "rd_request_vote_resp = rbind rd_u64 (\<lambda>t. rbind rd_bool (\<lambda>g. rbind rd_u32 (\<lambda>v.
     rret (RequestVoteResp \<lparr>rvr_term = t, rvr_vote_granted = g, rvr_voter_id = v\<rparr>))))"

definition rd_append_entries :: "message reader" where
  "rd_append_entries = rbind rd_u64 (\<lambda>t. rbind rd_u32 (\<lambda>l. rbind rd_u64 (\<lambda>pi. rbind rd_u64 (\<lambda>pt.
     rbind rd_u32 (\<lambda>n. rbind (rd_times n rd_entry) (\<lambda>es. rbind rd_u64 (\<lambda>c.
     rret (AppendEntries \<lparr>ae_term = t, ae_leader_id = l, ae_prev_log_index = pi, ae_prev_log_term = pt,
       ae_entries = es, ae_leader_commit = c\<rparr>))))))))"

definition rd_append_entries_resp :: "message reader" where
  "rd_append_entries_resp = rbind rd_u64 (\<lambda>t. rbind rd_bool (\<lambda>s. rbind rd_u32 (\<lambda>r. rbind rd_u64 (\<lambda>m.
     rret (AppendEntriesResp \<lparr>aer_term = t, aer_success = s, aer_responder_id = r, aer_match_index = m\<rparr>)))))"

definition rd_install_snapshot :: "message reader" where
  "rd_install_snapshot = rbind rd_u64 (\<lambda>t. rbind rd_u32 (\<lambda>l. rbind rd_u64 (\<lambda>li. rbind rd_u64 (\<lambda>lt.
     rbind rd_u64 (\<lambda>off. rbind rd_bool (\<lambda>d. rbind rd_u32 (\<lambda>n. rbind (rd_bytes n) (\<lambda>bs.
     rret (InstallSnapshot \<lparr>is_term = t, is_leader_id = l, is_last_index = li, is_last_term = lt,
       is_offset = off, is_done = d, is_data = bs\<rparr>)))))))))"

definition rd_install_snapshot_resp :: "message reader" where
  "rd_install_snapshot_resp = rbind rd_u64 (\<lambda>t. rbind rd_bool (\<lambda>s. rbind rd_u32 (\<lambda>r. rbind rd_u64 (\<lambda>no.
     rbind rd_u64 (\<lambda>ii. rret (InstallSnapshotResp \<lparr>isr_term = t, isr_success = s, isr_responder_id = r,
       isr_next_offset = no, isr_installed_index = ii\<rparr>))))))"

definition rd_message :: "message reader" where
  "rd_message = rbind rd_u8 (\<lambda>tag.
     if tag = TAG_REQUEST_VOTE then rd_request_vote
     else if tag = TAG_REQUEST_VOTE_RESP then rd_request_vote_resp
     else if tag = TAG_APPEND_ENTRIES then rd_append_entries
     else if tag = TAG_APPEND_ENTRIES_RESP then rd_append_entries_resp
     else if tag = TAG_INSTALL_SNAPSHOT then rd_install_snapshot
     else if tag = TAG_INSTALL_SNAPSHOT_RESP then rd_install_snapshot_resp
     else rfail InvalidData)"

definition decode_message :: "u8 list \<Rightarrow> io_error + message" where
  "decode_message bs =
     (if bs = [] then Inl InvalidData
      else case rd_message bs of Inl e \<Rightarrow> Inl e | Inr (m, _) \<Rightarrow> Inr m)"


section \<open>Reading back what was written\<close>

definition wf_entry :: "log_entry \<Rightarrow> bool" where
  "wf_entry e \<longleftrightarrow> le_term e < 2 ^ 64 \<and> le_index e < 2 ^ 64 \<and> length (le_payload e) < 2 ^ 32"

fun wf_message :: "message \<Rightarrow> bool" where
  "wf_message (RequestVote m) \<longleftrightarrow> rv_term m < 2 ^ 64 \<and> rv_candidate_id m < 2 ^ 32 \<and>
     rv_last_log_index m < 2 ^ 64 \<and> rv_last_log_term m < 2 ^ 64"
| "wf_message (RequestVoteResp m) \<longleftrightarrow> rvr_term m < 2 ^ 64 \<and> rvr_voter_id m < 2 ^ 32"
| "wf_message (AppendEntries m) \<longleftrightarrow> ae_term m < 2 ^ 64 \<and> ae_leader_id m < 2 ^ 32 \<and>
     ae_prev_log_index m < 2 ^ 64 \<and> ae_prev_log_term m < 2 ^ 64 \<and>
     length (ae_entries m) < 2 ^ 32 \<and> list_all wf_entry (ae_entries m) \<and> ae_leader_commit m < 2 ^ 64"
| "wf_message (AppendEntriesResp m) \<longleftrightarrow> aer_term m < 2 ^ 64 \<and> aer_responder_id m < 2 ^ 32 \<and> aer_match_index m < 2 ^ 64"
| "wf_message (InstallSnapshot m) \<longleftrightarrow> is_term m < 2 ^ 64 \<and> is_leader_id m < 2 ^ 32 \<and>
     is_last_index m < 2 ^ 64 \<and> is_last_term m < 2 ^ 64 \<and> is_offset m < 2 ^ 64 \<and> length (is_data m) < 2 ^ 32"
| "wf_message (InstallSnapshotResp m) \<longleftrightarrow> isr_term m < 2 ^ 64 \<and> isr_responder_id m < 2 ^ 32 \<and>
     isr_next_offset m < 2 ^ 64 \<and> isr_installed_index m < 2 ^ 64"

interpretation entry_codec: codec put_entry rd_entry wf_entry
  by unfold_locales
    (simp add: reads_def rd_entry_def put_entry_def wf_entry_def codec_simps del: be_bytes.simps)

lemma rd_message_reads: "wf_message m \<Longrightarrow> reads rd_message (encode_message m) m"
  unfolding reads_def rd_message_def
  by (cases m)
    (simp_all add: tag_defs rd_request_vote_def rd_request_vote_resp_def rd_append_entries_def
      rd_append_entries_resp_def rd_install_snapshot_def rd_install_snapshot_resp_def
      entry_codec.run_list codec_simps del: be_bytes.simps)

interpretation message_codec: codec encode_message rd_message wf_message
  by unfold_locales (rule rd_message_reads)

lemma extensible_message: "extensible rd_message"
  unfolding rd_message_def rd_request_vote_def rd_request_vote_resp_def rd_append_entries_def
    rd_append_entries_resp_def rd_install_snapshot_def rd_install_snapshot_resp_def rd_entry_def
  by (auto intro!: extensible_intros)

lemma yields_entry: "yields rd_entry wf_entry"
  unfolding rd_entry_def by (intro yields_steps) (simp add: wf_entry_def)

lemma yields_message: "yields rd_message wf_message"
  unfolding rd_message_def rd_request_vote_def rd_request_vote_resp_def rd_append_entries_def
    rd_append_entries_resp_def rd_install_snapshot_def rd_install_snapshot_resp_def
  by (intro yields_steps yields_rbind[OF yields_times[OF yields_entry]]) simp_all

lemma decode_message_run: "rd_message bs = Inr (m, rest) \<Longrightarrow> bs \<noteq> [] \<Longrightarrow> decode_message bs = Inr m"
  by (simp add: decode_message_def)

lemma encode_message_not_Nil [simp]: "encode_message m \<noteq> []"
  by (cases m) (simp_all flip: length_greater_0_conv del: be_bytes.simps)


text \<open>Whatever bytes arrive, a message the decoder returns has every field within its Rust type.\<close>

lemma decode_message_wf: "decode_message bs = Inr m \<Longrightarrow> wf_message m"
  by (auto simp: decode_message_def split: if_splits sum.splits dest: yieldsD[OF yields_message])

section \<open>Properties\<close>

text \<open>C30: decoding the bytes of any message whose fields fit their Rust types gives the message back,
  whatever bytes follow it in the frame.\<close>

theorem raft_message_roundtrip:
  assumes "wf_message m"
  shows "decode_message (encode_message m @ rest) = Inr m"
  using message_codec.roundtrip[OF assms] by (intro decode_message_run) simp_all

definition sample_append :: message where
  "sample_append = AppendEntries \<lparr>ae_term = 7, ae_leader_id = 2, ae_prev_log_index = 4, ae_prev_log_term = 6,
     ae_entries = [\<lparr>le_term = 7, le_index = 5, le_payload = [1, 2, 3]\<rparr>, \<lparr>le_term = 7, le_index = 6, le_payload = []\<rparr>],
     ae_leader_commit = 4\<rparr>"

lemma wf_sample_append: "wf_message sample_append"
  by (simp add: sample_append_def wf_entry_def)

theorem raft_message_roundtrip_witness:
  "wf_message sample_append \<and> decode_message (encode_message sample_append @ [9, 9]) = Inr sample_append"
  using raft_message_roundtrip[OF wf_sample_append] wf_sample_append by blast

text \<open>C31: a message cut short at any byte is refused: no strict prefix of an encoding decodes to
  anything.\<close>

theorem raft_message_truncated:
  assumes "wf_message m" "n < length (encode_message m)"
  shows "\<exists>e. decode_message (take n (encode_message m)) = Inl e"
  using message_codec.strict_prefix_refused[OF extensible_message assms]
  by (auto simp: decode_message_def)

theorem raft_message_truncated_witness:
  "wf_message sample_append \<and> 60 < length (encode_message sample_append) \<and>
   (\<exists>e. decode_message (take 60 (encode_message sample_append)) = Inl e)"
proof -
  have l: "60 < length (encode_message sample_append)"
    by (simp add: sample_append_def put_entry_def del: be_bytes.simps)
  show ?thesis using raft_message_truncated[OF wf_sample_append l] wf_sample_append l by blast
qed

end
