(* ===== verification/Raft_Log.thy ===== *)
theory Raft_Log
  imports Raft_Messages
begin

text \<open>
  The in-memory Raft log of \<open>raft/log.rs\<close>: a vector of entries behind a snapshot-compacted prefix.
  \<open>log_wf\<close> is its invariant (entry number \<open>i\<close> carries index \<open>base_index + 1 + i\<close>), under which each
  operation is characterised by \<open>entry_at\<close>, the partial map from log indices to entries.

  Indices are natural numbers; the source computes them in \<open>u64\<close>, where \<open>last_index() + 1\<close> would
  only overflow after about 1.8e19 entries.
\<close>

section \<open>Operations\<close>

record raft_log =
  lg_entries :: "log_entry list"
  lg_base_index :: log_index
  lg_base_term :: raft_term

definition empty_log :: raft_log where
  "empty_log = \<lparr>lg_entries = [], lg_base_index = 0, lg_base_term = 0\<rparr>"

definition last_index :: "raft_log \<Rightarrow> log_index" where
  "last_index l = (if lg_entries l = [] then lg_base_index l else le_index (last (lg_entries l)))"

definition last_term :: "raft_log \<Rightarrow> raft_term" where
  "last_term l = (if lg_entries l = [] then lg_base_term l else le_term (last (lg_entries l)))"

definition log_get :: "raft_log \<Rightarrow> log_index \<Rightarrow> log_entry option" where
  "log_get l index =
     (case lg_entries l of
        [] \<Rightarrow> None
      | first # _ \<Rightarrow>
          if index < le_index first then None
          else if index - le_index first < length (lg_entries l)
               then Some (lg_entries l ! (index - le_index first)) else None)"

definition term_at :: "raft_log \<Rightarrow> log_index \<Rightarrow> raft_term option" where
  "term_at l index =
     (if index = 0 then Some 0
      else if index = lg_base_index l then Some (lg_base_term l)
      else if index < lg_base_index l then None
      else map_option le_term (log_get l index))"

definition log_slice :: "raft_log \<Rightarrow> log_index \<Rightarrow> log_index \<Rightarrow> log_entry list" where
  "log_slice l start end_exclusive =
     (if start = 0 \<or> end_exclusive \<le> start \<or> lg_entries l = [] then []
      else let first_idx = le_index (hd (lg_entries l));
               start = max start first_idx;
               end' = min end_exclusive (last_index l + 1)
           in if end' \<le> start then [] else subslice (start - first_idx) (end' - first_idx) (lg_entries l))"

fun slice_loop :: "nat \<Rightarrow> nat \<Rightarrow> log_entry list \<Rightarrow> log_entry list \<Rightarrow> nat \<Rightarrow> log_entry list" where
  "slice_loop max_entries max_bytes [] out bytes = out"
| "slice_loop max_entries max_bytes (e # es) out bytes =
     (if out \<noteq> [] \<and> (length out \<ge> max_entries \<or> bytes + length (le_payload e) > max_bytes) then out
      else slice_loop max_entries max_bytes es (out @ [e]) (bytes + length (le_payload e)))"

definition slice_bounded :: "raft_log \<Rightarrow> log_index \<Rightarrow> nat \<Rightarrow> nat \<Rightarrow> log_entry list" where
  "slice_bounded l start max_entries max_bytes =
     (if start = 0 \<or> lg_entries l = [] then []
      else let first_idx = le_index (hd (lg_entries l));
               start = max start first_idx
           in if start > last_index l then []
              else slice_loop max_entries max_bytes (drop (start - first_idx) (lg_entries l)) [] 0)"

text \<open>Renumber entries from \<open>next\<close> on, as the loops of \<open>append_assign_indices\<close> and \<open>append_at\<close> do.\<close>

fun number_from :: "log_index \<Rightarrow> log_entry list \<Rightarrow> log_entry list" where
  "number_from n [] = []"
| "number_from n (e # es) = e\<lparr>le_index := n\<rparr> # number_from (n + 1) es"

definition append_assign_indices :: "log_entry list \<Rightarrow> raft_log \<Rightarrow> raft_log" where
  "append_assign_indices es l = l\<lparr>lg_entries := lg_entries l @ number_from (last_index l + 1) es\<rparr>"

definition truncate_from :: "log_index \<Rightarrow> raft_log \<Rightarrow> raft_log" where
  "truncate_from cut_index l =
     (if cut_index \<le> lg_base_index l then l\<lparr>lg_entries := []\<rparr>
      else if lg_entries l = [] then l
      else if cut_index \<le> le_index (hd (lg_entries l)) then l\<lparr>lg_entries := []\<rparr>
      else l\<lparr>lg_entries := take (cut_index - le_index (hd (lg_entries l))) (lg_entries l)\<rparr>)"

text \<open>The \<open>while\<close> loop of \<open>append_at\<close>: skip what the log already has. \<open>None\<close> is the refusal to
  overwrite a committed entry; otherwise the entries left to append and the (truncated) log.\<close>

fun skip_known :: "log_index \<Rightarrow> log_index \<Rightarrow> log_entry list \<Rightarrow> raft_log \<Rightarrow> (log_entry list \<times> raft_log) option" where
  "skip_known committed idx [] l = Some ([], l)"
| "skip_known committed idx (e # es) l =
     (if idx \<le> lg_base_index l then skip_known committed (idx + 1) es l
      else case term_at l idx of
             Some t \<Rightarrow>
               if t = le_term e then skip_known committed (idx + 1) es l
               else if idx \<le> committed then None
               else Some (e # es, truncate_from idx l)
           | None \<Rightarrow> Some (e # es, l))"

text \<open>\<open>Inl ()\<close> is \<open>Err(())\<close>; \<open>Inr\<close> carries the first changed index, if any.\<close>

definition append_at ::
    "log_index \<Rightarrow> log_entry list \<Rightarrow> log_index \<Rightarrow> raft_log \<Rightarrow> (unit + log_index option) \<times> raft_log" where
  "append_at start_index new_entries committed l =
     (case skip_known committed start_index new_entries l of
        None \<Rightarrow> (Inl (), l)
      | Some (to_append, l') \<Rightarrow>
          if to_append = [] then (Inr None, l')
          else let first_changed = last_index l' + 1
               in (Inr (Some first_changed),
                   l'\<lparr>lg_entries := lg_entries l' @ number_from first_changed to_append\<rparr>))"

definition compact_through :: "log_index \<Rightarrow> raft_term \<Rightarrow> raft_log \<Rightarrow> raft_log" where
  "compact_through cut_index cut_term l =
     (if cut_index \<le> lg_base_index l then l
      else let drop_count =
             (case lg_entries l of
                [] \<Rightarrow> 0
              | first # _ \<Rightarrow> min (sat_add64 cut_index 1 - le_index first) (length (lg_entries l)))
           in \<lparr>lg_entries = drop drop_count (lg_entries l), lg_base_index = cut_index, lg_base_term = cut_term\<rparr>)"

definition log_install_snapshot :: "log_index \<Rightarrow> raft_term \<Rightarrow> raft_log \<Rightarrow> bool \<times> raft_log" where
  "log_install_snapshot sn_index sn_term l =
     (let keep = (term_at l sn_index = Some sn_term \<and> sn_index \<ge> lg_base_index l)
      in if keep then (keep, compact_through sn_index sn_term l)
         else (keep, \<lparr>lg_entries = [], lg_base_index = sn_index, lg_base_term = sn_term\<rparr>))"


section \<open>The log as a map from indices to entries\<close>

definition numbered :: "log_index \<Rightarrow> log_entry list \<Rightarrow> bool" where
  "numbered n es \<longleftrightarrow> (\<forall>i < length es. le_index (es ! i) = n + i)"

definition log_wf :: "raft_log \<Rightarrow> bool" where
  "log_wf l \<longleftrightarrow> numbered (lg_base_index l + 1) (lg_entries l)"

definition entry_at :: "raft_log \<Rightarrow> log_index \<Rightarrow> log_entry option" where
  "entry_at l i =
     (if lg_base_index l < i \<and> i \<le> lg_base_index l + length (lg_entries l)
      then Some (lg_entries l ! (i - lg_base_index l - 1)) else None)"

lemma numbered_Nil [simp]: "numbered n []"
  by (simp add: numbered_def)

lemma numbered_Cons [simp]: "numbered n (e # es) \<longleftrightarrow> le_index e = n \<and> numbered (n + 1) es"
  unfolding numbered_def by (auto simp: nth_Cons less_Suc_eq_0_disj split: nat.splits)

lemma numbered_append [simp]: "numbered n (xs @ ys) \<longleftrightarrow> numbered n xs \<and> numbered (n + length xs) ys"
  by (induction xs arbitrary: n) auto

lemma numbered_take [intro]: "numbered n es \<Longrightarrow> numbered n (take k es)"
  by (simp add: numbered_def)

lemma numbered_drop: "numbered n es \<Longrightarrow> k \<le> length es \<Longrightarrow> numbered (n + k) (drop k es)"
  by (simp add: numbered_def)

lemma numbered_number_from [simp]: "numbered n (number_from n es)"
  by (induction es arbitrary: n) auto

lemma number_from_numbered: "numbered n es \<Longrightarrow> number_from n es = es"
  by (induction es arbitrary: n) auto

lemma length_number_from [simp]: "length (number_from n es) = length es"
  by (induction es arbitrary: n) auto

lemma number_from_eq_Nil [simp]: "number_from n es = [] \<longleftrightarrow> es = []"
  by (cases es) auto

lemma number_from_nth: "i < length es \<Longrightarrow> number_from n es ! i = (es ! i)\<lparr>le_index := n + i\<rparr>"
  by (induction es arbitrary: n i) (auto simp: nth_Cons split: nat.splits)

lemma empty_log_wf [simp]: "log_wf empty_log"
  by (simp add: log_wf_def empty_log_def)

lemma last_index_wf: "log_wf l \<Longrightarrow> last_index l = lg_base_index l + length (lg_entries l)"
  by (auto simp: last_index_def log_wf_def numbered_def last_conv_nth)

lemma hd_index_wf: "log_wf l \<Longrightarrow> lg_entries l \<noteq> [] \<Longrightarrow> le_index (hd (lg_entries l)) = lg_base_index l + 1"
  by (cases "lg_entries l") (auto simp: log_wf_def)

lemma log_get_entry_at: "log_wf l \<Longrightarrow> log_get l i = entry_at l i"
  by (cases "lg_entries l") (auto simp: log_get_def entry_at_def log_wf_def)

lemma entry_at_index: "log_wf l \<Longrightarrow> entry_at l i = Some e \<Longrightarrow> le_index e = i"
  by (auto simp: entry_at_def log_wf_def numbered_def split: if_splits)

lemma entry_at_None: "entry_at l i = None \<longleftrightarrow> i \<le> lg_base_index l \<or> lg_base_index l + length (lg_entries l) < i"
  by (auto simp: entry_at_def)

lemma entry_at_Some_bounds: "entry_at l i = Some e \<Longrightarrow> lg_base_index l < i \<and> i \<le> lg_base_index l + length (lg_entries l)"
  by (auto simp: entry_at_def split: if_splits)

lemma term_at_wf:
  "log_wf l \<Longrightarrow> term_at l i =
     (if i = 0 then Some 0 else if i = lg_base_index l then Some (lg_base_term l)
      else map_option le_term (entry_at l i))"
  by (auto simp: term_at_def log_get_entry_at entry_at_None)

lemma last_term_wf:
  "log_wf l \<Longrightarrow> last_index l \<noteq> 0 \<Longrightarrow> term_at l (last_index l) = Some (last_term l)"
  by (auto simp: term_at_wf last_index_wf last_term_def entry_at_def last_conv_nth)

lemma entry_at_inject:
  assumes "lg_base_index l = lg_base_index m" "\<And>i. entry_at l i = entry_at m i"
  shows "lg_entries l = lg_entries m"
proof (rule nth_equalityI)
  have e: "entry_at l (lg_base_index l + i) = entry_at m (lg_base_index m + i)" for i
    using assms by simp
  show "length (lg_entries l) = length (lg_entries m)"
    using e[of "length (lg_entries l)"] e[of "length (lg_entries m)"]
    by (cases "length (lg_entries l)" "length (lg_entries m)" rule: linorder_cases) (auto simp: entry_at_def split: if_splits)
  show "lg_entries l ! i = lg_entries m ! i" if "i < length (lg_entries l)" for i
    using that e[of "i + 1"] by (auto simp: entry_at_def split: if_splits)
qed



section \<open>Slices\<close>

lemma numbered_filter_ge: "numbered n es \<Longrightarrow> filter (\<lambda>e. k \<le> le_index e) es = drop (k - n) es"
proof (induction es arbitrary: n)
  case (Cons e es)
  have "k - n = (if k \<le> n then 0 else Suc (k - (n + 1)))" by auto
  then show ?case using Cons by (cases "k \<le> n") auto
qed simp

lemma numbered_filter_less: "numbered n es \<Longrightarrow> filter (\<lambda>e. le_index e < k) es = take (k - n) es"
proof (induction es arbitrary: n)
  case (Cons e es)
  have "k - n = (if k \<le> n then 0 else Suc (k - (n + 1)))" by auto
  then show ?case using Cons by (cases "k \<le> n") auto
qed simp

lemma log_slice_filter:
  assumes "log_wf l" "0 < a"
  shows "log_slice l a b = filter (\<lambda>e. a \<le> le_index e \<and> le_index e < b) (lg_entries l)"
proof -
  let ?n = "lg_base_index l + 1" and ?es = "lg_entries l"
  have n: "numbered ?n ?es" using assms(1) by (simp add: log_wf_def)
  have "filter (\<lambda>e. a \<le> le_index e \<and> le_index e < b) ?es = filter (\<lambda>e. a \<le> le_index e) (filter (\<lambda>e. le_index e < b) ?es)"
    by (simp add: conj_commute)
  also have "\<dots> = drop (a - ?n) (take (b - ?n) ?es)"
    by (simp only: numbered_filter_less[OF n] numbered_filter_ge[OF numbered_take[OF n]])
  also have "\<dots> = log_slice l a b"
    using assms by (auto simp: log_slice_def Let_def hd_index_wf last_index_wf subslice_def drop_take min_def max_def)
  finally show ?thesis by simp
qed

definition payload_bytes :: "log_entry list \<Rightarrow> nat" where
  "payload_bytes es = sum_list (map (length \<circ> le_payload) es)"

lemma slice_loop_prefix:
  "\<exists>k. slice_loop m b es out n = out @ take k es \<and> (out = [] \<and> es \<noteq> [] \<longrightarrow> 0 < k)"
proof (induction es arbitrary: out n)
  case (Cons e es)
  obtain k where "slice_loop m b es (out @ [e]) (n + length (le_payload e)) = (out @ [e]) @ take k es"
    using Cons.IH by blast
  then show ?case
    by (cases "out \<noteq> [] \<and> (length out \<ge> m \<or> n + length (le_payload e) > b)")
      (auto intro: exI[of _ 0] exI[of _ "Suc k"])
qed simp

lemma slice_loop_bounds:
  assumes "length out \<le> max 1 m" "length out \<le> 1 \<or> n \<le> b" "n = payload_bytes out"
  shows "length (slice_loop m b es out n) \<le> max 1 m \<and>
    (length (slice_loop m b es out n) \<le> 1 \<or> payload_bytes (slice_loop m b es out n) \<le> b)"
  using assms
proof (induction m b es out n rule: slice_loop.induct)
  case (2 m b e es out n)
  show ?case
  proof (cases "out \<noteq> [] \<and> (length out \<ge> m \<or> n + length (le_payload e) > b)")
    case True
    then show ?thesis using 2(2-4) by simp
  next
    case False
    then have "length (out @ [e]) \<le> max 1 m" "length (out @ [e]) \<le> 1 \<or> n + length (le_payload e) \<le> b"
      by (cases out; simp)+
    moreover have "slice_loop m b (e # es) out n = slice_loop m b es (out @ [e]) (n + length (le_payload e))"
      using False by (simp only: slice_loop.simps if_False)
    ultimately show ?thesis using 2(1)[OF False] 2(4) by (simp add: payload_bytes_def)
  qed
qed simp

text \<open>What a replication batch is: entries from \<open>start\<close> on, at least one if there is one, and beyond
  the first within both bounds.\<close>

lemma slice_bounded_spec:
  fixes m b :: nat
  assumes "log_wf l" "0 < a"
  defines "es \<equiv> filter (\<lambda>e. a \<le> le_index e) (lg_entries l)" and "r \<equiv> slice_bounded l a m b"
  shows "\<exists>k. r = take k es \<and> (es \<noteq> [] \<longrightarrow> r \<noteq> [])"
    and "length r \<le> max 1 m" and "length r \<le> 1 \<or> payload_bytes r \<le> b"
proof -
  have n: "numbered (lg_base_index l + 1) (lg_entries l)" using assms(1) by (simp add: log_wf_def)
  have "es = drop (a - (lg_base_index l + 1)) (lg_entries l)"
    unfolding es_def by (rule numbered_filter_ge[OF n])
  then have r: "r = slice_loop m b es [] 0"
    using assms(1,2) unfolding r_def by (auto simp: slice_bounded_def Let_def hd_index_wf last_index_wf max_def)
  show "\<exists>k. r = take k es \<and> (es \<noteq> [] \<longrightarrow> r \<noteq> [])"
    unfolding r using slice_loop_prefix[of m b es "[]" 0] by auto
  show "length r \<le> max 1 m" "length r \<le> 1 \<or> payload_bytes r \<le> b"
    unfolding r using slice_loop_bounds[of "[]" m 0 b es] by (simp_all add: payload_bytes_def)
qed


section \<open>Changing the log\<close>

lemma truncate_from_wf [simp]: "log_wf l \<Longrightarrow> log_wf (truncate_from c l)"
  by (auto simp: truncate_from_def log_wf_def)

lemma truncate_from_base [simp]:
  "lg_base_index (truncate_from c l) = lg_base_index l" "lg_base_term (truncate_from c l) = lg_base_term l"
  by (simp_all add: truncate_from_def)

lemma truncate_from_entries:
  "log_wf l \<Longrightarrow> lg_entries (truncate_from c l) = filter (\<lambda>e. le_index e < c) (lg_entries l)"
  unfolding log_wf_def
  by (subst numbered_filter_less, assumption, cases "lg_entries l") (auto simp: truncate_from_def)

lemma truncate_from_entry_at:
  "log_wf l \<Longrightarrow> entry_at (truncate_from c l) i = (if i < c then entry_at l i else None)"
  by (auto simp: entry_at_def truncate_from_entries numbered_filter_less[OF log_wf_def[THEN iffD1]] min_def)

lemma truncate_from_last: "log_wf l \<Longrightarrow> lg_base_index l < c \<Longrightarrow> c \<le> last_index l + 1 \<Longrightarrow> last_index (truncate_from c l) = c - 1"
  by (simp add: last_index_wf truncate_from_entries numbered_filter_less[OF log_wf_def[THEN iffD1]])

lemma truncate_from_noop: "log_wf l \<Longrightarrow> last_index l < c \<Longrightarrow> truncate_from c l = l"
  by (cases "length (lg_entries l)") (auto simp: truncate_from_def last_index_wf hd_index_wf)

lemma append_entries_entry_at:
  assumes "log_wf l"
  shows "entry_at (l\<lparr>lg_entries := lg_entries l @ number_from (last_index l + 1) es\<rparr>) i =
    (if i \<le> last_index l then entry_at l i
     else if i \<le> last_index l + length es then Some ((es ! (i - last_index l - 1))\<lparr>le_index := i\<rparr>) else None)"
  using assms by (auto simp: entry_at_def last_index_wf nth_append number_from_nth)

lemma append_entries_wf:
  "log_wf l \<Longrightarrow> log_wf (l\<lparr>lg_entries := lg_entries l @ number_from (last_index l + 1) es\<rparr>)"
  by (simp add: log_wf_def last_index_wf)

text \<open>The entries the log already has: compacted ones, and those whose term agrees.\<close>

definition has_entry :: "raft_log \<Rightarrow> log_index \<Rightarrow> log_entry \<Rightarrow> bool" where
  "has_entry l i e \<longleftrightarrow> i \<le> lg_base_index l \<or> (\<exists>e'. entry_at l i = Some e' \<and> le_term e' = le_term e)"

lemma skip_known_spec:
  assumes "log_wf l" "0 < idx" "idx \<le> last_index l + 1"
  shows "case skip_known com idx es l of
     None \<Rightarrow> \<exists>j e. j < length es \<and> entry_at l (idx + j) = Some e \<and> le_term e \<noteq> le_term (es ! j) \<and> idx + j \<le> com
   | Some (rest, l') \<Rightarrow> \<exists>j \<le> length es. rest = drop j es \<and> (\<forall>i < j. has_entry l (idx + i) (es ! i)) \<and>
       (if j = length es then l' = l
        else lg_base_index l < idx + j \<and> \<not> has_entry l (idx + j) (es ! j) \<and> l' = truncate_from (idx + j) l \<and>
             idx + j \<le> last_index l + 1 \<and> (idx + j \<le> last_index l \<longrightarrow> com < idx + j))"
  using assms(2,3)
proof (induction es arbitrary: idx)
  case (Cons e es)
  have step: ?case if h: "has_entry l idx e"
    and le: "idx + 1 \<le> last_index l + 1"
    and eq: "skip_known com idx (e # es) l = skip_known com (idx + 1) es l"
  proof (cases "skip_known com (idx + 1) es l")
    case None
    then obtain j e' where "j < length es" "entry_at l (idx + 1 + j) = Some e'" "le_term e' \<noteq> le_term (es ! j)" "idx + 1 + j \<le> com"
      using Cons.IH[of "idx + 1"] le by auto
    then show ?thesis unfolding eq None by (auto intro!: exI[of _ "Suc j"])
  next
    case (Some p)
    obtain rest l' where p: "p = (rest, l')" by (cases p)
    obtain j where j: "j \<le> length es" "rest = drop j es" "\<forall>i < j. has_entry l (idx + 1 + i) (es ! i)"
      "if j = length es then l' = l
        else lg_base_index l < idx + 1 + j \<and> \<not> has_entry l (idx + 1 + j) (es ! j) \<and> l' = truncate_from (idx + 1 + j) l \<and>
             idx + 1 + j \<le> last_index l + 1 \<and> (idx + 1 + j \<le> last_index l \<longrightarrow> com < idx + 1 + j)"
      using Cons.IH[of "idx + 1"] le Some p by auto
    then show ?thesis unfolding eq Some p using h
      by (auto intro!: exI[of _ "Suc j"] simp: less_Suc_eq_0_disj)
  qed
  show ?case
  proof (cases "idx \<le> lg_base_index l")
    case True
    then show ?thesis using assms(1) by (intro step) (simp_all add: has_entry_def last_index_wf)
  next
    case False
    show ?thesis
    proof (cases "entry_at l idx")
      case None
      then have "idx = last_index l + 1"
        using False Cons.prems(2) assms(1) by (auto simp: entry_at_None last_index_wf)
      moreover have "truncate_from (last_index l + 1) l = l"
        using assms(1) by (simp add: truncate_from_noop)
      ultimately show ?thesis
        using False None assms(1) Cons.prems(1) by (auto intro!: exI[of _ 0] simp: term_at_wf has_entry_def)
    next
      case (Some e')
      then have "idx \<le> last_index l" using assms(1) by (auto simp: last_index_wf dest: entry_at_Some_bounds)
      then show ?thesis
        using False Some assms(1) Cons.prems(1) step
        by (cases "le_term e' = le_term e"; cases "idx \<le> com") (auto intro!: exI[of _ 0] simp: term_at_wf has_entry_def)
    qed
  qed
qed simp

text \<open>The three outcomes of \<open>append_at\<close>. \<open>changed_at c\<close> says that index \<open>c\<close> is the first one the log
  did not already have, that it is not committed, and that the log from there on is the new one.\<close>

definition changed_at :: "log_index \<Rightarrow> log_entry list \<Rightarrow> log_index \<Rightarrow> raft_log \<Rightarrow> log_index \<Rightarrow> raft_log \<Rightarrow> bool" where
  "changed_at start es com l c l' \<longleftrightarrow>
     start \<le> c \<and> c < start + length es \<and> lg_base_index l < c \<and> c \<le> last_index l + 1 \<and>
     (\<forall>i. start \<le> i \<and> i < c \<longrightarrow> has_entry l i (es ! (i - start))) \<and> \<not> has_entry l c (es ! (c - start)) \<and>
     (c \<le> last_index l \<longrightarrow> com < c) \<and>
     l' = l\<lparr>lg_entries := filter (\<lambda>e. le_index e < c) (lg_entries l) @ number_from c (drop (c - start) es)\<rparr>"

lemma append_at_cases:
  assumes wf: "log_wf l" and st: "0 < start" "start \<le> last_index l + 1"
  obtains (refused) j e where "append_at start es com l = (Inl (), l)" "j < length es"
      "entry_at l (start + j) = Some e" "le_term e \<noteq> le_term (es ! j)" "start + j \<le> com"
    | (known) "append_at start es com l = (Inr None, l)" "\<And>i. i < length es \<Longrightarrow> has_entry l (start + i) (es ! i)"
    | (changed) c l' where "append_at start es com l = (Inr (Some c), l')" "changed_at start es com l c l'"
proof (cases "skip_known com start es l")
  case None
  then show ?thesis
    using skip_known_spec[OF wf st, where com = com and es = es] by (auto intro!: refused simp: append_at_def)
next
  case (Some p)
  obtain rest l' where p: "p = (rest, l')" by (cases p)
  obtain j where j: "j \<le> length es" "rest = drop j es" "\<forall>i < j. has_entry l (start + i) (es ! i)"
    "if j = length es then l' = l
     else lg_base_index l < start + j \<and> \<not> has_entry l (start + j) (es ! j) \<and> l' = truncate_from (start + j) l \<and>
          start + j \<le> last_index l + 1 \<and> (start + j \<le> last_index l \<longrightarrow> com < start + j)"
    using skip_known_spec[OF wf st, where com = com and es = es] Some p by auto
  show ?thesis
  proof (cases "j = length es")
    case True
    then show ?thesis using j Some p by (intro known) (auto simp: append_at_def)
  next
    case False
    then have k: "last_index l' + 1 = start + j" "l' = truncate_from (start + j) l"
      using j wf by (auto simp: truncate_from_last)
    show ?thesis
    proof (rule changed)
      show "append_at start es com l = (Inr (Some (start + j)), l'\<lparr>lg_entries := lg_entries l' @ number_from (start + j) (drop j es)\<rparr>)"
        using j False Some p k by (simp add: append_at_def)
      have "l'\<lparr>lg_entries := lg_entries l' @ number_from (start + j) (drop j es)\<rparr> =
         l\<lparr>lg_entries := filter (\<lambda>e. le_index e < start + j) (lg_entries l) @ number_from (start + j) (drop j es)\<rparr>"
        unfolding k(2) truncate_from_entries[OF wf] by (simp add: truncate_from_def)
      moreover have "has_entry l i (es ! (i - start))" if "start \<le> i" "i < start + j" for i
        using j(3)[rule_format, of "i - start"] that by simp
      ultimately show "changed_at start es com l (start + j) (l'\<lparr>lg_entries := lg_entries l' @ number_from (start + j) (drop j es)\<rparr>)"
        using j False by (simp add: changed_at_def)
    qed
  qed
qed

lemma changed_at_facts:
  assumes "log_wf l" "changed_at start es com l c l'"
  shows "log_wf l'" "lg_base_index l' = lg_base_index l" "lg_base_term l' = lg_base_term l"
    "last_index l' = start + length es - 1"
    "entry_at l' i = (if i < c then entry_at l i
       else if i < start + length es then Some ((es ! (i - start))\<lparr>le_index := i\<rparr>) else None)"
proof -
  let ?n = "lg_base_index l + 1"
  have c: "start \<le> c" "c < start + length es" "?n \<le> c" "c \<le> lg_base_index l + length (lg_entries l) + 1"
    using assms last_index_wf[OF assms(1)] by (auto simp: changed_at_def)
  have es: "lg_entries l' = take (c - ?n) (lg_entries l) @ number_from c (drop (c - start) es)"
    and b: "lg_base_index l' = lg_base_index l" and "lg_base_term l' = lg_base_term l"
    using assms by (auto simp: changed_at_def numbered_filter_less[OF log_wf_def[THEN iffD1]])
  then show "lg_base_index l' = lg_base_index l" "lg_base_term l' = lg_base_term l" by auto
  have "?n + length (take (c - ?n) (lg_entries l)) = c" using c by simp
  then show wf: "log_wf l'"
    using assms(1) unfolding log_wf_def es b numbered_append by (simp add: numbered_take)
  show "last_index l' = start + length es - 1"
    using c by (auto simp: last_index_wf[OF wf] es b min_def)
  show "entry_at l' i = (if i < c then entry_at l i
       else if i < start + length es then Some ((es ! (i - start))\<lparr>le_index := i\<rparr>) else None)"
    using c by (auto simp: entry_at_def es b nth_append number_from_nth min_absorb2)
qed

lemma compact_through_facts:
  assumes "log_wf l" "lg_base_index l < c" "c < u64_max"
  shows "log_wf (compact_through c t l)" "lg_base_index (compact_through c t l) = c"
    "lg_base_term (compact_through c t l) = t"
    "lg_entries (compact_through c t l) = filter (\<lambda>e. c < le_index e) (lg_entries l)"
    "entry_at (compact_through c t l) i = (if c < i then entry_at l i else None)"
proof -
  have n: "numbered (lg_base_index l + 1) (lg_entries l)" using assms(1) by (simp add: log_wf_def)
  have f: "filter (\<lambda>e. c < le_index e) (lg_entries l) = drop (c - lg_base_index l) (lg_entries l)"
    using numbered_filter_ge[OF n, of "c + 1"] by (simp add: Suc_le_eq)
  have es: "lg_entries (compact_through c t l) = drop (c - lg_base_index l) (lg_entries l)"
    using assms(2,3) n by (cases "lg_entries l") (auto simp: compact_through_def min_def)
  show b: "lg_base_index (compact_through c t l) = c" "lg_base_term (compact_through c t l) = t"
    using assms(2) by (auto simp: compact_through_def Let_def)
  show "lg_entries (compact_through c t l) = filter (\<lambda>e. c < le_index e) (lg_entries l)"
    by (simp add: es f)
  show "log_wf (compact_through c t l)"
    using n assms(2) unfolding log_wf_def es b by (cases "c - lg_base_index l \<le> length (lg_entries l)")
      (auto dest: numbered_drop)
  show "entry_at (compact_through c t l) i = (if c < i then entry_at l i else None)"
    using assms(2) by (auto simp: entry_at_def es b)
qed

lemma log_install_snapshot_wf:
  assumes "log_wf l" "lg_base_index l < c" "c < u64_max" "log_install_snapshot c t l = (kept, l')"
  shows "log_wf l' \<and> lg_base_index l' = c \<and> lg_base_term l' = t \<and>
    (kept \<longleftrightarrow> term_at l c = Some t) \<and>
    lg_entries l' = (if kept then filter (\<lambda>e. c < le_index e) (lg_entries l) else [])"
  using assms compact_through_facts[OF assms(1-3), of t]
  by (auto simp: log_install_snapshot_def Let_def log_wf_def split: if_splits)

end
