(* ===== verification/Raft_Store.thy ===== *)
theory Raft_Store
  imports Raft_Log Storage_Segment
begin

text \<open>
  Durable Raft state, the second half of \<open>raft/log.rs\<close>: the persistence operations the state
  machine records (\<open>PersistOp\<close>), the in-memory store \<open>MemStore\<close>, and \<open>FileStore\<close>, which keeps the
  hard state in a JSON file and the entries in an append-only checksummed log.

  \<open>MemStore\<close> says what an operation means; the development shows that \<open>FileStore\<close> implements it,
  through restarts and with an I/O failure at any system call.

  Files are byte lists, \<open>None\<close> when absent. The list \<open>fs_io\<close> is the outcome of the system calls to
  come: \<open>None\<close> for success, \<open>Some k\<close> for a failure, where \<open>k\<close> is the number of bytes a failing
  write had written, and for an atomic replacement whether it failed before (\<open>0\<close>) or after the
  rename. The JSON and base64 libraries are parameters, the checksum too.

  The file contents are what the process sees. \<open>sync_data\<close> may fail, but what a power failure takes of
  unsynced bytes is not modelled for these files: the faults are those of the process and its calls.
\<close>

section \<open>Operations and the in-memory store\<close>

datatype persist_op =
    HardState raft_term "node_id option"
  | Append "log_entry list"
  | TruncateFrom log_index
  | CompactThrough log_index

record persisted_raft =
  pr_current_term :: raft_term
  pr_voted_for :: "node_id option"
  pr_log :: "log_entry list"

record persisted_snapshot =
  ps_last_index :: log_index
  ps_last_term :: raft_term
  ps_data :: "u8 list"

definition from_runtime :: "raft_term \<Rightarrow> node_id option \<Rightarrow> raft_log \<Rightarrow> persisted_raft" where
  "from_runtime t v l = \<lparr>pr_current_term = t, pr_voted_for = v, pr_log = lg_entries l\<rparr>"

definition into_log :: "persisted_raft \<Rightarrow> raft_log" where
  "into_log pr = \<lparr>lg_entries = pr_log pr, lg_base_index = 0, lg_base_term = 0\<rparr>"

fun mem_persist_op :: "persist_op \<Rightarrow> persisted_raft \<Rightarrow> persisted_raft" where
  "mem_persist_op (HardState t v) s = s\<lparr>pr_current_term := t, pr_voted_for := v\<rparr>"
| "mem_persist_op (Append es) s = s\<lparr>pr_log := pr_log s @ es\<rparr>"
| "mem_persist_op (TruncateFrom from) s = s\<lparr>pr_log := filter (\<lambda>e. le_index e < from) (pr_log s)\<rparr>"
| "mem_persist_op (CompactThrough t) s = s\<lparr>pr_log := filter (\<lambda>e. le_index e > t) (pr_log s)\<rparr>"

definition mem_persist :: "persist_op list \<Rightarrow> persisted_raft \<Rightarrow> persisted_raft" where
  "mem_persist ops s = fold mem_persist_op ops s"

text \<open>\<open>RaftStore::save_all\<close>.\<close>

definition save_all_ops :: "persisted_raft \<Rightarrow> persist_op list" where
  "save_all_ops s = [HardState (pr_current_term s) (pr_voted_for s), TruncateFrom 0, Append (pr_log s)]"


section \<open>Entries on disk\<close>

definition ENTRY_HEADER :: nat where "ENTRY_HEADER = 4 + 4 + 8 + 8"
definition MAX_ENTRY_BYTES :: nat where "MAX_ENTRY_BYTES = 512 * 1024 * 1024"

definition entry_body :: "log_entry \<Rightarrow> u8 list" where
  "entry_body e = be_bytes 8 (le_term e) @ be_bytes 8 (le_index e) @ le_payload e"

definition encode_entry :: "(u8 list \<Rightarrow> 32 word) \<Rightarrow> log_entry \<Rightarrow> u8 list" where
  "encode_entry crc e =
     (let body_len = 4 + 8 + 8 + length (le_payload e)
      in be_bytes 4 body_len @ be_bytes 4 (unat (crc (entry_body e))) @ entry_body e)"

function decode_log_loop ::
    "(u8 list \<Rightarrow> 32 word) \<Rightarrow> u8 list \<Rightarrow> nat \<Rightarrow> (log_entry \<times> nat) list \<Rightarrow> (log_entry \<times> nat) list \<times> nat" where
  "decode_log_loop crc bytes pos out =
     (if length bytes - pos \<ge> ENTRY_HEADER then
        let body_len = from_be_bytes (subslice pos (pos + 4) bytes)
        in if \<not> (20 \<le> body_len \<and> body_len \<le> MAX_ENTRY_BYTES) \<or> pos + 4 + body_len > length bytes then (out, pos)
           else let stored = from_be_bytes (subslice (pos + 4) (pos + 8) bytes);
                    body = subslice (pos + 8) (pos + 4 + body_len) bytes
                in if unat (crc body) \<noteq> stored then (out, pos)
                   else decode_log_loop crc bytes (pos + 4 + body_len)
                     (out @ [(\<lparr>le_term = from_be_bytes (subslice 0 8 body),
                               le_index = from_be_bytes (subslice 8 16 body),
                               le_payload = drop 16 body\<rparr>, pos)])
      else (out, pos))"
  by pat_completeness auto
termination
  by (relation "measure (\<lambda>(_, bytes, pos, _). length bytes - pos)") (auto simp: ENTRY_HEADER_def)

declare decode_log_loop.simps [simp del]

definition decode_log :: "(u8 list \<Rightarrow> 32 word) \<Rightarrow> u8 list \<Rightarrow> (log_entry \<times> nat) list \<times> nat" where
  "decode_log crc bytes = decode_log_loop crc bytes 0 []"


section \<open>The file store\<close>

record legacy_entry =
  lx_term :: raft_term
  lx_index :: log_index
  lx_payload_b64 :: string

record hard_state_file =
  hs_current_term :: raft_term
  hs_voted_for :: "node_id option"
  hs_log :: "legacy_entry list"

record file_store =
  fs_meta :: "u8 list option"
  fs_logf :: "u8 list option"
  fs_snap :: "u8 list option"
  fs_open :: bool
  fs_positions :: "(log_index \<times> nat) list"
  fs_len :: nat
  fs_io :: "nat option list"

datatype store_error = StoreIo | StoreParse | StoreNotContiguous | StoreNotOpen

type_synonym 'a stored = "(store_error + 'a) \<times> file_store"

text \<open>The outcome of the next system call.\<close>

definition next_io :: "file_store \<Rightarrow> nat option \<times> file_store" where
  "next_io s = (case fs_io s of [] \<Rightarrow> (None, s) | x # xs \<Rightarrow> (x, s\<lparr>fs_io := xs\<rparr>))"

definition fs_bind :: "'a stored \<Rightarrow> ('a \<Rightarrow> file_store \<Rightarrow> 'b stored) \<Rightarrow> 'b stored" where
  "fs_bind m f = (case m of (Inl e, s) \<Rightarrow> (Inl e, s) | (Inr a, s) \<Rightarrow> f a s)"

text \<open>\<open>fsutil::write_atomic\<close>: write a temporary file, sync it, rename it over the target, sync the
  directory. A failure before the rename leaves the old file, one after it the new file; both are
  reported.\<close>

definition write_atomic :: "(u8 list option \<Rightarrow> file_store \<Rightarrow> file_store) \<Rightarrow> u8 list \<Rightarrow> file_store \<Rightarrow> unit stored" where
  "write_atomic upd bytes s =
     (case next_io s of
        (None, s') \<Rightarrow> (Inr (), upd (Some bytes) s')
      | (Some 0, s') \<Rightarrow> (Inl StoreIo, s')
      | (Some _, s') \<Rightarrow> (Inl StoreIo, upd (Some bytes) s'))"

definition write_hard_state ::
    "(hard_state_file \<Rightarrow> u8 list) \<Rightarrow> raft_term \<Rightarrow> node_id option \<Rightarrow> file_store \<Rightarrow> unit stored" where
  "write_hard_state to_json t v s =
     write_atomic (\<lambda>f s. s\<lparr>fs_meta := f\<rparr>) (to_json \<lparr>hs_current_term = t, hs_voted_for = v, hs_log = []\<rparr>) s"

definition log_bytes :: "file_store \<Rightarrow> u8 list" where
  "log_bytes s = (case fs_logf s of None \<Rightarrow> [] | Some bs \<Rightarrow> bs)"

definition open_log :: "file_store \<Rightarrow> unit stored" where
  "open_log s =
     (if fs_open s then (Inr (), s)
      else case next_io s of
             (Some k, s') \<Rightarrow> (Inl StoreIo, if k = 0 then s' else s'\<lparr>fs_logf := Some (log_bytes s')\<rparr>)
           | (None, s') \<Rightarrow>
               (Inr (), s'\<lparr>fs_logf := Some (log_bytes s'), fs_len := length (log_bytes s'), fs_open := True\<rparr>))"

text \<open>The loops that encode a batch and note the position of each entry.\<close>

fun encode_entries ::
    "(u8 list \<Rightarrow> 32 word) \<Rightarrow> nat \<Rightarrow> log_entry list \<Rightarrow> (log_index \<times> nat) list \<Rightarrow> u8 list \<Rightarrow>
     (log_index \<times> nat) list \<times> u8 list" where
  "encode_entries crc base [] positions buf = (positions, buf)"
| "encode_entries crc base (e # es) positions buf =
     encode_entries crc base es (positions @ [(le_index e, base + length buf)]) (buf @ encode_entry crc e)"

definition rewrite_log :: "(u8 list \<Rightarrow> 32 word) \<Rightarrow> log_entry list \<Rightarrow> file_store \<Rightarrow> unit stored" where
  "rewrite_log crc entries s =
     (let (positions, buf) = encode_entries crc 0 entries [] []
      in fs_bind (write_atomic (\<lambda>f s. s\<lparr>fs_logf := f\<rparr>) buf s)
           (\<lambda>_ s. open_log (s\<lparr>fs_open := False, fs_positions := positions, fs_len := length buf\<rparr>)))"

text \<open>\<open>slice::partition_point\<close> on a slice that is partitioned by the predicate.\<close>

definition partition_point :: "('a \<Rightarrow> bool) \<Rightarrow> 'a list \<Rightarrow> nat" where
  "partition_point P xs = length (takeWhile P xs)"

definition read_entries_after :: "(u8 list \<Rightarrow> 32 word) \<Rightarrow> log_index \<Rightarrow> file_store \<Rightarrow> store_error + log_entry list" where
  "read_entries_after crc through s =
     (let first = partition_point (\<lambda>(i, _). i \<le> through) (fs_positions s)
      in if first < length (fs_positions s) then
           let start = snd (fs_positions s ! first)
           in if \<not> fs_open s then Inl StoreNotOpen
              else Inr (map fst (fst (decode_log crc (read_at (log_bytes s) (fs_len s - start) start))))
         else Inr [])"

definition sync_data :: "file_store \<Rightarrow> unit stored" where
  "sync_data s = (case next_io s of (None, s') \<Rightarrow> (Inr (), s') | (Some _, s') \<Rightarrow> (Inl StoreIo, s'))"

text \<open>One iteration of the loop of \<open>persist\<close>; the flag is \<open>log_dirty\<close>.\<close>

definition persist_append :: "(u8 list \<Rightarrow> 32 word) \<Rightarrow> log_entry list \<Rightarrow> bool \<Rightarrow> file_store \<Rightarrow> bool stored" where
  "persist_append crc entries dirty s =
     (if entries = [] then (Inr dirty, s)
      else fs_bind (open_log s) (\<lambda>_ s.
        let base = fs_len s; (new_positions, buf) = encode_entries crc base entries [] []
        in case next_io s of
             (None, s) \<Rightarrow>
               (Inr True, s\<lparr>fs_logf := Some (log_bytes s @ buf), fs_len := fs_len s + length buf,
                            fs_positions := fs_positions s @ new_positions\<rparr>)
           | (Some k, s) \<Rightarrow>
               let s = s\<lparr>fs_logf := Some (log_bytes s @ take k buf)\<rparr>
               in (case next_io s of
                     (None, s) \<Rightarrow> (Inl StoreIo, s\<lparr>fs_logf := Some (set_len base (log_bytes s))\<rparr>)
                   | (Some _, s) \<Rightarrow> (Inl StoreIo, s))))"

definition persist_truncate :: "log_index \<Rightarrow> bool \<Rightarrow> file_store \<Rightarrow> bool stored" where
  "persist_truncate from dirty s =
     (let cut = partition_point (\<lambda>(i, _). i < from) (fs_positions s)
      in if cut = length (fs_positions s) then (Inr dirty, s)
         else fs_bind (open_log s) (\<lambda>_ s.
           let pos = snd (fs_positions s ! cut)
           in case next_io s of
                (Some _, s) \<Rightarrow> (Inl StoreIo, s)
              | (None, s) \<Rightarrow>
                  (Inr True, s\<lparr>fs_logf := Some (set_len pos (log_bytes s)),
                               fs_positions := take cut (fs_positions s), fs_len := pos\<rparr>)))"

definition persist_compact :: "(u8 list \<Rightarrow> 32 word) \<Rightarrow> log_index \<Rightarrow> bool \<Rightarrow> file_store \<Rightarrow> bool stored" where
  "persist_compact crc through dirty s =
     (if (case fs_positions s of [] \<Rightarrow> True | (i, _) # _ \<Rightarrow> i > through) then (Inr dirty, s)
      else fs_bind (open_log s) (\<lambda>_ s.
           fs_bind (if dirty then sync_data s else (Inr (), s)) (\<lambda>_ s.
           case read_entries_after crc through s of
             Inl e \<Rightarrow> (Inl e, s)
           | Inr keep \<Rightarrow> fs_bind (rewrite_log crc keep s) (\<lambda>_ s. (Inr False, s)))))"

fun persist_one :: "(u8 list \<Rightarrow> 32 word) \<Rightarrow> (hard_state_file \<Rightarrow> u8 list) \<Rightarrow> persist_op \<Rightarrow> bool \<Rightarrow> file_store \<Rightarrow> bool stored" where
  "persist_one crc to_json (HardState t v) dirty s = fs_bind (write_hard_state to_json t v s) (\<lambda>_ s. (Inr dirty, s))"
| "persist_one crc to_json (Append es) dirty s = persist_append crc es dirty s"
| "persist_one crc to_json (TruncateFrom from) dirty s = persist_truncate from dirty s"
| "persist_one crc to_json (CompactThrough through) dirty s = persist_compact crc through dirty s"

fun persist_loop :: "(u8 list \<Rightarrow> 32 word) \<Rightarrow> (hard_state_file \<Rightarrow> u8 list) \<Rightarrow> persist_op list \<Rightarrow> bool \<Rightarrow> file_store \<Rightarrow> bool stored" where
  "persist_loop crc to_json [] dirty s = (Inr dirty, s)"
| "persist_loop crc to_json (op # ops) dirty s =
     fs_bind (persist_one crc to_json op dirty s) (\<lambda>dirty s. persist_loop crc to_json ops dirty s)"

definition fs_persist :: "(u8 list \<Rightarrow> 32 word) \<Rightarrow> (hard_state_file \<Rightarrow> u8 list) \<Rightarrow> persist_op list \<Rightarrow> file_store \<Rightarrow> unit stored" where
  "fs_persist crc to_json ops s =
     fs_bind (persist_loop crc to_json ops False s) (\<lambda>dirty s. if dirty then sync_data s else (Inr (), s))"

text \<open>Loading.\<close>

fun index_gap :: "(log_entry \<times> nat) list \<Rightarrow> bool" where
  "index_gap (a # b # rest) = (le_index (fst b) \<noteq> le_index (fst a) + 1 \<or> index_gap (b # rest))"
| "index_gap _ = False"

fun decode_legacy :: "(string \<Rightarrow> u8 list option) \<Rightarrow> legacy_entry list \<Rightarrow> log_entry list option" where
  "decode_legacy b64 [] = Some []"
| "decode_legacy b64 (l # ls) =
     (case b64 (lx_payload_b64 l) of
        None \<Rightarrow> None
      | Some p \<Rightarrow> (case decode_legacy b64 ls of
          None \<Rightarrow> None
        | Some es \<Rightarrow> Some (\<lparr>le_term = lx_term l, le_index = lx_index l, le_payload = p\<rparr> # es)))"

definition read_hard_state :: "(u8 list \<Rightarrow> hard_state_file option) \<Rightarrow> file_store \<Rightarrow> hard_state_file stored" where
  "read_hard_state from_json s =
     (case fs_meta s of
        None \<Rightarrow> (Inr \<lparr>hs_current_term = 0, hs_voted_for = None, hs_log = []\<rparr>, s)
      | Some bytes \<Rightarrow> (case from_json bytes of None \<Rightarrow> (Inl StoreParse, s) | Some h \<Rightarrow> (Inr h, s)))"

definition migrate_legacy ::
    "(u8 list \<Rightarrow> 32 word) \<Rightarrow> (hard_state_file \<Rightarrow> u8 list) \<Rightarrow> (string \<Rightarrow> u8 list option) \<Rightarrow> hard_state_file \<Rightarrow>
     file_store \<Rightarrow> unit stored" where
  "migrate_legacy crc to_json b64 h s =
     (if hs_log h \<noteq> [] \<and> fs_logf s = None then
        case decode_legacy b64 (hs_log h) of
          None \<Rightarrow> (Inl StoreParse, s)
        | Some entries \<Rightarrow>
            fs_bind (rewrite_log crc entries s) (\<lambda>_ s. write_hard_state to_json (hs_current_term h) (hs_voted_for h) s)
      else (Inr (), s))"

definition fs_load ::
    "(u8 list \<Rightarrow> 32 word) \<Rightarrow> (hard_state_file \<Rightarrow> u8 list) \<Rightarrow> (u8 list \<Rightarrow> hard_state_file option) \<Rightarrow>
     (string \<Rightarrow> u8 list option) \<Rightarrow> file_store \<Rightarrow> persisted_raft stored" where
  "fs_load crc to_json from_json b64 s =
     fs_bind (read_hard_state from_json s) (\<lambda>hard s.
     fs_bind (migrate_legacy crc to_json b64 hard s) (\<lambda>_ s.
       let bytes = log_bytes s; (decoded, valid) = decode_log crc bytes
       in fs_bind
            (if valid < length bytes then
               (case next_io s of
                  (Some k, s) \<Rightarrow>
                    (Inl StoreIo, if k = 0 then s else s\<lparr>fs_logf := Some (set_len valid (log_bytes s))\<rparr>)
                | (None, s) \<Rightarrow> (Inr (), s\<lparr>fs_logf := Some (set_len valid (log_bytes s))\<rparr>))
             else (Inr (), s))
            (\<lambda>_ s.
              if index_gap decoded then (Inl StoreNotContiguous, s)
              else let s = s\<lparr>fs_open := False, fs_positions := map (\<lambda>(e, p). (le_index e, p)) decoded, fs_len := valid\<rparr>
                   in fs_bind (if fs_logf s \<noteq> None then open_log s else (Inr (), s))
                        (\<lambda>_ s. (Inr \<lparr>pr_current_term = hs_current_term hard, pr_voted_for = hs_voted_for hard,
                                    pr_log = map fst decoded\<rparr>, s)))))"

definition fs_load_snapshot :: "(u8 list \<Rightarrow> persisted_snapshot option) \<Rightarrow> file_store \<Rightarrow> persisted_snapshot option stored" where
  "fs_load_snapshot from_json s =
     (case fs_snap s of
        None \<Rightarrow> (Inr None, s)
      | Some bytes \<Rightarrow> (case from_json bytes of None \<Rightarrow> (Inl StoreParse, s) | Some snap \<Rightarrow> (Inr (Some snap), s)))"

definition fs_save_snapshot :: "(persisted_snapshot \<Rightarrow> u8 list) \<Rightarrow> persisted_snapshot \<Rightarrow> file_store \<Rightarrow> unit stored" where
  "fs_save_snapshot to_json snap s = write_atomic (\<lambda>f s. s\<lparr>fs_snap := f\<rparr>) (to_json snap) s"



section \<open>Parsing a log file\<close>

definition disk_entry_ok :: "log_entry \<Rightarrow> bool" where
  "disk_entry_ok e \<longleftrightarrow> le_term e < 2 ^ 64 \<and> le_index e < 2 ^ 64 \<and> 20 + length (le_payload e) \<le> MAX_ENTRY_BYTES"

definition entries_bytes :: "(u8 list \<Rightarrow> 32 word) \<Rightarrow> log_entry list \<Rightarrow> u8 list" where
  "entries_bytes crc es = concat (map (encode_entry crc) es)"

text \<open>The entries with their file positions, the first at \<open>pos\<close>.\<close>

fun located :: "nat \<Rightarrow> log_entry list \<Rightarrow> (log_entry \<times> nat) list" where
  "located pos [] = []"
| "located pos (e # es) = (e, pos) # located (pos + 24 + length (le_payload e)) es"

definition positions_at :: "nat \<Rightarrow> log_entry list \<Rightarrow> (log_index \<times> nat) list" where
  "positions_at pos es = map (\<lambda>(e, p). (le_index e, p)) (located pos es)"

text \<open>What a write that stopped early leaves behind the last whole entry.\<close>

definition torn_entry :: "(u8 list \<Rightarrow> 32 word) \<Rightarrow> u8 list \<Rightarrow> bool" where
  "torn_entry crc bs \<longleftrightarrow> (\<exists>e k. disk_entry_ok e \<and> k < length (encode_entry crc e) \<and> bs = take k (encode_entry crc e))"

lemma length_entry_body [simp]: "length (entry_body e) = 16 + length (le_payload e)"
  by (simp add: entry_body_def)

lemma length_encode_entry [simp]: "length (encode_entry crc e) = 24 + length (le_payload e)"
  by (simp add: encode_entry_def)

lemma entries_bytes_simps [simp]:
  "entries_bytes crc [] = []" "entries_bytes crc (e # es) = encode_entry crc e @ entries_bytes crc es"
  "entries_bytes crc (xs @ ys) = entries_bytes crc xs @ entries_bytes crc ys"
  by (simp_all add: entries_bytes_def)

lemma positions_at_simps [simp]:
  "positions_at pos [] = []"
  "positions_at pos (e # es) = (le_index e, pos) # positions_at (pos + 24 + length (le_payload e)) es"
  by (simp_all add: positions_at_def)

lemma positions_at_append: "positions_at pos (xs @ ys) = positions_at pos xs @ positions_at (pos + length (entries_bytes crc xs)) ys"
  by (induction xs arbitrary: pos) (simp_all add: add.assoc)

lemma length_positions_at [simp]: "length (positions_at pos es) = length es"
  by (induction es arbitrary: pos) auto

lemma map_fst_located [simp]: "map fst (located pos es) = es"
  by (induction es arbitrary: pos) auto

lemma encode_entries_eq:
  "encode_entries crc base es ps buf = (ps @ positions_at (base + length buf) es, buf @ entries_bytes crc es)"
  by (induction es arbitrary: ps buf) (simp_all add: add.assoc)

lemma entry_body_fields:
  "take 8 (entry_body e) = be_bytes 8 (le_term e)"
  "take 8 (drop 8 (entry_body e)) = be_bytes 8 (le_index e)" "drop 16 (entry_body e) = le_payload e"
  by (simp_all add: entry_body_def)

lemma decode_entry_step:
  assumes "drop pos bytes = encode_entry crc e @ rest" "disk_entry_ok e"
  shows "decode_log_loop crc bytes pos out =
    decode_log_loop crc bytes (pos + 24 + length (le_payload e)) (out @ [(e, pos)])"
proof -
  let ?n = "20 + length (le_payload e)" and ?c = "unat (crc (entry_body e))"
  have d: "drop pos bytes = be_bytes 4 ?n @ be_bytes 4 ?c @ entry_body e @ rest"
    using assms(1) by (simp add: encode_entry_def add.assoc)
  have len: "length bytes = pos + 24 + length (le_payload e) + length rest"
  proof -
    have "length (drop pos bytes) = 24 + length (le_payload e) + length rest" unfolding assms(1) by simp
    then show ?thesis by simp
  qed
  have sub: "subslice (pos + a) (pos + b) bytes = take (b - a) (drop a (drop pos bytes))" for a b
    by (simp add: subslice_def add.commute)
  have 1: "subslice pos (pos + 4) bytes = be_bytes 4 ?n"
    using sub[of 0 4] unfolding d by simp
  have 2: "subslice (pos + 4) (pos + 8) bytes = be_bytes 4 ?c"
    using sub[of 4 8] unfolding d by simp
  have 3: "subslice (pos + 8) (pos + (length (le_payload e) + 24)) bytes = entry_body e"
    using sub[of 8 "length (le_payload e) + 24"] unfolding d by simp
  have ok: "le_term e < 2 ^ 64" "le_index e < 2 ^ 64" "?n \<le> MAX_ENTRY_BYTES" "?n < 2 ^ 32"
    using assms(2) by (simp_all add: disk_entry_ok_def MAX_ENTRY_BYTES_def)
  have e: "\<lparr>le_term = from_be_bytes (subslice 0 8 (entry_body e)), le_index = from_be_bytes (subslice 8 16 (entry_body e)),
      le_payload = drop 16 (entry_body e)\<rparr> = e"
    using ok by (simp add: subslice_def entry_body_fields)
  show ?thesis
    by (subst decode_log_loop.simps)
      (use ok len in \<open>simp add: 1 2 3 e Let_def ENTRY_HEADER_def add.assoc add.commute add.left_commute\<close>)
qed

lemma decode_torn:
  assumes "drop pos bytes = take k (encode_entry crc e)" "disk_entry_ok e" "k < length (encode_entry crc e)"
  shows "decode_log_loop crc bytes pos out = (out, pos)"
proof (cases "length bytes - pos \<ge> ENTRY_HEADER")
  case True
  let ?n = "20 + length (le_payload e)"
  have len: "length bytes - pos = k" using assms(3) arg_cong[OF assms(1), of length] by simp
  have "subslice pos (pos + 4) bytes = take 4 (drop pos bytes)" by (simp add: subslice_def)
  also have "\<dots> = be_bytes 4 ?n"
    unfolding assms(1) using True len by (simp add: encode_entry_def ENTRY_HEADER_def min_def)
  finally have "subslice pos (pos + 4) bytes = be_bytes 4 ?n" .
  moreover have "?n < 2 ^ 32" using assms(2) by (simp add: disk_entry_ok_def MAX_ENTRY_BYTES_def)
  moreover have "length bytes < 24 + (pos + length (le_payload e))" using assms(3) len True by simp
  ultimately show ?thesis
    using True by (subst decode_log_loop.simps) (simp add: Let_def ENTRY_HEADER_def)
next
  case False
  then show ?thesis by (subst decode_log_loop.simps) simp
qed

lemma decode_log_loop_entries:
  assumes "list_all disk_entry_ok es" "torn_entry crc torn" "drop pos bytes = entries_bytes crc es @ torn"
  shows "decode_log_loop crc bytes pos out = (out @ located pos es, pos + length (entries_bytes crc es))"
  using assms(1,3)
proof (induction es arbitrary: pos out)
  case Nil
  then show ?case using assms(2) by (auto simp: torn_entry_def intro: decode_torn)
next
  case (Cons e es)
  have "drop (pos + 24 + length (le_payload e)) bytes = drop (24 + length (le_payload e)) (drop pos bytes)"
    by (simp add: add.assoc add.commute add.left_commute)
  also have "\<dots> = entries_bytes crc es @ torn" unfolding Cons.prems(2) by simp
  finally show ?case
    using Cons decode_entry_step[of pos bytes crc e "entries_bytes crc es @ torn" out] by (simp add: add.assoc)
qed

lemma decode_log_entries:
  "list_all disk_entry_ok es \<Longrightarrow> torn_entry crc torn \<Longrightarrow>
   decode_log crc (entries_bytes crc es @ torn) = (located 0 es, length (entries_bytes crc es))"
  unfolding decode_log_def by (subst decode_log_loop_entries[of es crc torn]) simp_all

lemma torn_entry_Nil [simp]: "torn_entry crc []"
  unfolding torn_entry_def
  by (intro exI[of _ "\<lparr>le_term = 0, le_index = 0, le_payload = []\<rparr>"] exI[of _ 0])
    (simp add: disk_entry_ok_def MAX_ENTRY_BYTES_def)

lemma take_entries_bytes:
  assumes "list_all disk_entry_ok es"
  obtains j torn where "take k (entries_bytes crc es) = entries_bytes crc (take j es) @ torn" "torn_entry crc torn"
  using assms
proof (induction es arbitrary: k thesis)
  case Nil
  then show ?case using Nil.prems(1)[of 0 "[]"] by simp
next
  case (Cons e es)
  show ?case
  proof (cases "k < length (encode_entry crc e)")
    case True
    then have "torn_entry crc (take k (encode_entry crc e))" using Cons.prems(2) by (auto simp: torn_entry_def)
    then show ?thesis using Cons.prems(1)[of 0] True by simp
  next
    case False
    obtain j torn where "take (k - length (encode_entry crc e)) (entries_bytes crc es) = entries_bytes crc (take j es) @ torn"
      "torn_entry crc torn" using Cons.IH[of "k - length (encode_entry crc e)"] Cons.prems(2) by auto
    then show ?thesis using Cons.prems(1)[of "Suc j"] False by simp
  qed
qed



section \<open>The file store implements the in-memory one\<close>

definition contiguous :: "log_entry list \<Rightarrow> bool" where
  "contiguous es \<longleftrightarrow> (case es of [] \<Rightarrow> True | e # _ \<Rightarrow> numbered (le_index e) es)"

lemma contiguous_iff: "contiguous es \<longleftrightarrow> (\<exists>n. numbered n es)"
  by (auto simp: contiguous_def split: list.split)

text \<open>What the code relies on of the JSON library: the hard-state file reads back as written.\<close>

definition json_ok :: "(hard_state_file \<Rightarrow> u8 list) \<Rightarrow> (u8 list \<Rightarrow> hard_state_file option) \<Rightarrow> bool" where
  "json_ok to_json from_json \<longleftrightarrow>
     (\<forall>t v. t < 2 ^ 64 \<and> (\<forall>n. v = Some n \<longrightarrow> n < 2 ^ 32) \<longrightarrow>
        from_json (to_json \<lparr>hs_current_term = t, hs_voted_for = v, hs_log = []\<rparr>) =
          Some \<lparr>hs_current_term = t, hs_voted_for = v, hs_log = []\<rparr>)"

definition hard_holds :: "(u8 list \<Rightarrow> hard_state_file option) \<Rightarrow> file_store \<Rightarrow> persisted_raft \<Rightarrow> bool" where
  "hard_holds from_json s pr \<longleftrightarrow>
     read_hard_state from_json s =
       (Inr \<lparr>hs_current_term = pr_current_term pr, hs_voted_for = pr_voted_for pr, hs_log = []\<rparr>, s)"

text \<open>What a restart would find on disk, and the store in operation.\<close>

definition disk_holds ::
    "(u8 list \<Rightarrow> 32 word) \<Rightarrow> (u8 list \<Rightarrow> hard_state_file option) \<Rightarrow> file_store \<Rightarrow> u8 list \<Rightarrow> persisted_raft \<Rightarrow> bool" where
  "disk_holds crc from_json s torn pr \<longleftrightarrow>
     hard_holds from_json s pr \<and> log_bytes s = entries_bytes crc (pr_log pr) @ torn \<and> torn_entry crc torn \<and>
     list_all disk_entry_ok (pr_log pr) \<and> contiguous (pr_log pr)"

definition fs_holds ::
    "(u8 list \<Rightarrow> 32 word) \<Rightarrow> (u8 list \<Rightarrow> hard_state_file option) \<Rightarrow> file_store \<Rightarrow> persisted_raft \<Rightarrow> bool" where
  "fs_holds crc from_json s pr \<longleftrightarrow>
     disk_holds crc from_json s [] pr \<and> fs_positions s = positions_at 0 (pr_log pr) \<and>
     fs_len s = length (entries_bytes crc (pr_log pr))"

fun op_ok :: "persist_op \<Rightarrow> persisted_raft \<Rightarrow> bool" where
  "op_ok (HardState t v) pr \<longleftrightarrow> t < 2 ^ 64 \<and> (\<forall>n. v = Some n \<longrightarrow> n < 2 ^ 32)"
| "op_ok (Append es) pr \<longleftrightarrow> contiguous (pr_log pr @ es) \<and> list_all disk_entry_ok es"
| "op_ok _ pr \<longleftrightarrow> True"

text \<open>How far an operation that failed may have got.\<close>

definition partial_op :: "persist_op \<Rightarrow> persisted_raft \<Rightarrow> persisted_raft \<Rightarrow> bool" where
  "partial_op op pr pr' \<longleftrightarrow> pr' = pr \<or> pr' = mem_persist_op op pr \<or>
     (\<exists>es k. op = Append es \<and> pr' = pr\<lparr>pr_log := pr_log pr @ take k es\<rparr>)"

lemma contiguous_take: "contiguous es \<Longrightarrow> contiguous (take k es)"
  by (auto simp: contiguous_iff)

lemma contiguous_drop: "contiguous es \<Longrightarrow> contiguous (drop k es)"
  by (cases "k \<le> length es") (auto simp: contiguous_iff dest: numbered_drop)

lemma contiguous_append_take: "contiguous (xs @ ys) \<Longrightarrow> contiguous (xs @ take k ys)"
  using contiguous_take[of "xs @ ys" "length xs + k"] by simp

lemma partition_positions:
  assumes "numbered n es"
  shows "partition_point (\<lambda>(i, _). i < k) (positions_at p es) = min (k - n) (length es)"
    and "partition_point (\<lambda>(i, _). i \<le> k) (positions_at p es) = min (Suc k - n) (length es)"
proof -
  have *: "partition_point (\<lambda>(i, _). i < k) (positions_at p es) = min (k - n) (length es)" if "numbered n es" for k n p
    using that
  proof (induction es arbitrary: n p)
    case (Cons e es)
    have "k - n = (if k \<le> n then 0 else Suc (k - (n + 1)))" by auto
    then show ?case using Cons by (cases "k \<le> n") (auto simp: partition_point_def)
  qed (simp add: partition_point_def)
  show "partition_point (\<lambda>(i, _). i < k) (positions_at p es) = min (k - n) (length es)" by (rule *[OF assms])
  show "partition_point (\<lambda>(i, _). i \<le> k) (positions_at p es) = min (Suc k - n) (length es)"
    using *[OF assms, of "Suc k" p] by (simp add: less_Suc_eq_le)
qed

lemma positions_at_nth:
  "i < length es \<Longrightarrow> positions_at p es ! i = (le_index (es ! i), p + length (entries_bytes crc (take i es)))"
  by (induction es arbitrary: p i) (auto simp: nth_Cons split: nat.splits)

lemma entries_bytes_split:
  "entries_bytes crc es = entries_bytes crc (take i es) @ entries_bytes crc (drop i es)"
  using entries_bytes_simps(3)[of crc "take i es" "drop i es"] by simp

lemma set_len_entries: "set_len (length (entries_bytes crc (take i es))) (entries_bytes crc es) = entries_bytes crc (take i es)"
  using entries_bytes_split[of crc es i] by (simp add: set_len_def)

lemma positions_at_take: "take i (positions_at p es) = positions_at p (take i es)"
  by (induction es arbitrary: p i) (auto simp: take_Cons split: nat.splits)

text \<open>Only the files and the bookkeeping matter.\<close>

lemma log_bytes_simps [simp]:
  "log_bytes (s\<lparr>fs_io := x\<rparr>) = log_bytes s" "log_bytes (s\<lparr>fs_logf := Some bs\<rparr>) = bs"
  "log_bytes (s\<lparr>fs_open := b\<rparr>) = log_bytes s" "log_bytes (s\<lparr>fs_len := n\<rparr>) = log_bytes s"
  "log_bytes (s\<lparr>fs_positions := ps\<rparr>) = log_bytes s" "log_bytes (s\<lparr>fs_meta := m\<rparr>) = log_bytes s"
  by (simp_all add: log_bytes_def)

lemma hard_holds_iff:
  "hard_holds from_json s pr \<longleftrightarrow>
     (case fs_meta s of
        None \<Rightarrow> pr_current_term pr = 0 \<and> pr_voted_for pr = None
      | Some bytes \<Rightarrow> from_json bytes =
          Some \<lparr>hs_current_term = pr_current_term pr, hs_voted_for = pr_voted_for pr, hs_log = []\<rparr>)"
  by (auto simp: hard_holds_def read_hard_state_def split: option.splits)

lemma hard_holds_simps [simp]:
  "hard_holds from_json (s\<lparr>fs_io := x\<rparr>) pr = hard_holds from_json s pr"
  "hard_holds from_json (s\<lparr>fs_logf := f\<rparr>) pr = hard_holds from_json s pr"
  "hard_holds from_json (s\<lparr>fs_open := b\<rparr>) pr = hard_holds from_json s pr"
  "hard_holds from_json (s\<lparr>fs_len := n\<rparr>) pr = hard_holds from_json s pr"
  "hard_holds from_json (s\<lparr>fs_positions := ps\<rparr>) pr = hard_holds from_json s pr"
  "hard_holds from_json s (pr\<lparr>pr_log := l\<rparr>) = hard_holds from_json s pr"
  by (simp_all add: hard_holds_iff split: option.split)

lemma next_io_cases:
  obtains (fine) io where "next_io s = (None, s\<lparr>fs_io := io\<rparr>)"
    | (fails) k io where "next_io s = (Some k, s\<lparr>fs_io := io\<rparr>)"
proof (cases "fs_io s")
  case Nil
  then have "next_io s = (None, s\<lparr>fs_io := fs_io s\<rparr>)" by (simp add: next_io_def)
  then show ?thesis by (rule fine)
next
  case (Cons x xs)
  then show ?thesis using fine fails by (cases x) (auto simp: next_io_def)
qed

lemma fs_holds_io [simp]:
  "fs_holds crc from_json (s\<lparr>fs_io := io\<rparr>) pr = fs_holds crc from_json s pr"
  "disk_holds crc from_json (s\<lparr>fs_io := io\<rparr>) torn pr = disk_holds crc from_json s torn pr"
  "disk_holds crc from_json (s\<lparr>fs_io := io, fs_logf := f\<rparr>) torn pr = disk_holds crc from_json (s\<lparr>fs_logf := f\<rparr>) torn pr"
  by (simp_all add: fs_holds_def disk_holds_def log_bytes_def)

lemma fs_holds_disk: "fs_holds crc from_json s pr \<Longrightarrow> disk_holds crc from_json s [] pr"
  by (simp add: fs_holds_def)

text \<open>The result of an operation: on success the store holds the new state, on failure the disk holds a
  state on the way to it.\<close>

definition implements ::
    "(u8 list \<Rightarrow> 32 word) \<Rightarrow> (u8 list \<Rightarrow> hard_state_file option) \<Rightarrow> (persisted_raft \<Rightarrow> bool) \<Rightarrow> persisted_raft \<Rightarrow> 'a stored \<Rightarrow> bool" where
  "implements crc from_json part pr' r \<longleftrightarrow>
     (case r of
        (Inr _, s') \<Rightarrow> fs_holds crc from_json s' pr'
      | (Inl _, s') \<Rightarrow> \<exists>pr'' torn. part pr'' \<and> disk_holds crc from_json s' torn pr'')"

lemma implements_bind:
  assumes "implements crc from_json P pr' m"
    and "\<And>a s. m = (Inr a, s) \<Longrightarrow> fs_holds crc from_json s pr' \<Longrightarrow> implements crc from_json Q pr'' (f a s)"
    and "\<And>x. P x \<Longrightarrow> Q x"
  shows "implements crc from_json Q pr'' (fs_bind m f)"
  using assms by (auto simp: implements_def fs_bind_def split: sum.splits prod.splits)

lemma implements_open:
  assumes "fs_holds crc from_json s pr"
  shows "implements crc from_json (\<lambda>x. x = pr) pr (open_log s)"
    and "open_log s = (Inr (), s') \<Longrightarrow> fs_open s'"
proof -
  show "implements crc from_json (\<lambda>x. x = pr) pr (open_log s)"
  proof (cases "fs_open s")
    case True
    then show ?thesis using assms by (simp add: implements_def open_log_def)
  next
    case False
    then show ?thesis using assms
      by (cases s rule: next_io_cases)
        (auto simp: implements_def open_log_def fs_holds_def disk_holds_def hard_holds_iff)
  qed
  show "open_log s = (Inr (), s') \<Longrightarrow> fs_open s'"
    by (auto simp: open_log_def split: if_splits option.splits prod.splits)
qed

lemma implements_sync: "fs_holds crc from_json s pr \<Longrightarrow> implements crc from_json (\<lambda>x. x = pr) pr (sync_data s)"
  by (cases s rule: next_io_cases) (auto simp: implements_def sync_data_def intro!: exI[of _ "[]"] fs_holds_disk)

lemma implements_hard_state:
  assumes "fs_holds crc from_json s pr" "json_ok to_json from_json" "op_ok (HardState t v) pr"
  shows "implements crc from_json (partial_op (HardState t v) pr) (mem_persist_op (HardState t v) pr) (write_hard_state to_json t v s)"
proof -
  have j: "from_json (to_json \<lparr>hs_current_term = t, hs_voted_for = v, hs_log = []\<rparr>) = Some \<lparr>hs_current_term = t, hs_voted_for = v, hs_log = []\<rparr>"
    using assms(2,3) by (simp add: json_ok_def)
  then have new: "fs_holds crc from_json (s\<lparr>fs_io := io, fs_meta := Some (to_json \<lparr>hs_current_term = t, hs_voted_for = v, hs_log = []\<rparr>)\<rparr>)
      (mem_persist_op (HardState t v) pr)" for io
    using assms(1) by (simp add: fs_holds_def disk_holds_def hard_holds_iff)
  show ?thesis
  proof (cases s rule: next_io_cases)
    case (fine io)
    then show ?thesis using new[of io] by (simp add: implements_def write_hard_state_def write_atomic_def)
  next
    case (fails k io)
    then show ?thesis using fs_holds_disk[OF assms(1)] fs_holds_disk[OF new[of io]]
      by (cases k) (auto simp: implements_def write_hard_state_def write_atomic_def partial_op_def)
  qed
qed

lemma implements_append:
  assumes "fs_holds crc from_json s pr" "op_ok (Append es) pr"
  shows "implements crc from_json (partial_op (Append es) pr) (mem_persist_op (Append es) pr) (persist_append crc es dirty s)"
proof (cases "es = []")
  case True
  then show ?thesis using assms by (simp add: implements_def persist_append_def)
next
  case False
  define write_entries :: "file_store \<Rightarrow> bool stored" where "write_entries s =
     (let base = fs_len s; (new_positions, buf) = encode_entries crc base es [] []
        in case next_io s of
             (None, s) \<Rightarrow>
               (Inr True, s\<lparr>fs_logf := Some (log_bytes s @ buf), fs_len := fs_len s + length buf,
                            fs_positions := fs_positions s @ new_positions\<rparr>)
           | (Some k, s) \<Rightarrow>
               let s = s\<lparr>fs_logf := Some (log_bytes s @ take k buf)\<rparr>
               in (case next_io s of
                     (None, s) \<Rightarrow> (Inl StoreIo, s\<lparr>fs_logf := Some (set_len base (log_bytes s))\<rparr>)
                   | (Some _, s) \<Rightarrow> (Inl StoreIo, s)))" for s
  have inner: "implements crc from_json (partial_op (Append es) pr) (mem_persist_op (Append es) pr) (write_entries s)"
    if s: "fs_holds crc from_json s pr" for s
  proof -
    have f: "hard_holds from_json s pr" "log_bytes s = entries_bytes crc (pr_log pr)" "list_all disk_entry_ok (pr_log pr)"
      "fs_positions s = positions_at 0 (pr_log pr)" "fs_len s = length (entries_bytes crc (pr_log pr))"
      using s by (simp_all add: fs_holds_def disk_holds_def)
    have ok: "contiguous (pr_log pr @ es)" "list_all disk_entry_ok es" using assms(2) by simp_all
    have part: "partial_op (Append es) pr (pr\<lparr>pr_log := pr_log pr @ take j es\<rparr>)" for j
      by (auto simp: partial_op_def)
    show ?thesis
    proof (cases s rule: next_io_cases)
      case (fine io)
      then show ?thesis using f ok
        by (simp add: write_entries_def implements_def encode_entries_eq fs_holds_def disk_holds_def positions_at_append[where crc = crc])
    next
      case (fails k io)
      define s2 where "s2 = s\<lparr>fs_io := io, fs_logf := Some (log_bytes s @ take k (entries_bytes crc es))\<rparr>"
      obtain j torn where t: "take k (entries_bytes crc es) = entries_bytes crc (take j es) @ torn" "torn_entry crc torn"
        by (rule take_entries_bytes[OF ok(2)])
      have "disk_holds crc from_json s2 torn (pr\<lparr>pr_log := pr_log pr @ take j es\<rparr>)"
        using f ok t by (simp add: s2_def disk_holds_def contiguous_append_take list_all_iff)
          (blast dest: in_set_takeD)
      moreover have "disk_holds crc from_json (s2\<lparr>fs_io := io', fs_logf := Some (set_len (fs_len s) (log_bytes s2))\<rparr>) [] pr" for io'
        using s f(2,5) by (simp add: s2_def fs_holds_def disk_holds_def set_len_def)
      ultimately show ?thesis using fails part[of j] part[of 0]
        by (cases s2 rule: next_io_cases)
          (auto simp: write_entries_def implements_def encode_entries_eq s2_def Let_def)
    qed
  qed
  have "persist_append crc es dirty s = fs_bind (open_log s) (\<lambda>_ s. write_entries s)"
    using False by (simp add: persist_append_def write_entries_def)
  then show ?thesis
    using implements_bind[OF implements_open(1)[OF assms(1)] inner] by (simp add: partial_op_def)
qed

lemma implements_truncate:
  assumes "fs_holds crc from_json s pr"
  shows "implements crc from_json (partial_op (TruncateFrom c) pr) (mem_persist_op (TruncateFrom c) pr) (persist_truncate c dirty s)"
proof -
  obtain n where n: "numbered n (pr_log pr)"
    using assms by (auto simp: fs_holds_def disk_holds_def contiguous_iff)
  define cut where "cut = min (c - n) (length (pr_log pr))"
  have m: "mem_persist_op (TruncateFrom c) pr = pr\<lparr>pr_log := take cut (pr_log pr)\<rparr>"
    by (simp add: numbered_filter_less[OF n] cut_def) (simp add: min_def)
  have pp: "partition_point (\<lambda>(i, _). i < c) (fs_positions s) = cut" "length (fs_positions s) = length (pr_log pr)"
    if "fs_holds crc from_json s pr" for s
    using that partition_positions(1)[OF n] by (simp_all add: fs_holds_def cut_def)
  show ?thesis
  proof (cases "cut = length (pr_log pr)")
    case True
    then show ?thesis using assms pp[OF assms] m by (simp add: implements_def persist_truncate_def)
  next
    case False
    define cut_log :: "file_store \<Rightarrow> bool stored" where "cut_log s =
       (let pos = snd (fs_positions s ! cut)
           in case next_io s of
                (Some _, s) \<Rightarrow> (Inl StoreIo, s)
              | (None, s) \<Rightarrow>
                  (Inr True, s\<lparr>fs_logf := Some (set_len pos (log_bytes s)),
                               fs_positions := take cut (fs_positions s), fs_len := pos\<rparr>))" for s
    have inner: "implements crc from_json (partial_op (TruncateFrom c) pr) (mem_persist_op (TruncateFrom c) pr) (cut_log s)"
      if s: "fs_holds crc from_json s pr" for s
    proof -
      have pos: "snd (fs_positions s ! cut) = length (entries_bytes crc (take cut (pr_log pr)))"
        using s False cut_def positions_at_nth[of cut "pr_log pr" 0 crc] by (simp add: fs_holds_def)
      have "fs_holds crc from_json (s\<lparr>fs_io := io, fs_logf := Some (set_len (snd (fs_positions s ! cut)) (log_bytes s)),
          fs_positions := take cut (fs_positions s), fs_len := snd (fs_positions s ! cut)\<rparr>) (pr\<lparr>pr_log := take cut (pr_log pr)\<rparr>)" for io
        unfolding pos using s
        by (auto simp: fs_holds_def disk_holds_def set_len_entries positions_at_take contiguous_take list_all_iff
            dest: in_set_takeD)
      then show ?thesis using s unfolding m
        by (cases s rule: next_io_cases) (auto simp: cut_log_def implements_def partial_op_def Let_def intro!: exI[of _ "[]"] fs_holds_disk)
    qed
    have "persist_truncate c dirty s = fs_bind (open_log s) (\<lambda>_ s. cut_log s)"
      using False pp[OF assms] by (simp add: persist_truncate_def cut_log_def Let_def)
    then show ?thesis
      using implements_bind[OF implements_open(1)[OF assms] inner] by (simp add: partial_op_def)
  qed
qed

lemma read_entries_after_eq:
  assumes "fs_holds crc from_json s pr" "fs_open s"
  shows "read_entries_after crc c s = Inr (filter (\<lambda>e. c < le_index e) (pr_log pr))"
proof -
  have f: "log_bytes s = entries_bytes crc (pr_log pr)" "list_all disk_entry_ok (pr_log pr)"
    "fs_positions s = positions_at 0 (pr_log pr)" "fs_len s = length (entries_bytes crc (pr_log pr))"
    using assms by (simp_all add: fs_holds_def disk_holds_def)
  obtain n where n: "numbered n (pr_log pr)" using assms by (auto simp: fs_holds_def disk_holds_def contiguous_iff)
  define i where "i = min (Suc c - n) (length (pr_log pr))"
  have keep: "filter (\<lambda>e. c < le_index e) (pr_log pr) = drop i (pr_log pr)"
    using numbered_filter_ge[OF n, of "Suc c"] by (auto simp: Suc_le_eq min_def i_def)
  have pp: "partition_point (\<lambda>(i, _). i \<le> c) (fs_positions s) = i"
    using partition_positions(2)[OF n] by (simp add: f i_def)
  show ?thesis
  proof (cases "i < length (pr_log pr)")
    case True
    let ?bs = "entries_bytes crc (drop i (pr_log pr))"
    have "snd (fs_positions s ! i) = length (entries_bytes crc (take i (pr_log pr)))"
      using True positions_at_nth[of i "pr_log pr" 0 crc] by (simp add: f)
    moreover from this have "read_at (log_bytes s) (fs_len s - snd (fs_positions s ! i)) (snd (fs_positions s ! i)) = ?bs"
      using entries_bytes_split[of crc "pr_log pr" i] by (simp add: read_at_def f)
    moreover have "decode_log crc ?bs = (located 0 (drop i (pr_log pr)), length ?bs)"
      using decode_log_entries[of "drop i (pr_log pr)" crc "[]"] f(2) by (auto simp: list_all_iff dest: in_set_dropD)
    ultimately show ?thesis
      using True assms(2) by (simp add: read_entries_after_def pp keep Let_def) (simp add: f)
  next
    case False
    then show ?thesis by (simp add: read_entries_after_def pp keep Let_def) (simp add: f)
  qed
qed

lemma implements_rewrite:
  assumes "fs_holds crc from_json s pr" "list_all disk_entry_ok es" "contiguous es"
  shows "implements crc from_json (\<lambda>x. x = pr \<or> x = pr\<lparr>pr_log := es\<rparr>) (pr\<lparr>pr_log := es\<rparr>) (rewrite_log crc es s)"
proof -
  define s2 where "s2 io = s\<lparr>fs_io := io, fs_logf := Some (entries_bytes crc es), fs_open := False, fs_positions := positions_at 0 es,
     fs_len := length (entries_bytes crc es)\<rparr>" for io
  have new: "fs_holds crc from_json (s2 io) (pr\<lparr>pr_log := es\<rparr>)" for io
    using assms by (simp add: s2_def fs_holds_def disk_holds_def)
  have renamed: "disk_holds crc from_json (s\<lparr>fs_logf := Some (entries_bytes crc es)\<rparr>) [] (pr\<lparr>pr_log := es\<rparr>)"
    using assms by (simp add: fs_holds_def disk_holds_def)
  show ?thesis
  proof (cases s rule: next_io_cases)
    case (fine io)
    have eq: "rewrite_log crc es s = open_log (s2 io)"
      using fine by (simp add: rewrite_log_def encode_entries_eq write_atomic_def fs_bind_def s2_def)
    show ?thesis unfolding eq using implements_open(1)[OF new[of io]]
      by (auto simp: implements_def split: sum.splits prod.splits)
  next
    case (fails k io)
    then show ?thesis using fs_holds_disk[OF assms(1)] renamed
      by (cases k) (auto simp: rewrite_log_def encode_entries_eq write_atomic_def fs_bind_def implements_def)
  qed
qed

lemma implements_compact:
  assumes "fs_holds crc from_json s pr"
  shows "implements crc from_json (partial_op (CompactThrough c) pr) (mem_persist_op (CompactThrough c) pr) (persist_compact crc c dirty s)"
proof (cases "case fs_positions s of [] \<Rightarrow> True | (i, _) # _ \<Rightarrow> i > c")
  case True
  have "contiguous (pr_log pr)" "fs_positions s = positions_at 0 (pr_log pr)"
    using assms by (simp_all add: fs_holds_def disk_holds_def)
  then have "filter (\<lambda>e. c < le_index e) (pr_log pr) = pr_log pr"
    using True numbered_filter_ge[of "le_index (hd (pr_log pr))" "pr_log pr" "Suc c"]
    by (cases "pr_log pr") (auto simp: contiguous_def Suc_le_eq)
  then show ?thesis using assms True by (simp add: implements_def persist_compact_def)
next
  case False
  let ?es = "filter (\<lambda>e. c < le_index e) (pr_log pr)"
  obtain n where n: "numbered n (pr_log pr)" using assms by (auto simp: fs_holds_def disk_holds_def contiguous_iff)
  have es: "list_all disk_entry_ok ?es" "contiguous ?es"
    using assms numbered_filter_ge[OF n, of "Suc c"]
    by (auto simp: fs_holds_def disk_holds_def list_all_iff Suc_le_eq contiguous_drop dest: in_set_dropD)
  have synced: "implements crc from_json (\<lambda>x. x = pr) pr (if dirty then sync_data s else (Inr (), s))"
    if "fs_holds crc from_json s pr" for s
    using that implements_sync by (auto simp: implements_def)
  have rewritten: "implements crc from_json (partial_op (CompactThrough c) pr) (mem_persist_op (CompactThrough c) pr)
      (case read_entries_after crc c s of
         Inl e \<Rightarrow> (Inl e, s) | Inr keep \<Rightarrow> fs_bind (rewrite_log crc keep s) (\<lambda>_ s. (Inr False, s)))"
    if s: "fs_holds crc from_json s pr" "fs_open s" for s
    unfolding read_entries_after_eq[OF s] sum.case
    by (rule implements_bind[OF implements_rewrite[OF s(1) es]]) (auto simp: implements_def partial_op_def)
  have open2: "fs_open s'" if "fs_open s" "(if dirty then sync_data s else (Inr (), s)) = (Inr (), s')" for s s'
    using that by (cases s rule: next_io_cases) (auto simp: sync_data_def split: if_splits)
  have "persist_compact crc c dirty s = fs_bind (open_log s) (\<lambda>_ s.
      fs_bind (if dirty then sync_data s else (Inr (), s)) (\<lambda>_ s.
        case read_entries_after crc c s of
          Inl e \<Rightarrow> (Inl e, s) | Inr keep \<Rightarrow> fs_bind (rewrite_log crc keep s) (\<lambda>_ s. (Inr False, s))))"
    using False by (simp only: persist_compact_def if_False)
  also have "implements crc from_json (partial_op (CompactThrough c) pr) (mem_persist_op (CompactThrough c) pr) \<dots>"
    by (rule implements_bind[OF implements_open(1)[OF assms]], rule implements_bind[OF synced], assumption, rule rewritten)
      (auto simp: partial_op_def intro: open2 implements_open(2)[OF assms])
  finally show ?thesis .
qed

fun ops_ok :: "persist_op list \<Rightarrow> persisted_raft \<Rightarrow> bool" where
  "ops_ok [] pr \<longleftrightarrow> True"
| "ops_ok (op # ops) pr \<longleftrightarrow> op_ok op pr \<and> ops_ok ops (mem_persist_op op pr)"

text \<open>The states a run of operations passes through: before any of them, after each, and within one.\<close>

fun partial_run :: "persist_op list \<Rightarrow> persisted_raft \<Rightarrow> persisted_raft \<Rightarrow> bool" where
  "partial_run [] pr pr' \<longleftrightarrow> pr' = pr"
| "partial_run (op # ops) pr pr' \<longleftrightarrow> partial_op op pr pr' \<or> partial_run ops (mem_persist_op op pr) pr'"

lemma mem_persist_simps [simp]:
  "mem_persist [] pr = pr" "mem_persist (op # ops) pr = mem_persist ops (mem_persist_op op pr)"
  "mem_persist (ops @ ops') pr = mem_persist ops' (mem_persist ops pr)"
  by (simp_all add: mem_persist_def)

lemma ops_ok_append [simp]: "ops_ok (ops @ ops') pr \<longleftrightarrow> ops_ok ops pr \<and> ops_ok ops' (mem_persist ops pr)"
  by (induction ops arbitrary: pr) auto

lemma partial_run_end: "partial_run ops pr (mem_persist ops pr)"
  by (induction ops arbitrary: pr) auto

lemma persist_one_implements:
  assumes "fs_holds crc from_json s pr" "json_ok to_json from_json" "op_ok op pr"
  shows "implements crc from_json (partial_op op pr) (mem_persist_op op pr) (persist_one crc to_json op dirty s)"
proof (cases op)
  case (HardState t v)
  have "implements crc from_json (partial_op (HardState t v) pr) (mem_persist_op (HardState t v) pr)
      (fs_bind (write_hard_state to_json t v s) (\<lambda>_ s. (Inr dirty, s)))"
    by (rule implements_bind[OF implements_hard_state[OF assms(1,2) assms(3)[unfolded HardState]]])
      (simp_all add: implements_def)
  then show ?thesis by (simp only: HardState persist_one.simps)
next
  case (Append es)
  then show ?thesis using implements_append[OF assms(1)] assms(3) by (simp del: mem_persist_op.simps)
next
  case (TruncateFrom c)
  then show ?thesis using implements_truncate[OF assms(1)] by (simp del: mem_persist_op.simps)
next
  case (CompactThrough c)
  then show ?thesis using implements_compact[OF assms(1)] by (simp del: mem_persist_op.simps)
qed

lemma persist_loop_implements:
  assumes "fs_holds crc from_json s pr" "json_ok to_json from_json" "ops_ok ops pr"
  shows "implements crc from_json (partial_run ops pr) (mem_persist ops pr) (persist_loop crc to_json ops dirty s)"
  using assms(1,3)
proof (induction ops arbitrary: s pr dirty)
  case (Cons op ops)
  have run: "implements crc from_json (partial_run ops (mem_persist_op op pr)) (mem_persist ops (mem_persist_op op pr))
      (persist_loop crc to_json ops d s')" if "fs_holds crc from_json s' (mem_persist_op op pr)" for d s'
    using Cons.IH[OF that] Cons.prems(2) by simp
  have "implements crc from_json (partial_run (op # ops) pr) (mem_persist ops (mem_persist_op op pr))
      (persist_loop crc to_json ops d s')" if "fs_holds crc from_json s' (mem_persist_op op pr)" for d s'
    using run[OF that, of d] by (auto simp: implements_def split: sum.splits prod.splits)
  then have "implements crc from_json (partial_run (op # ops) pr) (mem_persist ops (mem_persist_op op pr))
     (fs_bind (persist_one crc to_json op dirty s) (\<lambda>d s. persist_loop crc to_json ops d s))"
    using Cons.prems by (intro implements_bind[OF persist_one_implements[OF Cons.prems(1) assms(2)]]) auto
  then show ?case by (simp only: persist_loop.simps mem_persist_simps)
qed (simp add: implements_def)

lemma fs_persist_implements:
  assumes "fs_holds crc from_json s pr" "json_ok to_json from_json" "ops_ok ops pr"
  shows "implements crc from_json (partial_run ops pr) (mem_persist ops pr) (fs_persist crc to_json ops s)"
  unfolding fs_persist_def
proof (rule implements_bind[OF persist_loop_implements[OF assms]])
  fix d s' assume "fs_holds crc from_json s' (mem_persist ops pr)"
  then show "implements crc from_json (partial_run ops pr) (mem_persist ops pr) (if d then sync_data s' else (Inr (), s'))"
    using implements_sync[of crc from_json s' "mem_persist ops pr"] partial_run_end[of ops pr]
    by (auto simp: implements_def split: sum.splits prod.splits)
qed


section \<open>Restart\<close>

text \<open>What a new process finds: the files, and no fault to come. \<open>FileStore::new\<close> starts with an empty
  table.\<close>

definition fs_restart :: "file_store \<Rightarrow> file_store" where
  "fs_restart s = s\<lparr>fs_open := False, fs_positions := [], fs_len := 0, fs_io := []\<rparr>"

lemma index_gap_located: "numbered n es \<Longrightarrow> \<not> index_gap (located p es)"
proof (induction es arbitrary: n p)
  case (Cons e es)
  then show ?case using Cons.IH[of "n + 1" "p + 24 + length (le_payload e)"] by (cases es) auto
qed simp

lemma fs_load_disk:
  assumes "disk_holds crc from_json s torn pr" "fs_io s = []"
  shows "\<exists>s'. fs_load crc to_json from_json b64 s = (Inr pr, s') \<and> fs_holds crc from_json s' pr"
proof -
  let ?n = "length (entries_bytes crc (pr_log pr))"
  have d: "hard_holds from_json s pr" "log_bytes s = entries_bytes crc (pr_log pr) @ torn"
    "torn_entry crc torn" "list_all disk_entry_ok (pr_log pr)" "contiguous (pr_log pr)"
    using assms by (simp_all add: disk_holds_def)
  have io: "next_io x = (None, x)" if "fs_io x = []" for x using that by (simp add: next_io_def)
  have dec: "decode_log crc (log_bytes s) = (located 0 (pr_log pr), ?n)"
    using decode_log_entries[OF d(4,3)] d(2) by simp
  have gap: "\<not> index_gap (located 0 (pr_log pr))"
    using d(5) index_gap_located by (auto simp: contiguous_iff)
  have read: "read_hard_state from_json s =
      (Inr \<lparr>hs_current_term = pr_current_term pr, hs_voted_for = pr_voted_for pr, hs_log = []\<rparr>, s)"
    using d(1) by (simp add: hard_holds_def)
  define s1 where "s1 = (if torn = [] then s else s\<lparr>fs_logf := Some (entries_bytes crc (pr_log pr))\<rparr>)"
  define s2 where "s2 = s1\<lparr>fs_open := False, fs_positions := positions_at 0 (pr_log pr), fs_len := ?n\<rparr>"
  have s2: "fs_holds crc from_json s2 pr" "fs_io s2 = []" "\<not> fs_open s2"
    using d assms(2) unfolding s2_def s1_def by (auto simp: fs_holds_def disk_holds_def)
  have "set_len ?n (log_bytes s) = entries_bytes crc (pr_log pr)" by (simp add: d(2) set_len_def)
  then have eq: "fs_load crc to_json from_json b64 s =
      fs_bind (if fs_logf s2 \<noteq> None then open_log s2 else (Inr (), s2))
        (\<lambda>_ s. (Inr \<lparr>pr_current_term = pr_current_term pr, pr_voted_for = pr_voted_for pr, pr_log = pr_log pr\<rparr>, s))"
    using gap io[OF assms(2)] arg_cong[OF d(2), of length]
    by (auto simp: fs_load_def fs_bind_def read migrate_legacy_def dec s1_def s2_def positions_at_def Let_def)
  show ?thesis
    unfolding eq using s2 io[of s2]
    by (auto simp: fs_bind_def open_log_def fs_holds_def disk_holds_def)
qed

lemma fs_load_restart:
  "disk_holds crc from_json s torn pr \<Longrightarrow>
   \<exists>s'. fs_load crc to_json from_json b64 (fs_restart s) = (Inr pr, s') \<and> fs_holds crc from_json s' pr"
  by (rule fs_load_disk) (auto simp: fs_restart_def disk_holds_def)


section \<open>Stores as an interface\<close>

text \<open>What the node relies on of \<open>RaftStore\<close>: a successful \<open>persist\<close> is there after a restart, a failed
  one leaves a state on the way.\<close>

locale raft_store =
  fixes persist :: "persist_op list \<Rightarrow> 's \<Rightarrow> (store_error + unit) \<times> 's"
    and reload :: "'s \<Rightarrow> (store_error + persisted_raft) \<times> 's"
    and holds :: "'s \<Rightarrow> persisted_raft \<Rightarrow> bool"
    and valid :: "persist_op list \<Rightarrow> persisted_raft \<Rightarrow> bool"
  assumes persist_holds:
      "holds s pr \<Longrightarrow> valid ops pr \<Longrightarrow> persist ops s = (Inr (), s') \<Longrightarrow> holds s' (mem_persist ops pr)"
    and persist_failed:
      "holds s pr \<Longrightarrow> valid ops pr \<Longrightarrow> persist ops s = (Inl e, s') \<Longrightarrow>
       \<exists>pr' s''. partial_run ops pr pr' \<and> reload s' = (Inr pr', s'') \<and> holds s'' pr'"
    and reload_holds: "holds s pr \<Longrightarrow> \<exists>s'. reload s = (Inr pr, s') \<and> holds s' pr"
begin

lemma persist_reload:
  assumes "holds s pr" "valid ops pr"
  shows "\<exists>pr' s''. reload (snd (persist ops s)) = (Inr pr', s'') \<and> holds s'' pr' \<and> partial_run ops pr pr' \<and>
    (fst (persist ops s) = Inr () \<longrightarrow> pr' = mem_persist ops pr)"
proof -
  obtain r s' where p: "persist ops s = (r, s')" by (cases "persist ops s")
  show ?thesis
  proof (cases r)
    case (Inl e)
    then show ?thesis using persist_failed[OF assms] p by fastforce
  next
    case (Inr u)
    then have "holds s' (mem_persist ops pr)" using persist_holds[OF assms] p by simp
    then obtain s'' where "reload s' = (Inr (mem_persist ops pr), s'')" "holds s'' (mem_persist ops pr)"
      using reload_holds by blast
    then show ?thesis using p partial_run_end by auto
  qed
qed

text \<open>A sequence of successful batches, then a restart.\<close>

lemma batches_reload:
  assumes "holds s pr" "valid ops pr" "persist ops s = (Inr (), s1)"
    and "valid ops' (mem_persist ops pr)" "persist ops' s1 = (Inr (), s2)"
  shows "\<exists>s3. reload s2 = (Inr (mem_persist (ops @ ops') pr), s3)"
proof -
  have "holds s1 (mem_persist ops pr)" using persist_holds[OF assms(1-3)] .
  then have "holds s2 (mem_persist ops' (mem_persist ops pr))" using persist_holds assms(4,5) by blast
  then show ?thesis using reload_holds by fastforce
qed

end

definition mem_store_persist :: "persist_op list \<Rightarrow> persisted_raft \<Rightarrow> (store_error + unit) \<times> persisted_raft" where
  "mem_store_persist ops s = (Inr (), mem_persist ops s)"

definition mem_store_load :: "persisted_raft \<Rightarrow> (store_error + persisted_raft) \<times> persisted_raft" where
  "mem_store_load s = (Inr s, s)"

interpretation mem_store: raft_store mem_store_persist mem_store_load "(=)" "\<lambda>_ _. True"
  by unfold_locales (auto simp: mem_store_persist_def mem_store_load_def)

lemma file_store_laws:
  assumes "json_ok to_json from_json"
  shows "raft_store (fs_persist crc to_json) (\<lambda>s. fs_load crc to_json from_json b64 (fs_restart s))
    (fs_holds crc from_json) ops_ok"
proof
  fix s pr ops s'
  assume "fs_holds crc from_json s pr" "ops_ok ops pr" "fs_persist crc to_json ops s = (Inr (), s')"
  then show "fs_holds crc from_json s' (mem_persist ops pr)"
    using fs_persist_implements[OF _ assms] by (fastforce simp: implements_def)
next
  fix s pr ops e s'
  assume "fs_holds crc from_json s pr" "ops_ok ops pr" "fs_persist crc to_json ops s = (Inl e, s')"
  then obtain pr' torn where "partial_run ops pr pr'" "disk_holds crc from_json s' torn pr'"
    using fs_persist_implements[OF _ assms] by (fastforce simp: implements_def)
  then show "\<exists>pr' s''. partial_run ops pr pr' \<and> fs_load crc to_json from_json b64 (fs_restart s') = (Inr pr', s'') \<and>
      fs_holds crc from_json s'' pr'"
    using fs_load_restart by blast
next
  fix s pr assume "fs_holds crc from_json s pr"
  then show "\<exists>s'. fs_load crc to_json from_json b64 (fs_restart s) = (Inr pr, s') \<and> fs_holds crc from_json s' pr"
    using fs_load_restart[OF fs_holds_disk] by blast
qed


lemma decode_log_loop_sound:
  assumes "decode_log_loop crc bytes pos out = (ds, v)" "pos \<le> length bytes"
    "take pos bytes = entries_bytes crc (map fst out)" "list_all disk_entry_ok (map fst out)"
  shows "v \<le> length bytes \<and> take v bytes = entries_bytes crc (map fst ds) \<and> list_all disk_entry_ok (map fst ds)"
  using assms
proof (induction crc bytes pos out rule: decode_log_loop.induct)
  case (1 crc bytes pos out)
  define n where "n = from_be_bytes (subslice pos (pos + 4) bytes)"
  define body where "body = subslice (pos + 8) (pos + 4 + n) bytes"
  define e where "e = \<lparr>le_term = from_be_bytes (subslice 0 8 body), le_index = from_be_bytes (subslice 8 16 body),
    le_payload = drop 16 body\<rparr>"
  show ?case
  proof (cases "length bytes - pos \<ge> ENTRY_HEADER \<and> 20 \<le> n \<and> n \<le> MAX_ENTRY_BYTES \<and> pos + 4 + n \<le> length bytes \<and>
      unat (crc body) = from_be_bytes (subslice (pos + 4) (pos + 8) bytes)")
    case True
    then have le: "pos + 24 \<le> length bytes" "20 \<le> n" "n \<le> MAX_ENTRY_BYTES" "pos + 4 + n \<le> length bytes"
      by (auto simp: ENTRY_HEADER_def)
    have eq: "decode_log_loop crc bytes pos out = decode_log_loop crc bytes (pos + 4 + n) (out @ [(e, pos)])"
      using True by (subst decode_log_loop.simps) (simp add: n_def body_def e_def Let_def)
    have len: "length body = n - 4" using le by (simp add: body_def length_subslice)
    have pl: "length (le_payload e) = n - 20" using len by (simp add: e_def)
    have eb: "entry_body e = body"
    proof -
      have "entry_body e = subslice 0 8 body @ subslice 8 16 body @ drop 16 body"
        using len le by (simp add: entry_body_def e_def be_bytes_from_be length_subslice)
      also have "\<dots> = body" using subslice_drop[of 8 16 body] subslice_drop[of 0 8 body] len le by simp
      finally show ?thesis .
    qed
    have "encode_entry crc e = be_bytes 4 n @ be_bytes 4 (unat (crc body)) @ body"
      using pl le(2) by (simp add: encode_entry_def eb)
    also have "\<dots> = subslice pos (pos + 4) bytes @ subslice (pos + 4) (pos + 8) bytes @ body"
      using True le by (simp add: n_def be_bytes_from_be length_subslice)
    also have "\<dots> = subslice pos (pos + 4 + n) bytes"
      using le by (simp add: body_def subslice_join)
    finally have enc: "encode_entry crc e = subslice pos (pos + 4 + n) bytes" .
    have ok: "disk_entry_ok e"
      using le len from_be_8_less[of "subslice 0 8 body"] from_be_8_less[of "subslice 8 16 body"]
      by (simp add: disk_entry_ok_def e_def length_subslice)
    have "take (pos + 4 + n) bytes = entries_bytes crc (map fst (out @ [(e, pos)]))"
      using take_subslice[of pos "pos + 4 + n" bytes] le 1(4) enc by simp
    then show ?thesis
      using 1(1)[of n "from_be_bytes (subslice (pos + 4) (pos + 8) bytes)" body] True le ok 1(2,5) eq
      by (simp add: n_def[symmetric] body_def[symmetric] e_def[symmetric])
  next
    case False
    then have "decode_log_loop crc bytes pos out = (out, pos)"
      by (subst decode_log_loop.simps) (auto simp: n_def body_def Let_def)
    then show ?thesis using 1(2-5) by simp
  qed
qed

lemma decode_log_sound:
  "decode_log crc bytes = (ds, v) \<Longrightarrow>
   v \<le> length bytes \<and> take v bytes = entries_bytes crc (map fst ds) \<and> list_all disk_entry_ok (map fst ds)"
  unfolding decode_log_def by (drule decode_log_loop_sound) simp_all


section \<open>Properties\<close>

text \<open>C28: durability of the Raft state. Persist any batch of operations, with a failure injected at any
  system call, then restart: the store loads. After a success it loads exactly the state the
  operations describe; after a failure it loads a state on the way there, that is the effect of a
  prefix of the operations, the last append possibly cut to its first entries. In both cases the
  reopened store is again in step with its files.\<close>

theorem raft_store_durable:
  assumes "fs_holds crc from_json s pr" "json_ok to_json from_json" "ops_ok ops pr"
  shows "\<exists>pr' s''. fs_load crc to_json from_json b64 (fs_restart (snd (fs_persist crc to_json ops s))) = (Inr pr', s'') \<and>
    fs_holds crc from_json s'' pr' \<and> partial_run ops pr pr' \<and>
    (fst (fs_persist crc to_json ops s) = Inr () \<longrightarrow> pr' = mem_persist ops pr)"
  by (rule raft_store.persist_reload[OF file_store_laws[OF assms(2)] assms(1,3)])

definition sample_to_json :: "hard_state_file \<Rightarrow> u8 list" where
  "sample_to_json h = be_bytes 8 (hs_current_term h) @ (case hs_voted_for h of None \<Rightarrow> [] | Some n \<Rightarrow> be_bytes 4 n)"

definition sample_from_json :: "u8 list \<Rightarrow> hard_state_file option" where
  "sample_from_json bs = Some \<lparr>hs_current_term = from_be_bytes (take 8 bs),
     hs_voted_for = (if length bs = 8 then None else Some (from_be_bytes (drop 8 bs))), hs_log = []\<rparr>"

lemma sample_json_ok: "json_ok sample_to_json sample_from_json"
  by (auto simp: json_ok_def sample_to_json_def sample_from_json_def split: option.split)

definition fresh_store :: "nat option list \<Rightarrow> file_store" where
  "fresh_store io = \<lparr>fs_meta = None, fs_logf = None, fs_snap = None, fs_open = False, fs_positions = [], fs_len = 0, fs_io = io\<rparr>"

definition no_raft :: persisted_raft where
  "no_raft = \<lparr>pr_current_term = 0, pr_voted_for = None, pr_log = []\<rparr>"

lemma fresh_store_holds: "fs_holds crc from_json (fresh_store io) no_raft"
  by (simp add: fs_holds_def disk_holds_def fresh_store_def no_raft_def hard_holds_iff log_bytes_def contiguous_def)

definition sample_ops :: "persist_op list" where
  "sample_ops = [HardState 1 (Some 2), Append [\<lparr>le_term = 1, le_index = 1, le_payload = [7]\<rparr>, \<lparr>le_term = 1, le_index = 2, le_payload = [8]\<rparr>]]"

lemma sample_ops_ok: "ops_ok sample_ops no_raft"
  by (simp add: sample_ops_def no_raft_def contiguous_def disk_entry_ok_def MAX_ENTRY_BYTES_def)

theorem raft_store_durable_witness:
  "fs_holds (\<lambda>_. 5) sample_from_json (fresh_store [None, None, Some 30, Some 0]) no_raft \<and>
   json_ok sample_to_json sample_from_json \<and> ops_ok sample_ops no_raft \<and>
   (\<exists>pr' s''. fs_load (\<lambda>_. 5) sample_to_json sample_from_json (\<lambda>_. None)
        (fs_restart (snd (fs_persist (\<lambda>_. 5) sample_to_json sample_ops (fresh_store [None, None, Some 30, Some 0])))) = (Inr pr', s'') \<and>
      partial_run sample_ops no_raft pr')"
  using raft_store_durable[OF fresh_store_holds[of "\<lambda>_. 5" sample_from_json "[None, None, Some 30, Some 0]"]
      sample_json_ok sample_ops_ok, of "\<lambda>_. None"] fresh_store_holds sample_json_ok sample_ops_ok
  by blast

text \<open>C29: what the Raft log file parses to is what was written. On any bytes, the entries returned are
  exactly the ones whose encodings make up the valid prefix, all of them within their types, so no
  entry is invented and nothing behind the first damage is used.\<close>

theorem raft_log_parse_sound:
  assumes "decode_log crc bytes = (ds, valid)"
  shows "valid \<le> length bytes \<and> take valid bytes = entries_bytes crc (map fst ds) \<and> list_all disk_entry_ok (map fst ds)"
  using decode_log_sound[OF assms] .

theorem raft_log_parse_sound_witness:
  "decode_log (\<lambda>_. 5) (entries_bytes (\<lambda>_. 5) [\<lparr>le_term = 1, le_index = 1, le_payload = [7]\<rparr>]) =
     ([(\<lparr>le_term = 1, le_index = 1, le_payload = [7]\<rparr>, 0)], 25) \<and>
   take 25 (entries_bytes (\<lambda>_. 5) [\<lparr>le_term = 1, le_index = 1, le_payload = [7]\<rparr>]) =
     entries_bytes (\<lambda>_. 5) [\<lparr>le_term = 1, le_index = 1, le_payload = [7]\<rparr>]"
proof -
  let ?e = "\<lparr>le_term = 1, le_index = 1, le_payload = [7]\<rparr>"
  have d: "decode_log (\<lambda>_. 5) (entries_bytes (\<lambda>_. 5) [?e]) = ([(?e, 0)], 25)"
    using decode_log_entries[of "[?e]" "\<lambda>_. 5" "[]"] by (simp add: disk_entry_ok_def MAX_ENTRY_BYTES_def)
  show ?thesis using d raft_log_parse_sound[OF d] by simp
qed

end
