(* ===== verification/Raft_State.thy ===== *)
theory Raft_State
  imports Raft_Store
begin

text \<open>
  The Raft state machine of \<open>raft/state.rs\<close>: election, replication, commit advancement, snapshots
  and membership changes. Every method of \<open>RaftState\<close> is a function from the state (and the event)
  to the actions and the new state; log messages (\<open>tracing\<close>) are left out.

  \<open>BTreeMap\<close>s are partial maps, the \<open>HashSet\<close> of votes is a set.
\<close>

section \<open>State\<close>

definition MAX_APPEND_ENTRIES :: nat where "MAX_APPEND_ENTRIES = 1024"
definition MAX_APPEND_BYTES :: nat where "MAX_APPEND_BYTES = 4 * 1024 * 1024"
definition MAX_TERM_JUMP :: raft_term where "MAX_TERM_JUMP = 2 ^ 20"

datatype role = Follower | Candidate | Leader

datatype action =
    SendTo node_id message
  | Broadcast message
  | ResetElectionTimer
  | Apply log_entry
  | SendSnapshot node_id

record raft_state =
  rs_me :: node_id
  rs_peers :: "node_id list"
  rs_role :: role
  rs_current_term :: raft_term
  rs_voted_for :: "node_id option"
  rs_leader_hint :: "node_id option"
  rs_log :: raft_log
  rs_commit_index :: log_index
  rs_last_applied :: log_index
  rs_match_index :: "node_id \<rightharpoonup> log_index"
  rs_next_index :: "node_id \<rightharpoonup> log_index"
  rs_snapshot_cursor :: "node_id \<rightharpoonup> nat"
  rs_noop_on_elect :: bool
  rs_votes_received :: "node_id set"
  rs_pending :: "persist_op list"

datatype propose_outcome = Accepted log_index | NotLeader "node_id option"

section \<open>Membership entries\<close>

definition CONFIG_MAGIC :: "u8 list" where
  "CONFIG_MAGIC = [0xEE, 0xEE, 0xEE, 0xEE]"

definition encode_config_change :: "node_id list \<Rightarrow> node_id list \<Rightarrow> u8 list" where
  "encode_config_change add remove =
     CONFIG_MAGIC @ be_bytes 4 (length add) @ concat (map (be_bytes 4) add) @
     be_bytes 4 (length remove) @ concat (map (be_bytes 4) remove)"

definition take_ids :: "node_id list reader" where
  "take_ids = rbind rd_u32 (\<lambda>len. rd_times len rd_u32)"

definition decode_config_change :: "u8 list \<Rightarrow> (node_id list \<times> node_id list) option" where
  "decode_config_change payload =
     (if length payload < 8 \<or> take 4 payload \<noteq> CONFIG_MAGIC then None
      else case rbind take_ids (\<lambda>add. rbind take_ids (\<lambda>remove. rret (add, remove))) (drop 4 payload) of
             Inl _ \<Rightarrow> None
           | Inr (ids, _) \<Rightarrow> Some ids)"

definition is_config_entry :: "u8 list \<Rightarrow> bool" where
  "is_config_entry payload \<longleftrightarrow> length payload \<ge> 4 \<and> take 4 payload = CONFIG_MAGIC"


section \<open>Construction and persistence\<close>

definition raft_new :: "node_id \<Rightarrow> node_id list \<Rightarrow> raft_state" where
  "raft_new me peers =
     \<lparr>rs_me = me, rs_peers = peers, rs_role = Follower, rs_current_term = 0, rs_voted_for = None,
      rs_leader_hint = None, rs_log = empty_log, rs_commit_index = 0, rs_last_applied = 0,
      rs_match_index = Map.empty, rs_next_index = Map.empty, rs_snapshot_cursor = Map.empty,
      rs_noop_on_elect = False, rs_votes_received = {}, rs_pending = []\<rparr>"

text \<open>\<open>Inl ()\<close> is the refusal of a log whose first entry does not follow the snapshot.\<close>

definition restore_snapshot :: "persisted_snapshot \<Rightarrow> raft_state \<Rightarrow> raft_state" where
  "restore_snapshot snap s =
     (let pending = (case lg_entries (rs_log s) of
                       [] \<Rightarrow> rs_pending s
                     | e # _ \<Rightarrow> if le_index e \<le> ps_last_index snap
                                then rs_pending s @ [CompactThrough (ps_last_index snap)] else rs_pending s);
          log = (compact_through (ps_last_index snap) (ps_last_term snap) (rs_log s))
                  \<lparr>lg_base_index := ps_last_index snap, lg_base_term := ps_last_term snap\<rparr>
      in s\<lparr>rs_pending := pending, rs_log := log,
           rs_commit_index := max (rs_commit_index s) (ps_last_index snap),
           rs_last_applied := max (rs_last_applied s) (ps_last_index snap)\<rparr>)"

definition restore :: "persisted_raft \<Rightarrow> persisted_snapshot option \<Rightarrow> raft_state \<Rightarrow> (unit + unit) \<times> raft_state" where
  "restore persisted snapshot s =
     (let s1 = s\<lparr>rs_current_term := pr_current_term persisted, rs_voted_for := pr_voted_for persisted,
                 rs_log := into_log persisted\<rparr>;
          s2 = (case snapshot of None \<Rightarrow> s1 | Some snap \<Rightarrow> restore_snapshot snap s1)
      in case lg_entries (rs_log s2) of
           [] \<Rightarrow> (Inr (), s2)
         | first # _ \<Rightarrow> if le_index first \<noteq> lg_base_index (rs_log s2) + 1 then (Inl (), s2) else (Inr (), s2))"

definition snapshot_persistent :: "raft_state \<Rightarrow> persisted_raft" where
  "snapshot_persistent s = from_runtime (rs_current_term s) (rs_voted_for s) (rs_log s)"

definition raft_take_snapshot ::
    "u8 list \<Rightarrow> log_index option \<Rightarrow> raft_state \<Rightarrow> (unit + persisted_snapshot) \<times> raft_state" where
  "raft_take_snapshot data through s =
     (let through = min (case through of None \<Rightarrow> rs_last_applied s | Some t \<Rightarrow> t) (rs_last_applied s)
      in if through = 0 \<or> through \<le> lg_base_index (rs_log s) then (Inl (), s)
         else case term_at (rs_log s) through of
                None \<Rightarrow> (Inl (), s)
              | Some t \<Rightarrow>
                  (Inr \<lparr>ps_last_index = through, ps_last_term = t, ps_data = data\<rparr>,
                   s\<lparr>rs_log := compact_through through t (rs_log s),
                     rs_pending := rs_pending s @ [CompactThrough through]\<rparr>))"

definition take_persist_ops :: "raft_state \<Rightarrow> persist_op list \<times> raft_state" where
  "take_persist_ops s = (rs_pending s, s\<lparr>rs_pending := []\<rparr>)"

fun is_hard_state :: "persist_op \<Rightarrow> bool" where
  "is_hard_state (HardState _ _) = True"
| "is_hard_state _ = False"

definition persist_hard_state :: "raft_state \<Rightarrow> raft_state" where
  "persist_hard_state s =
     s\<lparr>rs_pending := filter (\<lambda>op. \<not> is_hard_state op) (rs_pending s) @
                     [HardState (rs_current_term s) (rs_voted_for s)]\<rparr>"

definition quorum :: "raft_state \<Rightarrow> nat" where
  "quorum s = (length (rs_peers s) + 1) div 2 + 1"

definition is_member :: "raft_state \<Rightarrow> node_id \<Rightarrow> bool" where
  "is_member s i \<longleftrightarrow> i \<in> set (rs_peers s)"


section \<open>Replication messages and commit\<close>

definition map_get :: "('a \<rightharpoonup> 'b) \<Rightarrow> 'a \<Rightarrow> 'b \<Rightarrow> 'b" where
  "map_get m k d = (case m k of None \<Rightarrow> d | Some v \<Rightarrow> v)"

definition build_append_for :: "raft_state \<Rightarrow> node_id \<Rightarrow> message" where
  "build_append_for s peer =
     (let next = map_get (rs_next_index s) peer 1;
          prev_log_index = next - 1
      in AppendEntries \<lparr>ae_term = rs_current_term s, ae_leader_id = rs_me s, ae_prev_log_index = prev_log_index,
           ae_prev_log_term = (case term_at (rs_log s) prev_log_index of None \<Rightarrow> 0 | Some t \<Rightarrow> t),
           ae_entries = slice_bounded (rs_log s) next MAX_APPEND_ENTRIES MAX_APPEND_BYTES,
           ae_leader_commit = rs_commit_index s\<rparr>)"

definition replicate_to :: "raft_state \<Rightarrow> node_id \<Rightarrow> action" where
  "replicate_to s peer =
     (if map_get (rs_next_index s) peer 1 \<le> lg_base_index (rs_log s) then SendSnapshot peer
      else SendTo peer (build_append_for s peer))"

definition on_heartbeat_tick :: "raft_state \<Rightarrow> action list" where
  "on_heartbeat_tick s = (if rs_role s \<noteq> Leader then [] else map (replicate_to s) (rs_peers s))"

definition commit_candidate :: "raft_state \<Rightarrow> log_index" where
  "commit_candidate s =
     (let indices = sort (map (\<lambda>p. map_get (rs_match_index s) p 0) (rs_peers s) @ [last_index (rs_log s)])
      in indices ! (length indices - quorum s))"

definition recompute_commit_index :: "raft_state \<Rightarrow> raft_state" where
  "recompute_commit_index s =
     (if commit_candidate s > rs_commit_index s \<and> term_at (rs_log s) (commit_candidate s) = Some (rs_current_term s)
      then s\<lparr>rs_commit_index := commit_candidate s\<rparr> else s)"

definition append_local :: "u8 list \<Rightarrow> raft_state \<Rightarrow> log_index \<times> raft_state" where
  "append_local payload s =
     (let next_idx = last_index (rs_log s) + 1;
          entry = \<lparr>le_term = rs_current_term s, le_index = next_idx, le_payload = payload\<rparr>
      in (next_idx, s\<lparr>rs_pending := rs_pending s @ [Append [entry]],
                      rs_log := (rs_log s)\<lparr>lg_entries := lg_entries (rs_log s) @ [entry]\<rparr>\<rparr>))"


section \<open>Applying committed entries\<close>

definition add_peer :: "node_id \<Rightarrow> raft_state \<Rightarrow> raft_state" where
  "add_peer i s =
     (if i \<notin> set (rs_peers s) \<and> i \<noteq> rs_me s
      then s\<lparr>rs_peers := rs_peers s @ [i], rs_next_index := (rs_next_index s)(i \<mapsto> 1),
             rs_match_index := (rs_match_index s)(i \<mapsto> 0)\<rparr>
      else s)"

definition remove_peer :: "node_id \<Rightarrow> raft_state \<Rightarrow> raft_state" where
  "remove_peer i s =
     s\<lparr>rs_peers := filter (\<lambda>p. p \<noteq> i) (rs_peers s), rs_match_index := (rs_match_index s)(i := None),
       rs_next_index := (rs_next_index s)(i := None), rs_snapshot_cursor := (rs_snapshot_cursor s)(i := None)\<rparr>"

definition apply_config_change :: "node_id list \<Rightarrow> node_id list \<Rightarrow> raft_state \<Rightarrow> raft_state" where
  "apply_config_change add remove s =
     (let s' = fold add_peer add (fold remove_peer remove s) in s'\<lparr>rs_peers := sort (rs_peers s')\<rparr>)"

lemma apply_config_change_fields [simp]:
  "rs_commit_index (apply_config_change a r s) = rs_commit_index s"
  "rs_last_applied (apply_config_change a r s) = rs_last_applied s"
  "rs_log (apply_config_change a r s) = rs_log s"
  "rs_me (apply_config_change a r s) = rs_me s"
  "rs_role (apply_config_change a r s) = rs_role s"
  "rs_current_term (apply_config_change a r s) = rs_current_term s"
  "rs_voted_for (apply_config_change a r s) = rs_voted_for s"
  "rs_pending (apply_config_change a r s) = rs_pending s"
  "rs_votes_received (apply_config_change a r s) = rs_votes_received s"
proof -
  have "rs_commit_index (fold remove_peer r s) = rs_commit_index s \<and> rs_last_applied (fold remove_peer r s) = rs_last_applied s \<and>
    rs_log (fold remove_peer r s) = rs_log s \<and> rs_me (fold remove_peer r s) = rs_me s \<and> rs_role (fold remove_peer r s) = rs_role s \<and>
    rs_current_term (fold remove_peer r s) = rs_current_term s \<and> rs_voted_for (fold remove_peer r s) = rs_voted_for s \<and>
    rs_pending (fold remove_peer r s) = rs_pending s \<and> rs_votes_received (fold remove_peer r s) = rs_votes_received s" for s
    by (induction r arbitrary: s) (simp_all add: remove_peer_def)
  moreover have "rs_commit_index (fold add_peer a s) = rs_commit_index s \<and> rs_last_applied (fold add_peer a s) = rs_last_applied s \<and>
    rs_log (fold add_peer a s) = rs_log s \<and> rs_me (fold add_peer a s) = rs_me s \<and> rs_role (fold add_peer a s) = rs_role s \<and>
    rs_current_term (fold add_peer a s) = rs_current_term s \<and> rs_voted_for (fold add_peer a s) = rs_voted_for s \<and>
    rs_pending (fold add_peer a s) = rs_pending s \<and> rs_votes_received (fold add_peer a s) = rs_votes_received s" for s
    by (induction a arbitrary: s) (simp_all add: add_peer_def)
  ultimately show
    "rs_commit_index (apply_config_change a r s) = rs_commit_index s"
    "rs_last_applied (apply_config_change a r s) = rs_last_applied s"
    "rs_log (apply_config_change a r s) = rs_log s"
    "rs_me (apply_config_change a r s) = rs_me s"
    "rs_role (apply_config_change a r s) = rs_role s"
    "rs_current_term (apply_config_change a r s) = rs_current_term s"
    "rs_voted_for (apply_config_change a r s) = rs_voted_for s"
    "rs_pending (apply_config_change a r s) = rs_pending s"
    "rs_votes_received (apply_config_change a r s) = rs_votes_received s"
    by (simp_all add: apply_config_change_def Let_def)
qed

text \<open>One iteration of the \<open>while\<close> loop of \<open>drain_apply_actions\<close>.\<close>

definition apply_next :: "raft_state \<Rightarrow> action list \<times> raft_state" where
  "apply_next s =
     (let s = s\<lparr>rs_last_applied := rs_last_applied s + 1\<rparr>
      in case log_get (rs_log s) (rs_last_applied s) of
           None \<Rightarrow> ([], s)
         | Some e \<Rightarrow>
             if le_payload e = [] then ([], s)
             else case decode_config_change (le_payload e) of
                    Some (add, remove) \<Rightarrow> ([], apply_config_change add remove s)
                  | None \<Rightarrow> ([Apply e], s))"

lemma apply_next_indices:
  "rs_commit_index (snd (apply_next s)) = rs_commit_index s"
  "rs_last_applied (snd (apply_next s)) = rs_last_applied s + 1"
  by (simp_all add: apply_next_def Let_def split: option.split prod.split)

function drain_loop :: "raft_state \<Rightarrow> action list \<Rightarrow> action list \<times> raft_state" where
  "drain_loop s out =
     (if rs_last_applied s < rs_commit_index s
      then drain_loop (snd (apply_next s)) (out @ fst (apply_next s))
      else (out, s))"
  by pat_completeness auto
termination
  by (relation "measure (\<lambda>(s, _). rs_commit_index s - rs_last_applied s)") (auto simp: apply_next_indices)

declare drain_loop.simps [simp del]

definition drain_apply_actions :: "raft_state \<Rightarrow> action list \<times> raft_state" where
  "drain_apply_actions s = drain_loop s []"


section \<open>Elections\<close>

definition step_down_to :: "raft_term \<Rightarrow> raft_state \<Rightarrow> raft_state" where
  "step_down_to t s =
     (let changed = (t > rs_current_term s \<or> rs_voted_for s \<noteq> None);
          s = s\<lparr>rs_current_term := max t (rs_current_term s), rs_voted_for := None\<rparr>;
          s = (if changed then persist_hard_state s else s)
      in s\<lparr>rs_role := Follower, rs_votes_received := {}, rs_leader_hint := None, rs_match_index := Map.empty,
           rs_next_index := Map.empty, rs_snapshot_cursor := Map.empty\<rparr>)"

definition become_leader :: "raft_state \<Rightarrow> raft_state" where
  "become_leader s =
     (let s = s\<lparr>rs_role := Leader, rs_leader_hint := Some (rs_me s), rs_snapshot_cursor := Map.empty\<rparr>;
          s = (if rs_noop_on_elect s then snd (append_local [] s) else s);
          last = last_index (rs_log s);
          s = s\<lparr>rs_match_index := map_of (map (\<lambda>p. (p, 0)) (rs_peers s)),
                rs_next_index := map_of (map (\<lambda>p. (p, last + 1)) (rs_peers s)), rs_votes_received := {}\<rparr>
      in recompute_commit_index s)"

definition start_election :: "raft_state \<Rightarrow> action list \<times> raft_state" where
  "start_election s =
     (let s = s\<lparr>rs_current_term := sat_add64 (rs_current_term s) 1, rs_role := Candidate, rs_voted_for := Some (rs_me s)\<rparr>;
          s = persist_hard_state s;
          s = s\<lparr>rs_votes_received := {rs_me s}, rs_leader_hint := None\<rparr>;
          rv = \<lparr>rv_term = rs_current_term s, rv_candidate_id = rs_me s,
                rv_last_log_index = last_index (rs_log s), rv_last_log_term = last_term (rs_log s)\<rparr>
      in if rs_peers s = [] then
           let s = become_leader s; out = on_heartbeat_tick s; (more, s) = drain_apply_actions s
           in (out @ more, s)
         else ([ResetElectionTimer, Broadcast (RequestVote rv)], s))"

definition on_election_timeout :: "raft_state \<Rightarrow> action list \<times> raft_state" where
  "on_election_timeout s = (if rs_role s = Leader then ([], s) else start_election s)"

definition handle_request_vote :: "request_vote \<Rightarrow> raft_state \<Rightarrow> action list \<times> raft_state" where
  "handle_request_vote rv s =
     (let our_last_term = last_term (rs_log s);
          our_last_index = last_index (rs_log s);
          up_to_date = (rv_last_log_term rv > our_last_term \<or>
                        (rv_last_log_term rv = our_last_term \<and> rv_last_log_index rv \<ge> our_last_index));
          can_vote = (rs_voted_for s = None \<or> rs_voted_for s = Some (rv_candidate_id rv));
          grant = (rv_term rv \<ge> rs_current_term s \<and> up_to_date \<and> can_vote);
          s = (if grant \<and> rs_voted_for s \<noteq> Some (rv_candidate_id rv)
               then persist_hard_state (s\<lparr>rs_voted_for := Some (rv_candidate_id rv)\<rparr>) else s);
          resp = RequestVoteResp \<lparr>rvr_term = rs_current_term s, rvr_vote_granted = grant, rvr_voter_id = rs_me s\<rparr>
      in ([SendTo (rv_candidate_id rv) resp] @ (if grant then [ResetElectionTimer] else []), s))"

definition handle_request_vote_resp :: "request_vote_resp \<Rightarrow> raft_state \<Rightarrow> action list \<times> raft_state" where
  "handle_request_vote_resp rvr s =
     (if rs_role s \<noteq> Candidate \<or> rvr_term rvr \<noteq> rs_current_term s then ([], s)
      else if rvr_vote_granted rvr then
        let s = s\<lparr>rs_votes_received := insert (rvr_voter_id rvr) (rs_votes_received s)\<rparr>
        in if card (rs_votes_received s) \<ge> quorum s
           then (let s = become_leader s in (on_heartbeat_tick s, s))
           else ([], s)
      else ([], s))"


section \<open>Replication\<close>

definition log_consistent :: "raft_log \<Rightarrow> log_index \<Rightarrow> raft_term \<Rightarrow> bool" where
  "log_consistent l prev_index prev_term =
     (if prev_index = 0 then True
      else if prev_index < lg_base_index l then True
      else case term_at l prev_index of Some t \<Rightarrow> t = prev_term | None \<Rightarrow> False)"

text \<open>The part of \<open>handle_append_entries\<close> behind a successful consistency check: append, then move the
  commit index. The flag is \<open>success\<close>.\<close>

definition accept_entries :: "append_entries \<Rightarrow> raft_state \<Rightarrow> bool \<times> raft_state" where
  "accept_entries ae s =
     (let (applied, s) =
        (if ae_entries ae = [] then (True, s)
         else case append_at (sat_add64 (ae_prev_log_index ae) 1) (ae_entries ae) (rs_commit_index s) (rs_log s) of
                (Inr (Some first_changed), l) \<Rightarrow>
                  (True, s\<lparr>rs_log := l,
                           rs_pending := rs_pending s @ [TruncateFrom first_changed, Append (log_slice l first_changed u64_max)]\<rparr>)
              | (Inr None, l) \<Rightarrow> (True, s\<lparr>rs_log := l\<rparr>)
              | (Inl _, l) \<Rightarrow> (False, s\<lparr>rs_log := l\<rparr>));
          last_new = sat_add64 (ae_prev_log_index ae) (length (ae_entries ae))
      in if applied then
           (True, if ae_leader_commit ae > rs_commit_index s
                  then s\<lparr>rs_commit_index := max (min (ae_leader_commit ae) last_new) (rs_commit_index s)\<rparr> else s)
         else (False, s))"

definition handle_append_entries :: "append_entries \<Rightarrow> raft_state \<Rightarrow> action list \<times> raft_state" where
  "handle_append_entries ae s =
     (let from_current_leader = (ae_term ae \<ge> rs_current_term s);
          (success, match_index, s) =
        (if from_current_leader then
           let s = (if ae_term ae > rs_current_term s
                    then persist_hard_state (s\<lparr>rs_current_term := ae_term ae, rs_voted_for := None\<rparr>) else s);
               s = s\<lparr>rs_role := Follower, rs_leader_hint := Some (ae_leader_id ae)\<rparr>;
               (success, s) = (if log_consistent (rs_log s) (ae_prev_log_index ae) (ae_prev_log_term ae)
                               then accept_entries ae s else (False, s))
           in (success, if success then sat_add64 (ae_prev_log_index ae) (length (ae_entries ae))
                        else last_index (rs_log s), s)
         else (False, 0, s));
          resp = AppendEntriesResp \<lparr>aer_term = rs_current_term s, aer_success = success,
                   aer_responder_id = rs_me s, aer_match_index = match_index\<rparr>
      in ([SendTo (ae_leader_id ae) resp] @ (if from_current_leader then [ResetElectionTimer] else []), s))"

definition handle_append_entries_resp :: "append_entries_resp \<Rightarrow> raft_state \<Rightarrow> action list \<times> raft_state" where
  "handle_append_entries_resp aer s =
     (if rs_role s \<noteq> Leader \<or> aer_term aer \<noteq> rs_current_term s then ([], s)
      else let peer = aer_responder_id aer
      in if aer_success aer then
           let mi = min (aer_match_index aer) (last_index (rs_log s));
               cur = map_get (rs_match_index s) peer 0;
               s = (if mi > cur then s\<lparr>rs_match_index := (rs_match_index s)(peer \<mapsto> mi)\<rparr> else s);
               mi = max mi cur;
               s = s\<lparr>rs_next_index := (rs_next_index s)(peer \<mapsto> sat_add64 mi 1)\<rparr>;
               s = recompute_commit_index s
           in (if mi < last_index (rs_log s) then [replicate_to s peer] else [], s)
         else
           let cur = map_get (rs_next_index s) peer 1;
               hinted = sat_add64 (aer_match_index aer) 1;
               next = max (min (cur - 1) hinted) 1;
               s = s\<lparr>rs_next_index := (rs_next_index s)(peer \<mapsto> next)\<rparr>
           in ([replicate_to s peer], s))"

definition handle_install_snapshot :: "install_snapshot_msg \<Rightarrow> nat \<Rightarrow> raft_state \<Rightarrow> action list \<times> raft_state" where
  "handle_install_snapshot ism progress s =
     (if is_term ism < rs_current_term s then
        ([SendTo (is_leader_id ism) (InstallSnapshotResp \<lparr>isr_term = rs_current_term s, isr_success = False,
            isr_responder_id = rs_me s, isr_next_offset = progress, isr_installed_index = 0\<rparr>)], s)
      else
        let s = s\<lparr>rs_role := Follower, rs_leader_hint := Some (is_leader_id ism)\<rparr>;
            s = (if is_term ism > rs_current_term s
                 then persist_hard_state (s\<lparr>rs_current_term := is_term ism, rs_voted_for := None\<rparr>) else s);
            (installed_index, s) =
              (if is_done ism then
                 let s = (if is_last_index ism > lg_base_index (rs_log s) then
                            let (kept, l) = log_install_snapshot (is_last_index ism) (is_last_term ism) (rs_log s)
                            in s\<lparr>rs_log := l, rs_pending := rs_pending s @
                                   [if kept then CompactThrough (is_last_index ism) else TruncateFrom 0]\<rparr>
                          else s);
                     s = s\<lparr>rs_commit_index := max (rs_commit_index s) (is_last_index ism),
                           rs_last_applied := max (rs_last_applied s) (is_last_index ism)\<rparr>
                 in (max (is_last_index ism) (lg_base_index (rs_log s)), s)
               else (0, s))
        in ([SendTo (is_leader_id ism) (InstallSnapshotResp \<lparr>isr_term = rs_current_term s, isr_success = True,
               isr_responder_id = rs_me s, isr_next_offset = progress, isr_installed_index = installed_index\<rparr>),
             ResetElectionTimer], s))"

definition handle_install_snapshot_resp :: "install_snapshot_resp \<Rightarrow> raft_state \<Rightarrow> action list \<times> raft_state" where
  "handle_install_snapshot_resp isr s =
     (if rs_role s \<noteq> Leader \<or> isr_term isr \<noteq> rs_current_term s then ([], s)
      else let peer = isr_responder_id isr
      in if \<not> isr_success isr then ([], s)
         else if isr_installed_index isr > 0 then
           let installed = min (isr_installed_index isr) (last_index (rs_log s));
               cur = map_get (rs_match_index s) peer 0;
               mi = max cur installed;
               s = s\<lparr>rs_match_index := (rs_match_index s)(peer \<mapsto> mi), rs_next_index := (rs_next_index s)(peer \<mapsto> mi + 1),
                     rs_snapshot_cursor := (rs_snapshot_cursor s)(peer := None)\<rparr>;
               s = recompute_commit_index s
           in (if mi < last_index (rs_log s) \<or> lg_base_index (rs_log s) > mi then [replicate_to s peer] else [], s)
         else ([SendSnapshot peer], s\<lparr>rs_snapshot_cursor := (rs_snapshot_cursor s)(peer \<mapsto> isr_next_offset isr)\<rparr>))"


section \<open>Events\<close>

definition handle_message :: "message \<Rightarrow> nat \<Rightarrow> raft_state \<Rightarrow> action list \<times> raft_state" where
  "handle_message msg progress s =
     (case msg of
        RequestVote rv \<Rightarrow> handle_request_vote rv s
      | RequestVoteResp rvr \<Rightarrow> handle_request_vote_resp rvr s
      | AppendEntries ae \<Rightarrow> handle_append_entries ae s
      | AppendEntriesResp aer \<Rightarrow> handle_append_entries_resp aer s
      | InstallSnapshot ism \<Rightarrow> handle_install_snapshot ism progress s
      | InstallSnapshotResp isr \<Rightarrow> handle_install_snapshot_resp isr s)"

definition on_message_with_progress :: "message \<Rightarrow> nat \<Rightarrow> raft_state \<Rightarrow> action list \<times> raft_state" where
  "on_message_with_progress msg progress s =
     (if \<not> is_member s (msg_sender msg) then ([], s)
      else if msg_term msg > sat_add64 (rs_current_term s) MAX_TERM_JUMP \<or> msg_term msg = u64_max then ([], s)
      else let stepped_down = (msg_term msg > rs_current_term s);
               s = (if stepped_down then step_down_to (msg_term msg) s else s);
               (actions, s) = handle_message msg progress s;
               actions = (if stepped_down \<and> ResetElectionTimer \<notin> set actions then ResetElectionTimer # actions else actions);
               (applied, s) = drain_apply_actions s
           in (actions @ applied, s))"

definition on_message :: "message \<Rightarrow> raft_state \<Rightarrow> action list \<times> raft_state" where
  "on_message msg s = on_message_with_progress msg 0 s"

definition try_propose :: "u8 list \<Rightarrow> raft_state \<Rightarrow> propose_outcome \<times> action list \<times> raft_state" where
  "try_propose payload s =
     (if rs_role s \<noteq> Leader then (NotLeader (rs_leader_hint s), [], s)
      else let (next_idx, s) = append_local payload s;
               s = recompute_commit_index s;
               (actions, s) = drain_apply_actions s
           in (Accepted next_idx, actions, s))"

definition try_change_membership ::
    "node_id list \<Rightarrow> node_id list \<Rightarrow> raft_state \<Rightarrow> propose_outcome \<times> action list \<times> raft_state" where
  "try_change_membership add remove s =
     (if rs_role s \<noteq> Leader then (NotLeader (rs_leader_hint s), [], s)
      else try_propose (encode_config_change add remove) s)"

end
