(* ===== verification/Raft_Local.thy ===== *)
theory Raft_Local
  imports Raft_State "HOL-Library.Multiset"
begin

text \<open>
  What one node guarantees by itself, whatever messages it is sent: its log stays numbered, the
  order of snapshot, applied and commit index is kept, terms grow, a vote is never changed within
  a term, the commit index only moves to entries a quorum holds, committed entries are handed over
  once and in order, and the operations recorded for the disk always describe the state in memory.
\<close>

named_theorems raft_fields \<open>which fields an operation leaves alone\<close>

section \<open>Fields an operation leaves alone\<close>

lemma persist_hard_state_fields [simp]:
  "rs_me (persist_hard_state s) = rs_me s" "rs_peers (persist_hard_state s) = rs_peers s"
  "rs_role (persist_hard_state s) = rs_role s" "rs_current_term (persist_hard_state s) = rs_current_term s"
  "rs_voted_for (persist_hard_state s) = rs_voted_for s" "rs_leader_hint (persist_hard_state s) = rs_leader_hint s"
  "rs_log (persist_hard_state s) = rs_log s" "rs_commit_index (persist_hard_state s) = rs_commit_index s"
  "rs_last_applied (persist_hard_state s) = rs_last_applied s" "rs_match_index (persist_hard_state s) = rs_match_index s"
  "rs_next_index (persist_hard_state s) = rs_next_index s" "rs_votes_received (persist_hard_state s) = rs_votes_received s"
  "rs_noop_on_elect (persist_hard_state s) = rs_noop_on_elect s"
  by (simp_all add: persist_hard_state_def)

lemma recompute_commit_fields [simp]:
  "rs_me (recompute_commit_index s) = rs_me s" "rs_peers (recompute_commit_index s) = rs_peers s"
  "rs_role (recompute_commit_index s) = rs_role s" "rs_current_term (recompute_commit_index s) = rs_current_term s"
  "rs_voted_for (recompute_commit_index s) = rs_voted_for s" "rs_leader_hint (recompute_commit_index s) = rs_leader_hint s"
  "rs_log (recompute_commit_index s) = rs_log s" "rs_last_applied (recompute_commit_index s) = rs_last_applied s"
  "rs_match_index (recompute_commit_index s) = rs_match_index s" "rs_next_index (recompute_commit_index s) = rs_next_index s"
  "rs_votes_received (recompute_commit_index s) = rs_votes_received s" "rs_pending (recompute_commit_index s) = rs_pending s"
  by (simp_all add: recompute_commit_index_def)

lemma append_local_fields [simp]:
  "rs_me (snd (append_local p s)) = rs_me s" "rs_peers (snd (append_local p s)) = rs_peers s"
  "rs_role (snd (append_local p s)) = rs_role s" "rs_current_term (snd (append_local p s)) = rs_current_term s"
  "rs_voted_for (snd (append_local p s)) = rs_voted_for s" "rs_commit_index (snd (append_local p s)) = rs_commit_index s"
  "rs_last_applied (snd (append_local p s)) = rs_last_applied s" "rs_match_index (snd (append_local p s)) = rs_match_index s"
  "rs_votes_received (snd (append_local p s)) = rs_votes_received s"
  by (simp_all add: append_local_def Let_def)

lemma apply_next_fields:
  "rs_me (snd (apply_next s)) = rs_me s" "rs_role (snd (apply_next s)) = rs_role s"
  "rs_current_term (snd (apply_next s)) = rs_current_term s" "rs_voted_for (snd (apply_next s)) = rs_voted_for s"
  "rs_log (snd (apply_next s)) = rs_log s" "rs_pending (snd (apply_next s)) = rs_pending s"
  "rs_votes_received (snd (apply_next s)) = rs_votes_received s"
  by (simp_all add: apply_next_def Let_def split: option.split prod.split)

lemma drain_loop_fields:
  "rs_me (snd (drain_loop s out)) = rs_me s \<and> rs_role (snd (drain_loop s out)) = rs_role s \<and>
   rs_current_term (snd (drain_loop s out)) = rs_current_term s \<and> rs_voted_for (snd (drain_loop s out)) = rs_voted_for s \<and>
   rs_log (snd (drain_loop s out)) = rs_log s \<and> rs_pending (snd (drain_loop s out)) = rs_pending s \<and>
   rs_votes_received (snd (drain_loop s out)) = rs_votes_received s \<and> rs_commit_index (snd (drain_loop s out)) = rs_commit_index s \<and>
   rs_last_applied (snd (drain_loop s out)) = max (rs_last_applied s) (rs_commit_index s)"
proof (induction s out rule: drain_loop.induct)
  case (1 s out)
  then show ?case
    by (subst (1 2 3 4 5 6 7 8 9) drain_loop.simps) (simp add: apply_next_fields apply_next_indices)
qed

lemma drain_fields [simp]:
  "rs_me (snd (drain_apply_actions s)) = rs_me s" "rs_role (snd (drain_apply_actions s)) = rs_role s"
  "rs_current_term (snd (drain_apply_actions s)) = rs_current_term s" "rs_voted_for (snd (drain_apply_actions s)) = rs_voted_for s"
  "rs_log (snd (drain_apply_actions s)) = rs_log s" "rs_pending (snd (drain_apply_actions s)) = rs_pending s"
  "rs_votes_received (snd (drain_apply_actions s)) = rs_votes_received s"
  "rs_commit_index (snd (drain_apply_actions s)) = rs_commit_index s"
  "rs_last_applied (snd (drain_apply_actions s)) = max (rs_last_applied s) (rs_commit_index s)"
  using drain_loop_fields[of s "[]"] by (simp_all add: drain_apply_actions_def)


section \<open>What is applied\<close>

text \<open>The entries handed to the state machine when the applied index moves from \<open>a\<close> to \<open>c\<close>: in index
  order, without the leaders' empty entries and without membership changes.\<close>

definition to_apply :: "raft_log \<Rightarrow> log_index \<Rightarrow> log_index \<Rightarrow> action list" where
  "to_apply l a c =
     map Apply (filter (\<lambda>e. le_payload e \<noteq> [] \<and> decode_config_change (le_payload e) = None)
       (List.map_filter (log_get l) [a + 1 ..< c + 1]))"

lemma to_apply_step:
  assumes "a < c"
  shows "to_apply l a c =
     (case log_get l (a + 1) of
        None \<Rightarrow> []
      | Some e \<Rightarrow> if le_payload e \<noteq> [] \<and> decode_config_change (le_payload e) = None then [Apply e] else []) @ to_apply l (a + 1) c"
proof -
  have "[a + 1 ..< c + 1] = (a + 1) # [a + 1 + 1 ..< c + 1]" 
    using assms upt_conv_Cons[of "a + 1" "c + 1"] by (simp del: upt_Suc)
  then show ?thesis unfolding to_apply_def by (simp del: upt_Suc add: map_filter_simps split: option.split)
qed

lemma apply_next_actions:
  "fst (apply_next s) =
     (case log_get (rs_log s) (rs_last_applied s + 1) of
        None \<Rightarrow> []
      | Some e \<Rightarrow> if le_payload e \<noteq> [] \<and> decode_config_change (le_payload e) = None then [Apply e] else [])"
  by (auto simp: apply_next_def Let_def split: option.split)

lemma drain_loop_actions: "fst (drain_loop s out) = out @ to_apply (rs_log s) (rs_last_applied s) (rs_commit_index s)"
proof (induction s out rule: drain_loop.induct)
  case (1 s out)
  show ?case
  proof (cases "rs_last_applied s < rs_commit_index s")
    case True
    then show ?thesis using 1
      by (subst drain_loop.simps) (simp add: apply_next_fields apply_next_indices apply_next_actions to_apply_step)
  next
    case False
    then show ?thesis by (subst drain_loop.simps) (simp add: to_apply_def)
  qed
qed

lemma drain_actions: "fst (drain_apply_actions s) = to_apply (rs_log s) (rs_last_applied s) (rs_commit_index s)"
  by (simp add: drain_apply_actions_def drain_loop_actions)


section \<open>The commit index\<close>

text \<open>What counting means: of a sorted list, the element at \<open>length - q\<close> is reached by at least \<open>q\<close>
  elements.\<close>

lemma sorted_nth_count:
  assumes "sorted xs" "0 < q" "q \<le> length xs"
  shows "q \<le> length (filter (\<lambda>x. xs ! (length xs - q) \<le> x) xs)"
proof -
  let ?k = "length xs - q"
  have "filter (\<lambda>x. xs ! ?k \<le> x) (drop ?k xs) = drop ?k xs"
    using assms by (auto simp: filter_id_conv in_set_conv_nth sorted_nth_mono)
  then have "filter (\<lambda>x. xs ! ?k \<le> x) xs = filter (\<lambda>x. xs ! ?k \<le> x) (take ?k xs) @ drop ?k xs"
    by (metis append_take_drop_id filter_append)
  then show ?thesis using assms by simp
qed

lemma length_filter_sort: "length (filter P (sort xs)) = length (filter P (xs :: 'a :: linorder list))"
  by (metis mset_filter mset_sort size_mset)

text \<open>The members known to hold the log up to \<open>n\<close>.\<close>

definition holders :: "raft_state \<Rightarrow> log_index \<Rightarrow> node_id list" where
  "holders s n = filter (\<lambda>p. n \<le> map_get (rs_match_index s) p 0) (rs_peers s) @
     (if n \<le> last_index (rs_log s) then [rs_me s] else [])"

lemma commit_candidate_quorum: "quorum s \<le> length (holders s (commit_candidate s))"
proof -
  let ?xs = "map (\<lambda>p. map_get (rs_match_index s) p 0) (rs_peers s) @ [last_index (rs_log s)]"
  have "quorum s \<le> length (filter (\<lambda>x. commit_candidate s \<le> x) (sort ?xs))"
    unfolding commit_candidate_def Let_def
    by (rule sorted_nth_count) (auto simp: quorum_def)
  then show ?thesis
    unfolding length_filter_sort by (auto simp: holders_def filter_map comp_def split: if_splits)
qed

lemma commit_candidate_greatest:
  assumes "quorum s \<le> length (holders s n)"
  shows "n \<le> commit_candidate s"
proof (rule ccontr)
  let ?ys = "map (\<lambda>p. map_get (rs_match_index s) p 0) (rs_peers s) @ [last_index (rs_log s)]"
  define xs where "xs = sort ?ys"
  define k where "k = length xs - quorum s"
  assume "\<not> n \<le> commit_candidate s"
  then have lt: "xs ! k < n" by (simp add: commit_candidate_def xs_def k_def Let_def)
  have len: "length xs = length (rs_peers s) + 1" by (simp add: xs_def)
  have k: "k < length xs" "k + 1 = length xs - quorum s + 1" "quorum s \<le> length xs" "0 < quorum s"
    by (auto simp: k_def len quorum_def)
  have "xs ! i < n" if "i \<le> k" for i
    using that k(1) lt sorted_nth_mono[of xs i k] by (simp add: xs_def)
  then have "filter (\<lambda>x. n \<le> x) (take (k + 1) xs) = []"
    by (auto simp: filter_empty_conv in_set_conv_nth less_Suc_eq_le not_le)
  then have "filter (\<lambda>x. n \<le> x) xs = filter (\<lambda>x. n \<le> x) (drop (k + 1) xs)"
    by (metis append_Nil append_take_drop_id filter_append)
  then have "length (filter (\<lambda>x. n \<le> x) xs) \<le> length xs - (k + 1)"
    by (metis length_drop length_filter_le)
  then have "length (filter (\<lambda>x. n \<le> x) xs) < quorum s" using k by (simp add: k_def)
  then have "length (filter (\<lambda>x. n \<le> x) ?ys) < quorum s" by (simp only: xs_def length_filter_sort)
  then show False using assms by (auto simp: holders_def filter_map comp_def split: if_splits)
qed

lemma recompute_commit_index_cases:
  obtains (same) "recompute_commit_index s = s"
    | (advanced) c where "recompute_commit_index s = s\<lparr>rs_commit_index := c\<rparr>" "rs_commit_index s < c"
        "term_at (rs_log s) c = Some (rs_current_term s)" "quorum s \<le> length (holders s c)"
proof (cases "commit_candidate s > rs_commit_index s \<and> term_at (rs_log s) (commit_candidate s) = Some (rs_current_term s)")
  case True
  then show ?thesis using commit_candidate_quorum[of s] by (intro advanced) (auto simp: recompute_commit_index_def)
next
  case False
  then show ?thesis by (intro same) (auto simp: recompute_commit_index_def)
qed

lemma recompute_commit_mono: "rs_commit_index s \<le> rs_commit_index (recompute_commit_index s)"
  by (auto simp: recompute_commit_index_def)



section \<open>The state in memory and the operations recorded for the disk\<close>

text \<open>Applying the pending operations to what is stored gives the state in memory, and a file store
  accepts them.\<close>

definition tracks :: "persisted_raft \<Rightarrow> raft_state \<Rightarrow> bool" where
  "tracks stored s \<longleftrightarrow> ops_ok (rs_pending s) stored \<and> mem_persist (rs_pending s) stored = snapshot_persistent s"

lemma op_ok_log: "pr_log pr = pr_log pr' \<Longrightarrow> op_ok op pr = op_ok op pr'"
  by (cases op) auto

lemma mem_persist_op_log: "pr_log pr = pr_log pr' \<Longrightarrow> pr_log (mem_persist_op op pr) = pr_log (mem_persist_op op pr')"
  by (cases op) auto

lemma without_hard_states:
  assumes "pr_log pr = pr_log pr'" "ops_ok ops pr"
  shows "ops_ok (filter (\<lambda>op. \<not> is_hard_state op) ops) pr' \<and>
    pr_log (mem_persist (filter (\<lambda>op. \<not> is_hard_state op) ops) pr') = pr_log (mem_persist ops pr)"
  using assms
proof (induction ops arbitrary: pr pr')
  case (Cons op ops)
  show ?case
  proof (cases "is_hard_state op")
    case True
    then obtain t v where op: "op = HardState t v" by (cases op) auto
    then have "pr_log (mem_persist_op op pr) = pr_log pr'" using Cons.prems(1) by simp
    then show ?thesis using Cons.IH[of "mem_persist_op op pr" pr'] Cons.prems(2) True by simp
  next
    case False
    then show ?thesis
      using Cons.IH[OF mem_persist_op_log[OF Cons.prems(1), of op]] Cons.prems(2) op_ok_log[OF Cons.prems(1), of op] by simp
  qed
qed simp

lemma tracks_hard_state:
  assumes "tracks stored s" "t < 2 ^ 64" "\<forall>n. v = Some n \<longrightarrow> n < 2 ^ 32"
  shows "tracks stored (persist_hard_state (s\<lparr>rs_current_term := t, rs_voted_for := v\<rparr>))"
proof -
  let ?ops = "filter (\<lambda>op. \<not> is_hard_state op) (rs_pending s)"
  have "ops_ok ?ops stored" "pr_log (mem_persist ?ops stored) = lg_entries (rs_log s)"
    using without_hard_states[OF refl, of "rs_pending s" stored] assms(1)
    by (simp_all add: tracks_def snapshot_persistent_def from_runtime_def)
  then show ?thesis
    using assms(2,3) by (simp add: tracks_def persist_hard_state_def snapshot_persistent_def from_runtime_def)
qed

lemma tracks_cong:
  "tracks stored s \<Longrightarrow> rs_pending s' = rs_pending s \<Longrightarrow> rs_current_term s' = rs_current_term s \<Longrightarrow>
   rs_voted_for s' = rs_voted_for s \<Longrightarrow> lg_entries (rs_log s') = lg_entries (rs_log s) \<Longrightarrow> tracks stored s'"
  by (simp add: tracks_def snapshot_persistent_def from_runtime_def)

lemma tracks_more:
  assumes "tracks stored s" "ops_ok ops (snapshot_persistent s)"
    "mem_persist ops (snapshot_persistent s) = snapshot_persistent s'" "rs_pending s' = rs_pending s @ ops"
  shows "tracks stored s'"
  using assms by (simp add: tracks_def)

lemma snapshot_persistent_simps [simp]:
  "pr_current_term (snapshot_persistent s) = rs_current_term s" "pr_voted_for (snapshot_persistent s) = rs_voted_for s"
  "pr_log (snapshot_persistent s) = lg_entries (rs_log s)"
  by (simp_all add: snapshot_persistent_def from_runtime_def)

lemma snapshot_persistent_eqI:
  "pr_current_term pr = rs_current_term s \<Longrightarrow> pr_voted_for pr = rs_voted_for s \<Longrightarrow> pr_log pr = lg_entries (rs_log s) \<Longrightarrow>
   pr = snapshot_persistent s"
  by (simp add: snapshot_persistent_def from_runtime_def)


section \<open>The invariant of a node\<close>

definition raft_inv :: "raft_state \<Rightarrow> bool" where
  "raft_inv s \<longleftrightarrow>
     log_wf (rs_log s) \<and> last_index (rs_log s) < u64_max \<and>
     lg_base_index (rs_log s) \<le> rs_last_applied s \<and> rs_last_applied s \<le> rs_commit_index s \<and>
     rs_me s \<notin> set (rs_peers s) \<and> distinct (rs_peers s) \<and>
     rs_current_term s < 2 ^ 64 \<and> rs_me s < 2 ^ 32 \<and> (\<forall>p \<in> set (rs_peers s). p < 2 ^ 32) \<and>
     (\<forall>n. rs_voted_for s = Some n \<longrightarrow> n < 2 ^ 32) \<and>
     (rs_role s \<noteq> Follower \<longrightarrow> rs_voted_for s = Some (rs_me s))"

definition node_ok :: "persisted_raft \<Rightarrow> raft_state \<Rightarrow> bool" where
  "node_ok stored s \<longleftrightarrow> raft_inv s \<and> tracks stored s"

lemma node_ok_cong:
  assumes "node_ok stored s"
    and "rs_log s' = rs_log s" "rs_pending s' = rs_pending s" "rs_current_term s' = rs_current_term s"
    "rs_voted_for s' = rs_voted_for s" "rs_me s' = rs_me s" "rs_peers s' = rs_peers s"
    "rs_commit_index s' = rs_commit_index s" "rs_last_applied s' = rs_last_applied s"
    "rs_role s' = rs_role s \<or> rs_role s' = Follower"
  shows "node_ok stored s'"
  using assms unfolding node_ok_def raft_inv_def by (auto intro: tracks_cong)

lemma entry_term_ok: "disk_entry_ok e \<Longrightarrow> le_term e < 2 ^ 64"
  by (simp add: disk_entry_ok_def)

lemma node_ok_hard_state:
  assumes "node_ok stored s" "t < 2 ^ 64" "\<forall>n. v = Some n \<longrightarrow> n < 2 ^ 32"
    "rs_role s \<noteq> Follower \<longrightarrow> v = Some (rs_me s)"
  shows "node_ok stored (persist_hard_state (s\<lparr>rs_current_term := t, rs_voted_for := v\<rparr>))"
  using assms unfolding node_ok_def raft_inv_def by (auto intro: tracks_hard_state)

lemma node_ok_append_local:
  assumes "node_ok stored s" "last_index (rs_log s) + 1 < u64_max" "20 + length p \<le> MAX_ENTRY_BYTES"
  shows "node_ok stored (snd (append_local p s))"
proof -
  let ?e = "\<lparr>le_term = rs_current_term s, le_index = last_index (rs_log s) + 1, le_payload = p\<rparr>"
  have wf: "log_wf (rs_log s)" using assms(1) by (simp add: node_ok_def raft_inv_def)
  have log: "lg_entries (rs_log (snd (append_local p s))) = lg_entries (rs_log s) @ [?e]"
    "lg_base_index (rs_log (snd (append_local p s))) = lg_base_index (rs_log s)"
    by (simp_all add: append_local_def Let_def)
  have ok: "disk_entry_ok ?e" using assms by (simp add: disk_entry_ok_def node_ok_def raft_inv_def)
  have num: "numbered (lg_base_index (rs_log s) + 1) (lg_entries (rs_log s) @ [?e])"
    using wf last_index_wf[OF wf] by (simp add: log_wf_def)
  have "tracks stored (snd (append_local p s))"
  proof (rule tracks_more[of stored s "[Append [?e]]"])
    show "tracks stored s" using assms(1) by (simp add: node_ok_def)
    show "rs_pending (snd (append_local p s)) = rs_pending s @ [Append [?e]]"
      by (simp add: append_local_def Let_def)
    show "mem_persist [Append [?e]] (snapshot_persistent s) = snapshot_persistent (snd (append_local p s))"
      by (rule snapshot_persistent_eqI) (simp_all add: log)
    show "ops_ok [Append [?e]] (snapshot_persistent s)" using num ok by (auto simp: contiguous_iff)
  qed
  moreover have "log_wf (rs_log (snd (append_local p s)))" using num by (simp add: log_wf_def log)
  moreover from this have "last_index (rs_log (snd (append_local p s))) = last_index (rs_log s) + 1"
    using wf by (simp add: last_index_wf log)
  ultimately show ?thesis using assms(1,2) log unfolding node_ok_def raft_inv_def by simp
qed

lemma node_ok_recompute: "node_ok stored s \<Longrightarrow> node_ok stored (recompute_commit_index s)"
  unfolding node_ok_def raft_inv_def
  using recompute_commit_mono[of s] by (auto intro: tracks_cong)

lemma fold_remove_peer: "rs_peers (fold remove_peer r s) = filter (\<lambda>p. p \<notin> set r) (rs_peers s)"
  by (induction r arbitrary: s) (simp_all add: remove_peer_def conj_commute)

lemma fold_add_peer:
  assumes "distinct (rs_peers s)" "rs_me s \<notin> set (rs_peers s)"
  shows "distinct (rs_peers (fold add_peer a s)) \<and> rs_me s \<notin> set (rs_peers (fold add_peer a s)) \<and>
    set (rs_peers (fold add_peer a s)) \<subseteq> set (rs_peers s) \<union> set a"
  using assms
proof (induction a arbitrary: s)
  case (Cons i a)
  have "distinct (rs_peers (add_peer i s))" "rs_me s \<notin> set (rs_peers (add_peer i s))" "rs_me (add_peer i s) = rs_me s"
    "set (rs_peers (add_peer i s)) \<subseteq> insert i (set (rs_peers s))"
    using Cons.prems by (auto simp: add_peer_def)
  then show ?case using Cons.IH[of "add_peer i s"] by (auto 0 3)
qed simp

lemma decode_config_change_range:
  assumes "decode_config_change p = Some (add, remove)"
  shows "\<forall>i \<in> set add. i < 2 ^ 32"
proof -
  have ids: "yields take_ids (\<lambda>xs. list_all (\<lambda>x. x < 2 ^ 32) xs)"
    unfolding take_ids_def using yields_times[OF yields_ints(3)] by (intro yields_rbind[OF yields_ints(3)]) (auto simp: yields_def)
  have "yields (rbind take_ids (\<lambda>add. rbind take_ids (\<lambda>remove. rret (add, remove)))) (\<lambda>(a, r). list_all (\<lambda>x. x < 2 ^ 32) a)"
    by (intro yields_rbind[OF ids] yields_rret) simp
  then show ?thesis using assms
    by (auto simp: decode_config_change_def list_all_iff dest: yieldsD split: if_splits sum.splits)
qed

lemma raft_inv_config_change:
  assumes "raft_inv s" "\<forall>i \<in> set add. i < 2 ^ 32"
  shows "raft_inv (apply_config_change add remove s)"
proof -
  let ?s1 = "fold remove_peer remove s"
  have me: "rs_me (fold remove_peer r x) = rs_me x" for r x by (induction r arbitrary: x) (simp_all add: remove_peer_def)
  have "distinct (rs_peers ?s1)" "rs_me ?s1 \<notin> set (rs_peers ?s1)" "\<forall>p \<in> set (rs_peers ?s1). p < 2 ^ 32"
    using assms(1) by (auto simp: fold_remove_peer raft_inv_def me)
  then have "distinct (rs_peers (apply_config_change add remove s))" "rs_me s \<notin> set (rs_peers (apply_config_change add remove s))"
    "\<forall>p \<in> set (rs_peers (apply_config_change add remove s)). p < 2 ^ 32"
    using fold_add_peer[of ?s1 add] assms(2) by (auto simp: apply_config_change_def Let_def me)
  then show ?thesis using assms(1) unfolding raft_inv_def by simp
qed

lemma node_ok_apply_next:
  assumes "node_ok stored s" "rs_last_applied s < rs_commit_index s"
  shows "node_ok stored (snd (apply_next s))"
proof -
  let ?s = "s\<lparr>rs_last_applied := rs_last_applied s + 1\<rparr>"
  have s: "raft_inv ?s" using assms unfolding node_ok_def raft_inv_def by auto
  then have "raft_inv (snd (apply_next s))"
    using raft_inv_config_change[OF s] decode_config_change_range
    by (auto simp: apply_next_def Let_def split: option.split)
  then show ?thesis
    using assms(1) by (auto simp: node_ok_def apply_next_fields intro: tracks_cong)
qed

lemma node_ok_drain_loop: "node_ok stored s \<Longrightarrow> node_ok stored (snd (drain_loop s out))"
proof (induction s out rule: drain_loop.induct)
  case (1 s out)
  then show ?case by (subst drain_loop.simps) (simp add: node_ok_apply_next)
qed

lemma node_ok_drain: "node_ok stored s \<Longrightarrow> node_ok stored (snd (drain_apply_actions s))"
  by (simp add: drain_apply_actions_def node_ok_drain_loop)



section \<open>Every event keeps the invariant\<close>

text \<open>What the transport guarantees of a message: fields within their types, entries the store accepts,
  and indices that stay clear of the end of the 64-bit range.\<close>

fun msg_ok :: "message \<Rightarrow> bool" where
  "msg_ok (AppendEntries ae) \<longleftrightarrow> wf_message (AppendEntries ae) \<and>
     list_all (\<lambda>e. 20 + length (le_payload e) \<le> MAX_ENTRY_BYTES) (ae_entries ae) \<and>
     ae_prev_log_index ae + length (ae_entries ae) + 1 < u64_max"
| "msg_ok (InstallSnapshot ism) \<longleftrightarrow> wf_message (InstallSnapshot ism) \<and> is_last_index ism + 1 < u64_max"
| "msg_ok m \<longleftrightarrow> wf_message m"

lemma msg_ok_wf: "msg_ok m \<Longrightarrow> wf_message m"
  by (cases m) auto

lemma wf_message_term: "wf_message m \<Longrightarrow> msg_term m < 2 ^ 64"
  by (cases m) auto

definition room :: "raft_state \<Rightarrow> bool" where
  "room s \<longleftrightarrow> last_index (rs_log s) + 1 < u64_max"

lemma node_ok_role:
  "node_ok stored s \<Longrightarrow> rs_voted_for s = Some (rs_me s) \<Longrightarrow> node_ok stored (s\<lparr>rs_role := r\<rparr>)"
  unfolding node_ok_def raft_inv_def by (auto intro: tracks_cong)

lemma node_ok_step_down:
  assumes "node_ok stored s" "t < 2 ^ 64"
  shows "node_ok stored (step_down_to t s)"
proof -
  let ?s = "s\<lparr>rs_role := Follower\<rparr>" and ?t = "max t (rs_current_term s)"
  have f: "node_ok stored ?s" using assms(1) by (rule node_ok_cong) auto
  have t: "?t < 2 ^ 64" using assms by (auto simp: node_ok_def raft_inv_def)
  show ?thesis
  proof (cases "t > rs_current_term s \<or> rs_voted_for s \<noteq> None")
    case True
    have "node_ok stored (persist_hard_state (?s\<lparr>rs_current_term := ?t, rs_voted_for := None\<rparr>))"
      using f t by (rule node_ok_hard_state) auto
    then show ?thesis using True
      by (elim node_ok_cong) (auto simp: step_down_to_def Let_def persist_hard_state_def)
  next
    case False
    then show ?thesis using f by (elim node_ok_cong) (auto simp: step_down_to_def Let_def)
  qed
qed

lemma node_ok_become_leader:
  assumes "node_ok stored s" "rs_voted_for s = Some (rs_me s)" "room s"
  shows "node_ok stored (become_leader s)"
proof -
  define s1 where "s1 = s\<lparr>rs_role := Leader, rs_leader_hint := Some (rs_me s), rs_snapshot_cursor := Map.empty\<rparr>"
  define s2 where "s2 = (if rs_noop_on_elect s1 then snd (append_local [] s1) else s1)"
  have "node_ok stored s1"
    using node_ok_role[OF assms(1,2), of Leader] unfolding s1_def by (elim node_ok_cong) auto
  then have "node_ok stored s2"
    unfolding s2_def using node_ok_append_local[of stored s1 "[]"] assms(3) by (simp add: s1_def room_def MAX_ENTRY_BYTES_def)
  then have "node_ok stored (s2\<lparr>rs_match_index := map_of (map (\<lambda>p. (p, 0)) (rs_peers s2)),
      rs_next_index := map_of (map (\<lambda>p. (p, last_index (rs_log s2) + 1)) (rs_peers s2)), rs_votes_received := {}\<rparr>)"
    by (elim node_ok_cong) auto
  from node_ok_recompute[OF this] show ?thesis
    unfolding become_leader_def Let_def s2_def s1_def .
qed

text \<open>The state in which an election starts.\<close>

definition as_candidate :: "raft_state \<Rightarrow> raft_state" where
  "as_candidate s =
     persist_hard_state (s\<lparr>rs_current_term := sat_add64 (rs_current_term s) 1, rs_role := Candidate,
       rs_voted_for := Some (rs_me s)\<rparr>)\<lparr>rs_votes_received := {rs_me s}, rs_leader_hint := None\<rparr>"

lemma as_candidate_fields [simp]:
  "rs_me (as_candidate s) = rs_me s" "rs_peers (as_candidate s) = rs_peers s" "rs_log (as_candidate s) = rs_log s"
  "rs_current_term (as_candidate s) = sat_add64 (rs_current_term s) 1" "rs_voted_for (as_candidate s) = Some (rs_me s)"
  "rs_role (as_candidate s) = Candidate" "rs_votes_received (as_candidate s) = {rs_me s}"
  "rs_commit_index (as_candidate s) = rs_commit_index s" "rs_last_applied (as_candidate s) = rs_last_applied s"
  by (simp_all add: as_candidate_def)

lemma start_election_eq:
  "start_election s =
     (if rs_peers s = [] then
        (on_heartbeat_tick (become_leader (as_candidate s)) @ fst (drain_apply_actions (become_leader (as_candidate s))),
         snd (drain_apply_actions (become_leader (as_candidate s))))
      else ([ResetElectionTimer, Broadcast (RequestVote \<lparr>rv_term = rs_current_term (as_candidate s), rv_candidate_id = rs_me s,
               rv_last_log_index = last_index (rs_log s), rv_last_log_term = last_term (rs_log s)\<rparr>)], as_candidate s))"
  by (simp add: start_election_def as_candidate_def Let_def case_prod_beta)

lemma node_ok_as_candidate:
  assumes "node_ok stored s"
  shows "node_ok stored (as_candidate s)"
proof -
  let ?t = "sat_add64 (rs_current_term s) 1"
  have "node_ok stored (persist_hard_state ((s\<lparr>rs_role := Follower\<rparr>)\<lparr>rs_current_term := ?t, rs_voted_for := Some (rs_me s)\<rparr>))"
    using assms by (intro node_ok_hard_state node_ok_cong[OF assms]) (auto simp: sat_add64_def node_ok_def raft_inv_def)
  from node_ok_role[OF this, of Candidate] show ?thesis
    by (rule node_ok_cong) (auto simp: persist_hard_state_def as_candidate_def)
qed

lemma node_ok_start_election:
  assumes "node_ok stored s" "room s"
  shows "node_ok stored (snd (start_election s))"
  using node_ok_as_candidate[OF assms(1)] assms(2) unfolding start_election_eq
  by (auto simp: room_def intro!: node_ok_drain node_ok_become_leader)

lemma node_ok_election_timeout: "node_ok stored s \<Longrightarrow> room s \<Longrightarrow> node_ok stored (snd (on_election_timeout s))"
  by (simp add: on_election_timeout_def node_ok_start_election)

lemma node_ok_request_vote:
  assumes "node_ok stored s" "rv_candidate_id rv \<in> set (rs_peers s)"
  shows "node_ok stored (snd (handle_request_vote rv s))"
proof -
  have "rs_voted_for s = None \<Longrightarrow> rs_role s = Follower"
    using assms(1) by (auto simp: node_ok_def raft_inv_def)
  then have "node_ok stored (persist_hard_state (s\<lparr>rs_current_term := rs_current_term s, rs_voted_for := Some (rv_candidate_id rv)\<rparr>))"
    if "rs_voted_for s = None" using that assms by (intro node_ok_hard_state) (auto simp: node_ok_def raft_inv_def)
  then show ?thesis using assms(1) by (auto simp: handle_request_vote_def Let_def)
qed

lemma node_ok_request_vote_resp:
  assumes "node_ok stored s" "room s"
  shows "node_ok stored (snd (handle_request_vote_resp rvr s))"
proof -
  have v: "node_ok stored (s\<lparr>rs_votes_received := V\<rparr>)" for V using assms(1) by (rule node_ok_cong) auto
  have "rs_role s = Candidate \<Longrightarrow> node_ok stored (become_leader (s\<lparr>rs_votes_received := V\<rparr>))" for V
    using assms v by (intro node_ok_become_leader) (auto simp: node_ok_def raft_inv_def room_def)
  then show ?thesis using assms(1) v by (auto simp: handle_request_vote_resp_def Let_def)
qed

lemma node_ok_append_entries_resp:
  assumes "node_ok stored s"
  shows "node_ok stored (snd (handle_append_entries_resp aer s))"
proof -
  have "node_ok stored (recompute_commit_index (s\<lparr>rs_match_index := m, rs_next_index := n\<rparr>))" for m n
    using assms by (intro node_ok_recompute) (erule node_ok_cong; simp)
  moreover have "node_ok stored (recompute_commit_index (s\<lparr>rs_next_index := n\<rparr>))" for n
    using assms by (intro node_ok_recompute) (erule node_ok_cong; simp)
  moreover have "node_ok stored (s\<lparr>rs_next_index := n\<rparr>)" for n using assms by (rule node_ok_cong) auto
  ultimately show ?thesis using assms by (simp add: handle_append_entries_resp_def Let_def)
qed

lemma node_ok_install_snapshot_resp:
  assumes "node_ok stored s"
  shows "node_ok stored (snd (handle_install_snapshot_resp isr s))"
proof -
  have "node_ok stored (recompute_commit_index (s\<lparr>rs_match_index := m, rs_next_index := n, rs_snapshot_cursor := c\<rparr>))" for m n c
    using assms by (intro node_ok_recompute) (erule node_ok_cong; simp)
  moreover have "node_ok stored (s\<lparr>rs_snapshot_cursor := c\<rparr>)" for c using assms by (rule node_ok_cong) auto
  ultimately show ?thesis using assms by (simp add: handle_install_snapshot_resp_def Let_def)
qed

lemma log_consistent_bound:
  "log_wf l \<Longrightarrow> log_consistent l prev t \<Longrightarrow> prev \<le> last_index l"
  by (auto simp: log_consistent_def term_at_wf last_index_wf dest: entry_at_Some_bounds split: if_splits option.splits)

lemma number_from_ok:
  "list_all (\<lambda>e. le_term e < 2 ^ 64 \<and> 20 + length (le_payload e) \<le> MAX_ENTRY_BYTES) es \<Longrightarrow> n + length es \<le> 2 ^ 64 \<Longrightarrow>
   list_all disk_entry_ok (number_from n es)"
  by (induction es arbitrary: n) (auto simp: disk_entry_ok_def)

lemma changed_at_slice:
  assumes "log_wf l" "changed_at start es com l c l'" "start + length es < u64_max"
  shows "log_slice l' c u64_max = number_from c (drop (c - start) es)"
proof -
  have c: "start \<le> c" "c < start + length es" "lg_base_index l < c" using assms(2) by (auto simp: changed_at_def)
  let ?new = "number_from c (drop (c - start) es)"
  have new: "filter (\<lambda>e. c \<le> le_index e \<and> le_index e < u64_max) ?new = ?new"
    using c assms(3) by (auto simp: filter_id_conv in_set_conv_nth number_from_nth)
  have "lg_entries l' = filter (\<lambda>e. le_index e < c) (lg_entries l) @ ?new"
    using assms(2) by (simp add: changed_at_def)
  moreover have "filter (\<lambda>e. c \<le> le_index e \<and> le_index e < u64_max) (filter (\<lambda>e. le_index e < c) (lg_entries l)) = []"
    by (auto simp: filter_empty_conv)
  ultimately show ?thesis
    using log_slice_filter[OF changed_at_facts(1)[OF assms(1,2)], of c u64_max] c new by simp
qed

lemma node_ok_changed:
  assumes "node_ok stored s" "changed_at start es com (rs_log s) c l" "start + length es < u64_max"
    "list_all (\<lambda>e. le_term e < 2 ^ 64 \<and> 20 + length (le_payload e) \<le> MAX_ENTRY_BYTES) es"
  shows "node_ok stored (s\<lparr>rs_log := l, rs_pending := rs_pending s @ [TruncateFrom c, Append (log_slice l c u64_max)]\<rparr>)"
    (is "node_ok _ ?s")
proof -
  have wf: "log_wf (rs_log s)" using assms(1) by (simp add: node_ok_def raft_inv_def)
  note f = changed_at_facts[OF wf assms(2)]
  let ?new = "number_from c (drop (c - start) es)"
  have sl: "log_slice l c u64_max = ?new" by (rule changed_at_slice[OF wf assms(2,3)])
  have c: "start \<le> c" "c < start + length es" using assms(2) by (auto simp: changed_at_def)
  have es: "lg_entries l = filter (\<lambda>e. le_index e < c) (lg_entries (rs_log s)) @ ?new"
    using assms(2) by (simp add: changed_at_def)
  have ok: "list_all disk_entry_ok ?new"
    using assms(3,4) c by (intro number_from_ok) (auto simp: list_all_iff dest: in_set_dropD)
  have cont: "contiguous (lg_entries l)" using f(1) by (auto simp: log_wf_def contiguous_iff)
  have "tracks stored ?s"
    unfolding sl by (rule tracks_more[of stored s "[TruncateFrom c, Append ?new]"])
      (use assms(1) ok cont in \<open>auto simp: node_ok_def es intro!: snapshot_persistent_eqI\<close>)
  moreover have "last_index l < u64_max" using f(4) assms(3) by simp
  ultimately show ?thesis using assms(1) f(1,2) by (simp add: node_ok_def raft_inv_def)
qed

lemma node_ok_commit:
  "node_ok stored s \<Longrightarrow> rs_commit_index s \<le> c \<Longrightarrow> node_ok stored (s\<lparr>rs_commit_index := c\<rparr>)"
  unfolding node_ok_def raft_inv_def by (auto intro: tracks_cong)

lemma node_ok_accept_entries:
  assumes "node_ok stored s" "msg_ok (AppendEntries ae)" "log_consistent (rs_log s) (ae_prev_log_index ae) (ae_prev_log_term ae)"
  shows "node_ok stored (snd (accept_entries ae s))"
proof -
  let ?start = "sat_add64 (ae_prev_log_index ae) 1"
  have wf: "log_wf (rs_log s)" using assms(1) by (simp add: node_ok_def raft_inv_def)
  have m: "?start = ae_prev_log_index ae + 1" "?start + length (ae_entries ae) < u64_max"
    "list_all (\<lambda>e. le_term e < 2 ^ 64 \<and> 20 + length (le_payload e) \<le> MAX_ENTRY_BYTES) (ae_entries ae)"
    using assms(2) by (auto simp: sat_add64_def list_all_iff wf_entry_def)
  have st: "0 < ?start" "?start \<le> last_index (rs_log s) + 1"
    using log_consistent_bound[OF wf assms(3)] m(1) by auto
  have same: "s\<lparr>rs_log := rs_log s\<rparr> = s" by simp
  show ?thesis
  proof (cases "ae_entries ae = []")
    case True
    then show ?thesis using assms(1) by (auto simp: accept_entries_def intro: node_ok_commit)
  next
    case False
    show ?thesis
    proof (cases rule: append_at_cases[OF wf st, where es = "ae_entries ae" and com = "rs_commit_index s", case_names refused known changed])
      case (changed c l)
      have "node_ok stored (s\<lparr>rs_log := l, rs_pending := rs_pending s @ [TruncateFrom c, Append (log_slice l c u64_max)]\<rparr>)"
        by (rule node_ok_changed[OF assms(1) changed(2) m(2,3)])
      then show ?thesis using False changed(1) node_ok_commit
        by (auto simp: accept_entries_def Let_def)
    qed (use False assms(1) in \<open>auto simp: accept_entries_def Let_def same intro: node_ok_commit\<close>)
  qed
qed

text \<open>Following a leader, whose term may be newer.\<close>

lemma node_ok_follow:
  assumes "node_ok stored s" "t < 2 ^ 64"
  shows "node_ok stored ((if t > rs_current_term s
      then persist_hard_state (s\<lparr>rs_current_term := t, rs_voted_for := None\<rparr>) else s)\<lparr>rs_role := Follower, rs_leader_hint := h\<rparr>)"
proof (cases "t > rs_current_term s")
  case True
  have "node_ok stored (persist_hard_state ((s\<lparr>rs_role := Follower\<rparr>)\<lparr>rs_current_term := t, rs_voted_for := None\<rparr>))"
    using assms by (intro node_ok_hard_state node_ok_cong[OF assms(1)]) auto
  then show ?thesis by (rule node_ok_cong) (use True in \<open>auto simp: persist_hard_state_def\<close>)
next
  case False
  show ?thesis by (rule node_ok_cong[OF assms(1)]) (use False in auto)
qed

lemma node_ok_append_entries:
  assumes "node_ok stored s" "msg_ok (AppendEntries ae)"
  shows "node_ok stored (snd (handle_append_entries ae s))"
proof (cases "ae_term ae \<ge> rs_current_term s")
  case True
  define s1 where "s1 = (if ae_term ae > rs_current_term s
                    then persist_hard_state (s\<lparr>rs_current_term := ae_term ae, rs_voted_for := None\<rparr>) else s)"
  define s2 where "s2 = s1\<lparr>rs_role := Follower, rs_leader_hint := Some (ae_leader_id ae)\<rparr>"
  have s2: "node_ok stored s2" unfolding s2_def s1_def by (rule node_ok_follow[OF assms(1)]) (use assms(2) in auto)
  have "snd (handle_append_entries ae s) =
      (if log_consistent (rs_log s2) (ae_prev_log_index ae) (ae_prev_log_term ae) then snd (accept_entries ae s2) else s2)"
    using True unfolding handle_append_entries_def Let_def s1_def[symmetric] s2_def[symmetric]
    by (simp add: case_prod_beta)
  then show ?thesis using node_ok_accept_entries[OF s2 assms(2)] s2 by simp
next
  case False
  then show ?thesis using assms(1) by (simp add: handle_append_entries_def)
qed

lemma node_ok_installed:
  assumes "node_ok stored s" "lg_base_index (rs_log s) < c" "c + 1 < u64_max"
    "log_install_snapshot c t (rs_log s) = (kept, l)"
  shows "node_ok stored (s\<lparr>rs_log := l, rs_pending := rs_pending s @ [if kept then CompactThrough c else TruncateFrom 0],
      rs_commit_index := max (rs_commit_index s) c, rs_last_applied := max (rs_last_applied s) c\<rparr>)" (is "node_ok _ ?s")
proof -
  have wf: "log_wf (rs_log s)" using assms(1) by (simp add: node_ok_def raft_inv_def)
  have l: "log_wf l" "lg_base_index l = c" "lg_entries l = (if kept then filter (\<lambda>e. c < le_index e) (lg_entries (rs_log s)) else [])"
    using log_install_snapshot_wf[OF wf assms(2) _ assms(4)] assms(3) by auto
  have n: "numbered (lg_base_index (rs_log s) + 1) (lg_entries (rs_log s))" using wf by (simp add: log_wf_def)
  have "filter (\<lambda>e. c < le_index e) (lg_entries (rs_log s)) = drop (c - lg_base_index (rs_log s)) (lg_entries (rs_log s))"
    using numbered_filter_ge[OF n, of "c + 1"] by (simp add: Suc_le_eq)
  then have "last_index l < u64_max"
    using assms(1-3) l last_index_wf[OF l(1)] last_index_wf[OF wf] by (auto simp: node_ok_def raft_inv_def)
  moreover have "tracks stored ?s"
    by (rule tracks_more[of stored s "[if kept then CompactThrough c else TruncateFrom 0]"])
      (use assms(1) l in \<open>auto simp: node_ok_def intro!: snapshot_persistent_eqI\<close>)
  ultimately show ?thesis using assms(1,2) l by (auto simp: node_ok_def raft_inv_def)
qed

lemma node_ok_install_snapshot:
  assumes "node_ok stored s" "msg_ok (InstallSnapshot ism)"
  shows "node_ok stored (snd (handle_install_snapshot ism progress s))"
proof (cases "is_term ism < rs_current_term s")
  case True
  then show ?thesis using assms(1) by (simp add: handle_install_snapshot_def)
next
  case False
  define s0 where "s0 = s\<lparr>rs_role := Follower, rs_leader_hint := Some (is_leader_id ism)\<rparr>"
  define s1 where "s1 = (if is_term ism > rs_current_term s0
      then persist_hard_state (s0\<lparr>rs_current_term := is_term ism, rs_voted_for := None\<rparr>) else s0)"
  have s1: "node_ok stored s1"
    by (rule node_ok_cong[OF node_ok_follow[OF assms(1), of "is_term ism" "Some (is_leader_id ism)"]])
      (use assms(2) in \<open>auto simp: s1_def s0_def persist_hard_state_def\<close>)
  define s2 where "s2 = (if is_last_index ism > lg_base_index (rs_log s1) then
        let (kept, l) = log_install_snapshot (is_last_index ism) (is_last_term ism) (rs_log s1)
        in s1\<lparr>rs_log := l, rs_pending := rs_pending s1 @ [if kept then CompactThrough (is_last_index ism) else TruncateFrom 0]\<rparr>
      else s1)"
  have "snd (handle_install_snapshot ism progress s) =
     (if is_done ism then s2\<lparr>rs_commit_index := max (rs_commit_index s2) (is_last_index ism),
                             rs_last_applied := max (rs_last_applied s2) (is_last_index ism)\<rparr> else s1)"
    using False unfolding handle_install_snapshot_def Let_def s0_def[symmetric] s1_def[symmetric]
    by (simp add: s2_def case_prod_beta)
  moreover have "node_ok stored (s2\<lparr>rs_commit_index := max (rs_commit_index s2) (is_last_index ism),
                             rs_last_applied := max (rs_last_applied s2) (is_last_index ism)\<rparr>)"
  proof (cases "is_last_index ism > lg_base_index (rs_log s1)")
    case True
    obtain kept l where kl: "log_install_snapshot (is_last_index ism) (is_last_term ism) (rs_log s1) = (kept, l)"
      by (cases "log_install_snapshot (is_last_index ism) (is_last_term ism) (rs_log s1)")
    show ?thesis using node_ok_installed[OF s1 True _ kl] assms(2) True by (simp add: s2_def kl)
  next
    case False
    then have "rs_last_applied s1 \<ge> is_last_index ism" "rs_commit_index s1 \<ge> is_last_index ism"
      using s1 by (auto simp: node_ok_def raft_inv_def)
    then show ?thesis using s1 False by (simp add: s2_def max_def)
  qed
  ultimately show ?thesis using s1 by simp
qed

lemma node_ok_handle_message:
  assumes "node_ok stored s" "msg_ok m" "room s" "msg_sender m \<in> set (rs_peers s)"
  shows "node_ok stored (snd (handle_message m progress s))"
  using assms node_ok_request_vote[OF assms(1)] node_ok_request_vote_resp[OF assms(1,3)]
    node_ok_append_entries[OF assms(1)] node_ok_append_entries_resp[OF assms(1)]
    node_ok_install_snapshot[OF assms(1)] node_ok_install_snapshot_resp[OF assms(1)]
  by (cases m) (auto simp: handle_message_def)

lemma step_down_fields [simp]:
  "rs_me (step_down_to t s) = rs_me s" "rs_peers (step_down_to t s) = rs_peers s" "rs_log (step_down_to t s) = rs_log s"
  "rs_commit_index (step_down_to t s) = rs_commit_index s" "rs_last_applied (step_down_to t s) = rs_last_applied s"
  "rs_role (step_down_to t s) = Follower" "rs_voted_for (step_down_to t s) = None"
  "rs_current_term (step_down_to t s) = max t (rs_current_term s)" "rs_votes_received (step_down_to t s) = {}"
  by (simp_all add: step_down_to_def Let_def)

text \<open>What \<open>on_message\<close> does to the state, without the actions.\<close>

lemma on_message_state:
  "snd (on_message_with_progress m progress s) =
     (if \<not> is_member s (msg_sender m) \<or> msg_term m > sat_add64 (rs_current_term s) MAX_TERM_JUMP \<or> msg_term m = u64_max then s
      else snd (drain_apply_actions (snd (handle_message m progress
             (if msg_term m > rs_current_term s then step_down_to (msg_term m) s else s)))))"
  by (simp add: on_message_with_progress_def Let_def case_prod_beta)

lemma node_ok_on_message:
  assumes "node_ok stored s" "msg_ok m" "room s"
  shows "node_ok stored (snd (on_message_with_progress m progress s))"
  unfolding on_message_state
  using assms node_ok_step_down[OF assms(1), of "msg_term m"] wf_message_term[OF msg_ok_wf[OF assms(2)]]
  by (auto simp: is_member_def room_def intro!: node_ok_drain node_ok_handle_message)

lemma node_ok_propose:
  assumes "node_ok stored s" "room s" "20 + length p \<le> MAX_ENTRY_BYTES"
  shows "node_ok stored (snd (snd (try_propose p s)))"
  using node_ok_drain[OF node_ok_recompute[OF node_ok_append_local[OF assms(1) assms(2)[unfolded room_def] assms(3)]]] assms(1)
  by (simp add: try_propose_def Let_def case_prod_beta)

lemma take_snapshot_cases:
  obtains (refused) "snd (raft_take_snapshot d through s) = s"
    | (taken) c t where
        "snd (raft_take_snapshot d through s) =
           s\<lparr>rs_log := compact_through c t (rs_log s), rs_pending := rs_pending s @ [CompactThrough c]\<rparr>"
        "lg_base_index (rs_log s) < c" "c \<le> rs_last_applied s" "term_at (rs_log s) c = Some t"
proof -
  define c where "c = min (case through of None \<Rightarrow> rs_last_applied s | Some t \<Rightarrow> t) (rs_last_applied s)"
  show ?thesis
  proof (cases "c = 0 \<or> c \<le> lg_base_index (rs_log s) \<or> term_at (rs_log s) c = None")
    case True
    then show ?thesis
      by (intro refused) (auto simp: raft_take_snapshot_def Let_def c_def[symmetric] split: option.splits)
  next
    case False
    then obtain t where t: "term_at (rs_log s) c = Some t" by auto
    show ?thesis
      by (rule taken[of c t])
        (use False t in \<open>auto simp: raft_take_snapshot_def Let_def c_def[symmetric]\<close>, simp add: c_def)
  qed
qed

lemma term_at_bound:
  "log_wf l \<Longrightarrow> term_at l c = Some t \<Longrightarrow> lg_base_index l < c \<Longrightarrow> c \<le> last_index l"
  by (auto simp: term_at_wf last_index_wf dest: entry_at_Some_bounds split: if_splits)

lemma node_ok_take_snapshot:
  assumes "node_ok stored s"
  shows "node_ok stored (snd (raft_take_snapshot d through s))"
proof (cases rule: take_snapshot_cases[of d through s, case_names refused taken])
  case (taken c t)
  have wf: "log_wf (rs_log s)" using assms by (simp add: node_ok_def raft_inv_def)
  have le: "c \<le> last_index (rs_log s)" by (rule term_at_bound[OF wf taken(4,2)])
  then have "c < u64_max" using assms by (auto simp: node_ok_def raft_inv_def)
  note f = compact_through_facts[OF wf taken(2) this, of t]
  have "tracks stored (s\<lparr>rs_log := compact_through c t (rs_log s), rs_pending := rs_pending s @ [CompactThrough c]\<rparr>)"
    by (rule tracks_more[of stored s "[CompactThrough c]"])
      (use assms f(4) in \<open>auto simp: node_ok_def intro!: snapshot_persistent_eqI\<close>)
  moreover have "last_index (compact_through c t (rs_log s)) = last_index (rs_log s)"
    using le taken(2) numbered_filter_ge[OF log_wf_def[THEN iffD1, OF wf], of "c + 1"]
    by (simp add: last_index_wf[OF f(1)] last_index_wf[OF wf] f(2,4) Suc_le_eq)
  ultimately show ?thesis unfolding taken(1) using assms f(1,2) taken(3) by (auto simp: node_ok_def raft_inv_def)
qed (use assms in simp)


section \<open>Restart\<close>

definition persisted_ok :: "persisted_raft \<Rightarrow> bool" where
  "persisted_ok pr \<longleftrightarrow> contiguous (pr_log pr) \<and> list_all disk_entry_ok (pr_log pr) \<and> pr_current_term pr < 2 ^ 64 \<and>
     (\<forall>n. pr_voted_for pr = Some n \<longrightarrow> n < 2 ^ 32)"

definition members_ok :: "node_id \<Rightarrow> node_id list \<Rightarrow> bool" where
  "members_ok me peers \<longleftrightarrow> me \<notin> set peers \<and> distinct peers \<and> me < 2 ^ 32 \<and> (\<forall>p \<in> set peers. p < 2 ^ 32)"

text \<open>The compaction \<open>restore\<close> makes up for when the node stopped between saving a snapshot and cutting
  its log.\<close>

lemma compact_persisted:
  assumes "contiguous (pr_log pr)" "c < u64_max"
  shows "lg_entries (compact_through c t (into_log pr)) = (if c = 0 then pr_log pr else filter (\<lambda>e. c < le_index e) (pr_log pr))"
proof (cases "pr_log pr")
  case Nil
  then show ?thesis by (simp add: compact_through_def into_log_def)
next
  case (Cons e es)
  then have n: "numbered (le_index e) (pr_log pr)" using assms(1) by (simp add: contiguous_def)
  have "filter (\<lambda>x. c < le_index x) (pr_log pr) = drop (c + 1 - le_index e) (pr_log pr)"
    using numbered_filter_ge[OF n, of "c + 1"] by (simp add: Suc_le_eq)
  then show ?thesis using Cons assms(2) by (auto simp: compact_through_def into_log_def min_def)
qed

lemma restore_ok:
  assumes "restore pr snap (raft_new me peers) = (Inr (), s)" "persisted_ok pr" "members_ok me peers"
    and "\<forall>sn. snap = Some sn \<longrightarrow> 0 < ps_last_index sn \<and> ps_last_index sn < u64_max"
    and "\<forall>e \<in> set (pr_log pr). le_index e < u64_max"
  shows "node_ok pr s"
proof (cases snap)
  case None
  have s: "s = (raft_new me peers)\<lparr>rs_current_term := pr_current_term pr, rs_voted_for := pr_voted_for pr, rs_log := into_log pr\<rparr>"
    using assms(1) by (auto simp: restore_def None Let_def split: list.splits if_splits)
  have wf: "log_wf (into_log pr)"
    using assms(1,2) by (auto simp: restore_def None Let_def into_log_def log_wf_def persisted_ok_def contiguous_def
        split: list.splits if_splits)
  have "last_index (into_log pr) < u64_max"
    using assms(5) by (auto simp: last_index_def into_log_def)
  then show ?thesis using assms(2,3) wf
    by (auto simp: s node_ok_def raft_inv_def tracks_def raft_new_def persisted_ok_def members_ok_def into_log_def
        intro!: snapshot_persistent_eqI)
next
  case (Some sn)
  define c t where "c = ps_last_index sn" and "t = ps_last_term sn"
  have c: "0 < c" "c < u64_max" using assms(4) by (simp_all add: Some c_def)
  define es where "es = filter (\<lambda>e. c < le_index e) (pr_log pr)"
  have es: "lg_entries (compact_through c t (into_log pr)) = es"
    using compact_persisted[of pr c t] assms(2) c by (simp add: persisted_ok_def es_def)
  define s1 where "s1 = (raft_new me peers)\<lparr>rs_current_term := pr_current_term pr, rs_voted_for := pr_voted_for pr, rs_log := into_log pr\<rparr>"
  have s: "s = restore_snapshot sn s1"
    using assms(1) by (auto simp: restore_def Some s1_def Let_def split: list.splits if_splits)
  have log: "lg_entries (rs_log s) = es" "lg_base_index (rs_log s) = c"
    unfolding s restore_snapshot_def Let_def c_def[symmetric] t_def[symmetric] using es by (simp_all add: s1_def)
  have first: "es \<noteq> [] \<Longrightarrow> le_index (hd es) = c + 1"
    using assms(1) log s by (auto simp: restore_def Some s1_def[symmetric] Let_def split: list.splits if_splits)
  obtain n where n: "numbered n (pr_log pr)" using assms(2) by (auto simp: persisted_ok_def contiguous_iff)
  have "contiguous es"
    unfolding es_def using numbered_filter_ge[OF n, of "c + 1"] assms(2)
    by (simp add: Suc_le_eq contiguous_drop persisted_ok_def)
  then have wf: "log_wf (rs_log s)" using first by (cases es) (auto simp: log_wf_def log contiguous_def)
  have pend: "rs_pending s = (if pr_log pr \<noteq> [] \<and> le_index (hd (pr_log pr)) \<le> c then [CompactThrough c] else [])"
    by (cases "pr_log pr") (simp_all add: s restore_snapshot_def s1_def raft_new_def into_log_def c_def Let_def)
  have "es = pr_log pr" if "\<not> (pr_log pr \<noteq> [] \<and> le_index (hd (pr_log pr)) \<le> c)"
    using that n numbered_filter_ge[OF n, of "c + 1"] unfolding es_def by (cases "pr_log pr") (auto simp: Suc_le_eq)
  then have "tracks pr s"
    unfolding tracks_def pend
    by (auto intro!: snapshot_persistent_eqI simp: log es_def[symmetric])
      (simp_all add: s restore_snapshot_def Let_def s1_def)
  moreover have "last_index (rs_log s) < u64_max"
    using assms(5) c by (auto simp: last_index_def log es_def dest!: last_in_set)
  ultimately show ?thesis using assms(2,3) wf log
    by (auto simp: node_ok_def raft_inv_def s restore_snapshot_def Let_def s1_def raft_new_def persisted_ok_def members_ok_def c_def)
qed



section \<open>Events\<close>

datatype raft_event =
    ElectionTimeout
  | HeartbeatTick
  | Deliver message nat
  | Propose "u8 list"
  | Snapshot "u8 list" "log_index option"

text \<open>The event as the driver in \<open>raft/node.rs\<close> hands it to the state machine. An accepted proposal is
  replicated at once.\<close>

definition propose_event :: "u8 list \<Rightarrow> raft_state \<Rightarrow> action list \<times> raft_state" where
  "propose_event p s =
     (case try_propose p s of
        (Accepted _, actions, s') \<Rightarrow> (actions @ on_heartbeat_tick s', s')
      | (NotLeader _, actions, s') \<Rightarrow> (actions, s'))"

fun raft_step :: "raft_event \<Rightarrow> raft_state \<Rightarrow> action list \<times> raft_state" where
  "raft_step ElectionTimeout s = on_election_timeout s"
| "raft_step HeartbeatTick s = (on_heartbeat_tick s, s)"
| "raft_step (Deliver m progress) s = on_message_with_progress m progress s"
| "raft_step (Propose p) s = propose_event p s"
| "raft_step (Snapshot d through) s = ([], snd (raft_take_snapshot d through s))"

fun event_ok :: "raft_event \<Rightarrow> bool" where
  "event_ok (Deliver m _) \<longleftrightarrow> msg_ok m"
| "event_ok (Propose p) \<longleftrightarrow> 20 + length p \<le> MAX_ENTRY_BYTES"
| "event_ok _ \<longleftrightarrow> True"

lemma propose_event_state: "snd (propose_event p s) = snd (snd (try_propose p s))"
  by (auto simp: propose_event_def split: prod.split propose_outcome.split)

lemma node_ok_raft_step:
  "node_ok stored s \<Longrightarrow> event_ok ev \<Longrightarrow> room s \<Longrightarrow> node_ok stored (snd (raft_step ev s))"
  by (cases ev)
    (auto simp: propose_event_state node_ok_election_timeout node_ok_on_message node_ok_propose node_ok_take_snapshot)


section \<open>Terms and votes\<close>

text \<open>Between two states of a node: the term has not gone back, and a vote given in a term stands.\<close>

definition vote_kept :: "raft_state \<Rightarrow> raft_state \<Rightarrow> bool" where
  "vote_kept s s' \<longleftrightarrow> rs_current_term s \<le> rs_current_term s' \<and>
     (rs_current_term s' = rs_current_term s \<and> rs_voted_for s \<noteq> None \<longrightarrow> rs_voted_for s' = rs_voted_for s)"

lemma vote_kept_refl: "rs_current_term s' = rs_current_term s \<Longrightarrow> rs_voted_for s' = rs_voted_for s \<Longrightarrow> vote_kept s s'"
  by (simp add: vote_kept_def)

lemma vote_kept_trans: "vote_kept a b \<Longrightarrow> vote_kept b c \<Longrightarrow> vote_kept a c"
  by (auto simp: vote_kept_def)

lemma become_leader_fields [simp]:
  "rs_me (become_leader s) = rs_me s" "rs_peers (become_leader s) = rs_peers s"
  "rs_current_term (become_leader s) = rs_current_term s" "rs_voted_for (become_leader s) = rs_voted_for s"
  "rs_role (become_leader s) = Leader" "rs_votes_received (become_leader s) = {}"
  "rs_last_applied (become_leader s) = rs_last_applied s"
  by (simp_all add: become_leader_def Let_def)

lemma accept_entries_fields [simp]:
  "rs_me (snd (accept_entries ae s)) = rs_me s" "rs_peers (snd (accept_entries ae s)) = rs_peers s"
  "rs_current_term (snd (accept_entries ae s)) = rs_current_term s" "rs_voted_for (snd (accept_entries ae s)) = rs_voted_for s"
  "rs_role (snd (accept_entries ae s)) = rs_role s" "rs_votes_received (snd (accept_entries ae s)) = rs_votes_received s"
  "rs_last_applied (snd (accept_entries ae s)) = rs_last_applied s"
  by (simp_all add: accept_entries_def Let_def case_prod_beta split: sum.split option.split)

lemma handle_append_entries_state:
  "snd (handle_append_entries ae s) =
     (if ae_term ae \<ge> rs_current_term s then
        let s2 = (if ae_term ae > rs_current_term s
                  then persist_hard_state (s\<lparr>rs_current_term := ae_term ae, rs_voted_for := None\<rparr>) else s)
                 \<lparr>rs_role := Follower, rs_leader_hint := Some (ae_leader_id ae)\<rparr>
        in if log_consistent (rs_log s) (ae_prev_log_index ae) (ae_prev_log_term ae) then snd (accept_entries ae s2) else s2
      else s)"
  by (simp add: handle_append_entries_def Let_def case_prod_beta)

lemma handle_message_votes:
  "vote_kept s (snd (handle_message m progress s))"
proof (cases m)
  case (AppendEntries ae)
  then show ?thesis by (auto simp: handle_message_def handle_append_entries_state Let_def vote_kept_def)
qed (auto simp: handle_message_def handle_request_vote_def handle_request_vote_resp_def handle_append_entries_resp_def
  handle_install_snapshot_def handle_install_snapshot_resp_def Let_def vote_kept_def case_prod_beta)

lemma raft_step_votes:
  assumes "rs_current_term s < u64_max"
  shows "vote_kept s (snd (raft_step ev s))"
proof (cases ev)
  case ElectionTimeout
  have "sat_add64 (rs_current_term s) 1 = rs_current_term s + 1" using assms by (simp add: sat_add64_def)
  then show ?thesis
    by (auto simp: ElectionTimeout on_election_timeout_def start_election_def Let_def vote_kept_def case_prod_beta)
next
  case (Deliver m p)
  show ?thesis
    unfolding Deliver raft_step.simps on_message_state
    using handle_message_votes[of s m p] handle_message_votes[of "step_down_to (msg_term m) s" m p]
    by (auto simp: vote_kept_def max_def split: if_splits)
next
  case (Propose p)
  then show ?thesis by (simp add: propose_event_state try_propose_def Let_def case_prod_beta vote_kept_def)
next
  case (Snapshot d th)
  then show ?thesis by (simp add: raft_take_snapshot_def Let_def vote_kept_def split: option.split)
qed (simp add: vote_kept_def)



section \<open>Committed entries\<close>

text \<open>\<open>l'\<close> still has every entry of \<open>l\<close> up to \<open>n\<close>, except those folded into its snapshot.\<close>

definition log_keeps :: "log_index \<Rightarrow> raft_log \<Rightarrow> raft_log \<Rightarrow> bool" where
  "log_keeps n l l' \<longleftrightarrow> (\<forall>i e. i \<le> n \<and> entry_at l i = Some e \<longrightarrow> i \<le> lg_base_index l' \<or> entry_at l' i = Some e)"

definition commit_kept :: "raft_state \<Rightarrow> raft_state \<Rightarrow> bool" where
  "commit_kept s s' \<longleftrightarrow> rs_commit_index s \<le> rs_commit_index s' \<and> log_keeps (rs_commit_index s) (rs_log s) (rs_log s')"

lemma log_keeps_refl [simp]: "log_keeps n l l"
  by (simp add: log_keeps_def)

lemma commit_kept_same: "rs_log s' = rs_log s \<Longrightarrow> rs_commit_index s \<le> rs_commit_index s' \<Longrightarrow> commit_kept s s'"
  by (simp add: commit_kept_def)

lemma log_keeps_append:
  assumes "log_wf l"
  shows "log_keeps n l (l\<lparr>lg_entries := lg_entries l @ es\<rparr>)"
  using assms by (auto simp: log_keeps_def entry_at_def nth_append split: if_splits)

lemma log_keeps_changed:
  assumes "log_wf l" "changed_at start es com l c l'"
  shows "log_keeps com l l'"
proof -
  have "i < c" if "i \<le> com" "entry_at l i = Some e" for i e
    using that assms last_index_wf[OF assms(1)] by (auto simp: changed_at_def dest!: entry_at_Some_bounds)
  then show ?thesis using changed_at_facts(5)[OF assms] by (auto simp: log_keeps_def)
qed

lemma log_keeps_compact: "log_wf l \<Longrightarrow> lg_base_index l < c \<Longrightarrow> c < u64_max \<Longrightarrow> log_keeps n l (compact_through c t l)"
  using compact_through_facts[of l c t] by (auto simp: log_keeps_def)

lemma commit_kept_append_local: "node_ok stored s \<Longrightarrow> commit_kept s (snd (append_local p s))"
  by (auto simp: commit_kept_def append_local_def Let_def node_ok_def raft_inv_def intro: log_keeps_append)

lemma commit_kept_trans_log: "commit_kept s a \<Longrightarrow> rs_log b = rs_log a \<Longrightarrow> rs_commit_index a \<le> rs_commit_index b \<Longrightarrow> commit_kept s b"
  by (auto simp: commit_kept_def)

lemma commit_kept_become_leader: "node_ok stored s \<Longrightarrow> commit_kept s (become_leader s)"
proof -
  assume ok: "node_ok stored s"
  define s1 where "s1 = s\<lparr>rs_role := Leader, rs_leader_hint := Some (rs_me s), rs_snapshot_cursor := Map.empty\<rparr>"
  define s2 where "s2 = (if rs_noop_on_elect s1 then snd (append_local [] s1) else s1)"
  have "commit_kept s s2"
    using ok by (auto simp: s2_def s1_def commit_kept_def append_local_def Let_def node_ok_def raft_inv_def intro: log_keeps_append)
  moreover define s3 where "s3 = s2\<lparr>rs_match_index := map_of (map (\<lambda>p. (p, 0)) (rs_peers s2)),
      rs_next_index := map_of (map (\<lambda>p. (p, last_index (rs_log s2) + 1)) (rs_peers s2)), rs_votes_received := {}\<rparr>"
  moreover have "become_leader s = recompute_commit_index s3"
    unfolding become_leader_def Let_def s3_def s2_def s1_def ..
  ultimately show ?thesis using recompute_commit_mono[of s3] by (simp add: commit_kept_def)
qed

lemma commit_kept_accept:
  assumes "node_ok stored s" "msg_ok (AppendEntries ae)" "log_consistent (rs_log s) (ae_prev_log_index ae) (ae_prev_log_term ae)"
  shows "commit_kept s (snd (accept_entries ae s))"
proof -
  let ?start = "sat_add64 (ae_prev_log_index ae) 1"
  have wf: "log_wf (rs_log s)" using assms(1) by (simp add: node_ok_def raft_inv_def)
  have st: "0 < ?start" "?start \<le> last_index (rs_log s) + 1"
    using log_consistent_bound[OF wf assms(3)] assms(2) by (auto simp: sat_add64_def)
  show ?thesis
  proof (cases "ae_entries ae = []")
    case True
    then show ?thesis by (auto simp: accept_entries_def commit_kept_def)
  next
    case False
    show ?thesis
    proof (cases rule: append_at_cases[OF wf st, where es = "ae_entries ae" and com = "rs_commit_index s", case_names refused known changed])
      case (changed c l)
      then show ?thesis using False log_keeps_changed[OF wf changed(2)]
        by (auto simp: accept_entries_def Let_def commit_kept_def)
    qed (use False in \<open>auto simp: accept_entries_def Let_def commit_kept_def\<close>)
  qed
qed

text \<open>A complete snapshot of a current leader that ends below the commit index, above the local snapshot, and
  disagrees with the committed entry at its end. The handler replaces the whole log by such a
  snapshot; in Raft no leader can send one, since it holds every committed entry.\<close>

fun conflicting_snapshot :: "raft_event \<Rightarrow> raft_state \<Rightarrow> bool" where
  "conflicting_snapshot (Deliver (InstallSnapshot ism) _) s \<longleftrightarrow>
     is_done ism \<and> rs_current_term s \<le> is_term ism \<and>
     lg_base_index (rs_log s) < is_last_index ism \<and> is_last_index ism < rs_commit_index s \<and>
     term_at (rs_log s) (is_last_index ism) \<noteq> Some (is_last_term ism)"
| "conflicting_snapshot _ s \<longleftrightarrow> False"

lemma handle_install_snapshot_state:
  "snd (handle_install_snapshot ism progress s) =
     (if is_term ism < rs_current_term s then s
      else let s0 = s\<lparr>rs_role := Follower, rs_leader_hint := Some (is_leader_id ism)\<rparr>;
               s1 = (if is_term ism > rs_current_term s
                     then persist_hard_state (s0\<lparr>rs_current_term := is_term ism, rs_voted_for := None\<rparr>) else s0)
           in if is_done ism then
                let (kept, l) = log_install_snapshot (is_last_index ism) (is_last_term ism) (rs_log s);
                    s2 = (if is_last_index ism > lg_base_index (rs_log s)
                          then s1\<lparr>rs_log := l, rs_pending := rs_pending s1 @
                                 [if kept then CompactThrough (is_last_index ism) else TruncateFrom 0]\<rparr> else s1)
                in s2\<lparr>rs_commit_index := max (rs_commit_index s) (is_last_index ism),
                      rs_last_applied := max (rs_last_applied s) (is_last_index ism)\<rparr>
              else s1)"
  by (simp add: handle_install_snapshot_def Let_def case_prod_beta)

lemma commit_kept_install:
  assumes "node_ok stored s" "msg_ok (InstallSnapshot ism)" "\<not> conflicting_snapshot (Deliver (InstallSnapshot ism) p) s"
  shows "commit_kept s (snd (handle_install_snapshot ism p s))"
proof -
  let ?c = "is_last_index ism" and ?t = "is_last_term ism"
  have wf: "log_wf (rs_log s)" using assms(1) by (simp add: node_ok_def raft_inv_def)
  obtain kept l where kl: "log_install_snapshot ?c ?t (rs_log s) = (kept, l)" by (cases "log_install_snapshot ?c ?t (rs_log s)")
  have "log_keeps (rs_commit_index s) (rs_log s) l"
    if c: "lg_base_index (rs_log s) < ?c" and d: "is_done ism" "rs_current_term s \<le> is_term ism"
  proof -
    have f: "lg_base_index l = ?c" "kept \<longleftrightarrow> term_at (rs_log s) ?c = Some ?t"
      using log_install_snapshot_wf[OF wf c _ kl] assms(2) by auto
    show ?thesis
    proof (cases kept)
      case True
      then have "l = compact_through ?c ?t (rs_log s)" using kl by (auto simp: log_install_snapshot_def Let_def split: if_splits)
      then show ?thesis using log_keeps_compact[OF wf c] assms(2) by simp
    next
      case False
      then show ?thesis using f assms(3) c d by (auto simp: log_keeps_def)
    qed
  qed
  then show ?thesis by (auto simp: handle_install_snapshot_state Let_def kl commit_kept_def)
qed

lemma commit_kept_handle:
  assumes "node_ok stored s" "msg_ok m" "\<not> conflicting_snapshot (Deliver m p) s"
  shows "commit_kept s (snd (handle_message m p s))"
proof (cases m)
  case (AppendEntries ae)
  define s2 where "s2 = (if ae_term ae > rs_current_term s
                  then persist_hard_state (s\<lparr>rs_current_term := ae_term ae, rs_voted_for := None\<rparr>) else s)
                 \<lparr>rs_role := Follower, rs_leader_hint := Some (ae_leader_id ae)\<rparr>"
  have ae: "msg_ok (AppendEntries ae)" using assms(2) AppendEntries by simp
  have s2: "node_ok stored s2" unfolding s2_def by (rule node_ok_follow[OF assms(1)]) (use ae in auto)
  have s2': "rs_log s2 = rs_log s" "rs_commit_index s2 = rs_commit_index s" by (simp_all add: s2_def)
  show ?thesis using commit_kept_accept[OF s2 ae] s2'
    by (auto simp: AppendEntries handle_message_def handle_append_entries_state s2_def[symmetric] Let_def commit_kept_def)
next
  case (InstallSnapshot ism)
  then show ?thesis using commit_kept_install[OF assms(1)] assms(2,3) by (simp add: handle_message_def)
next
  case (RequestVoteResp rvr)
  have "node_ok stored (s\<lparr>rs_votes_received := V\<rparr>)" for V using assms(1) by (rule node_ok_cong) auto
  from commit_kept_become_leader[OF this] have "commit_kept s (become_leader (s\<lparr>rs_votes_received := V\<rparr>))" for V
    by (simp add: commit_kept_def)
  then show ?thesis
    by (auto simp: RequestVoteResp handle_message_def handle_request_vote_resp_def Let_def commit_kept_def)
next
  case (AppendEntriesResp aer)
  have "commit_kept s (recompute_commit_index (s\<lparr>rs_match_index := a, rs_next_index := b\<rparr>))"
    "commit_kept s (recompute_commit_index (s\<lparr>rs_next_index := b\<rparr>))" for a b
    using recompute_commit_mono[of "s\<lparr>rs_match_index := a, rs_next_index := b\<rparr>"]
      recompute_commit_mono[of "s\<lparr>rs_next_index := b\<rparr>"] by (simp_all add: commit_kept_def)
  then show ?thesis
    by (auto simp: AppendEntriesResp handle_message_def handle_append_entries_resp_def Let_def intro: commit_kept_same)
next
  case (InstallSnapshotResp isr)
  have "commit_kept s (recompute_commit_index (s\<lparr>rs_match_index := a, rs_next_index := b, rs_snapshot_cursor := c\<rparr>))" for a b c
    using recompute_commit_mono[of "s\<lparr>rs_match_index := a, rs_next_index := b, rs_snapshot_cursor := c\<rparr>"] by (simp add: commit_kept_def)
  then show ?thesis
    by (auto simp: InstallSnapshotResp handle_message_def handle_install_snapshot_resp_def Let_def intro: commit_kept_same)
next
  case (RequestVote rv)
  then show ?thesis by (auto simp: handle_message_def handle_request_vote_def Let_def intro: commit_kept_same)
qed

lemma commit_kept_raft_step:
  assumes "node_ok stored s" "event_ok ev" "\<not> conflicting_snapshot ev s"
  shows "commit_kept s (snd (raft_step ev s))"
proof (cases ev)
  case ElectionTimeout
  show ?thesis using commit_kept_become_leader[OF node_ok_as_candidate[OF assms(1)]]
    by (auto simp: ElectionTimeout on_election_timeout_def start_election_eq commit_kept_def)
next
  case (Deliver m p)
  let ?s = "if msg_term m > rs_current_term s then step_down_to (msg_term m) s else s"
  have m: "msg_ok m" using assms(2) Deliver by simp
  have "node_ok stored ?s" using assms(1) node_ok_step_down wf_message_term[OF msg_ok_wf[OF m]] by simp
  moreover have "\<not> conflicting_snapshot (Deliver m p) ?s" using assms(3) Deliver by (cases m) auto
  ultimately have "commit_kept ?s (snd (handle_message m p ?s))" using m by (intro commit_kept_handle)
  then have "commit_kept s (snd (handle_message m p ?s))" by (simp add: commit_kept_def split: if_splits)
  then show ?thesis unfolding Deliver raft_step.simps on_message_state by (simp add: commit_kept_def)
next
  case (Propose p)
  then show ?thesis
    using commit_kept_append_local[OF assms(1), of p] recompute_commit_mono[of "snd (append_local p s)"]
    by (auto simp: propose_event_state try_propose_def Let_def case_prod_beta commit_kept_def)
next
  case (Snapshot d th)
  have wf: "log_wf (rs_log s)" "last_index (rs_log s) < u64_max" using assms(1) by (simp_all add: node_ok_def raft_inv_def)
  show ?thesis
  proof (cases rule: take_snapshot_cases[of d th s, case_names refused taken])
    case (taken c t)
    have "c < u64_max" using term_at_bound[OF wf(1) taken(4,2)] wf(2) by simp
    then show ?thesis using log_keeps_compact[OF wf(1) taken(2)] by (simp add: Snapshot taken(1) commit_kept_def)
  qed (simp add: Snapshot commit_kept_def)
qed (simp add: commit_kept_def)



section \<open>Handing over committed entries\<close>

fun is_apply :: "action \<Rightarrow> bool" where
  "is_apply (Apply _) = True"
| "is_apply _ = False"

definition applied :: "action list \<Rightarrow> action list" where
  "applied acts = filter is_apply acts"

definition drained :: "raft_state \<Rightarrow> bool" where
  "drained s \<longleftrightarrow> rs_last_applied s = rs_commit_index s"

lemma applied_simps [simp]:
  "applied [] = []" "applied (xs @ ys) = applied xs @ applied ys"
  "applied (SendTo p m # acts) = applied acts" "applied (Broadcast m # acts) = applied acts"
  "applied (ResetElectionTimer # acts) = applied acts" "applied (SendSnapshot p # acts) = applied acts"
  "applied (Apply e # acts) = Apply e # applied acts"
  by (simp_all add: applied_def)

lemma replicate_to_not_apply [simp]: "applied (replicate_to s p # acts) = applied acts"
  by (simp add: replicate_to_def)

lemma heartbeat_applied [simp]: "applied (on_heartbeat_tick s) = []"
proof -
  have "applied (map (replicate_to s) ps) = []" for ps by (induction ps) auto
  then show ?thesis by (simp add: on_heartbeat_tick_def)
qed

lemma to_apply_applied [simp]: "applied (to_apply l a c) = to_apply l a c"
proof -
  have "applied (map Apply es) = map Apply es" for es by (induction es) auto
  then show ?thesis by (simp add: to_apply_def)
qed

lemma to_apply_empty [simp]: "c \<le> a \<Longrightarrow> to_apply l a c = []"
  by (simp add: to_apply_def)

lemma to_apply_below_base:
  assumes "log_wf l" "c \<le> lg_base_index l"
  shows "to_apply l a c = []"
proof -
  have "List.map_filter (log_get l) xs = []" if "\<forall>i \<in> set xs. i \<le> lg_base_index l" for xs
    using that assms(1) by (induction xs) (auto simp: map_filter_simps log_get_entry_at entry_at_def)
  then show ?thesis using assms(2) by (simp add: to_apply_def del: upt_Suc)
qed

lemma handle_message_applied: "applied (fst (handle_message m p s)) = []"
  by (cases m) (auto simp: handle_message_def handle_request_vote_def handle_request_vote_resp_def handle_append_entries_def
      handle_append_entries_resp_def handle_install_snapshot_def handle_install_snapshot_resp_def Let_def case_prod_beta)

lemma handle_message_last_applied:
  assumes "\<nexists>ism. m = InstallSnapshot ism"
  shows "rs_last_applied (snd (handle_message m p s)) = rs_last_applied s"
  using assms by (cases m) (auto simp: handle_message_def handle_request_vote_def handle_request_vote_resp_def
      handle_append_entries_state handle_append_entries_resp_def handle_install_snapshot_resp_def Let_def)

lemma install_snapshot_applied:
  fixes p :: nat
  assumes "node_ok stored s" "msg_ok (InstallSnapshot ism)" "drained s"
  defines "s' \<equiv> snd (handle_install_snapshot ism p s)"
  shows "to_apply (rs_log s') (rs_last_applied s') (rs_commit_index s') = to_apply (rs_log s') (rs_last_applied s) (rs_commit_index s')"
    and "drained s'"
proof -
  have wf: "log_wf (rs_log s')"
    using node_ok_install_snapshot[OF assms(1,2), of p] by (simp add: s'_def node_ok_def raft_inv_def)
  have d: "rs_last_applied s = rs_commit_index s" using assms(3) by (simp add: drained_def)
  show dr: "drained s'"
    unfolding s'_def handle_install_snapshot_state by (simp add: Let_def case_prod_beta drained_def d)
  have "rs_commit_index s' \<le> rs_last_applied s \<or> rs_commit_index s' \<le> lg_base_index (rs_log s')"
  proof (cases "is_term ism < rs_current_term s \<or> \<not> is_done ism \<or> is_last_index ism \<le> rs_commit_index s")
    case True
    then show ?thesis by (auto simp: s'_def handle_install_snapshot_state Let_def case_prod_beta d)
  next
    case False
    then have b: "lg_base_index (rs_log s) < is_last_index ism" using assms(1) d by (auto simp: node_ok_def raft_inv_def)
    obtain kept l where kl: "log_install_snapshot (is_last_index ism) (is_last_term ism) (rs_log s) = (kept, l)"
      by (cases "log_install_snapshot (is_last_index ism) (is_last_term ism) (rs_log s)")
    have "lg_base_index l = is_last_index ism"
      using log_install_snapshot_wf[OF _ b _ kl] assms(1,2) by (auto simp: node_ok_def raft_inv_def)
    then show ?thesis using False b by (auto simp: s'_def handle_install_snapshot_state Let_def kl)
  qed
  then show "to_apply (rs_log s') (rs_last_applied s') (rs_commit_index s') = to_apply (rs_log s') (rs_last_applied s) (rs_commit_index s')"
    using dr wf to_apply_below_base by (auto simp: drained_def)
qed

lemma on_message_applied:
  fixes p :: nat
  assumes "node_ok stored s" "msg_ok m" "drained s"
  defines "s' \<equiv> snd (on_message_with_progress m p s)"
  shows "applied (fst (on_message_with_progress m p s)) = to_apply (rs_log s') (rs_last_applied s) (rs_commit_index s') \<and> drained s'"
proof (cases "\<not> is_member s (msg_sender m) \<or> msg_term m > sat_add64 (rs_current_term s) MAX_TERM_JUMP \<or> msg_term m = u64_max")
  case True
  then have "on_message_with_progress m p s = ([], s)" by (auto simp: on_message_with_progress_def)
  then show ?thesis using assms(3) by (simp add: s'_def drained_def)
next
  case False
  define s1 where "s1 = (if msg_term m > rs_current_term s then step_down_to (msg_term m) s else s)"
  define s2 where "s2 = snd (handle_message m p s1)"
  have s1: "node_ok stored s1" "drained s1" "rs_last_applied s1 = rs_last_applied s"
    using assms(1,3) node_ok_step_down wf_message_term[OF msg_ok_wf[OF assms(2)]] by (auto simp: s1_def drained_def)
  have s': "s' = snd (drain_apply_actions s2)" unfolding s'_def on_message_state s2_def s1_def using False by simp
  have "applied (fst (on_message_with_progress m p s)) = applied (fst (handle_message m p s1)) @ applied (fst (drain_apply_actions s2))"
    using False by (auto simp: on_message_with_progress_def Let_def case_prod_beta s2_def s1_def)
  then have a: "applied (fst (on_message_with_progress m p s)) = to_apply (rs_log s2) (rs_last_applied s2) (rs_commit_index s2)"
    by (simp add: handle_message_applied drain_actions)
  have "to_apply (rs_log s2) (rs_last_applied s2) (rs_commit_index s2) = to_apply (rs_log s2) (rs_last_applied s) (rs_commit_index s2) \<and>
      rs_last_applied s2 \<le> rs_commit_index s2"
  proof (cases "\<exists>ism. m = InstallSnapshot ism")
    case True
    then obtain ism where m: "m = InstallSnapshot ism" by blast
    show ?thesis using install_snapshot_applied[OF s1(1) _ s1(2), of ism p] assms(2) s1(3)
      by (simp add: s2_def m handle_message_def drained_def)
  next
    case False
    then have la: "rs_last_applied s2 = rs_last_applied s" using handle_message_last_applied s1(3) by (simp add: s2_def)
    have "rs_commit_index s1 \<le> rs_commit_index s2"
      using commit_kept_handle[OF s1(1) assms(2), of p] False unfolding s2_def
      by (cases m) (auto simp: commit_kept_def)
    then show ?thesis using la s1(2,3) by (simp add: drained_def)
  qed
  then show ?thesis using a by (simp add: s' drained_def)
qed

lemma raft_step_applied:
  assumes "node_ok stored s" "event_ok ev" "drained s"
  defines "s' \<equiv> snd (raft_step ev s)"
  shows "applied (fst (raft_step ev s)) = to_apply (rs_log s') (rs_last_applied s) (rs_commit_index s') \<and> drained s'"
proof (cases ev)
  case ElectionTimeout
  have "rs_commit_index s \<le> rs_commit_index (become_leader (as_candidate s))"
    using commit_kept_become_leader[OF node_ok_as_candidate[OF assms(1)]] by (simp add: commit_kept_def)
  then show ?thesis using assms(3)
    by (auto simp: ElectionTimeout s'_def on_election_timeout_def start_election_eq drain_actions drained_def)
next
  case (Deliver m p)
  then show ?thesis using on_message_applied[OF assms(1) _ assms(3)] assms(2) by (simp add: s'_def)
next
  case (Propose pl)
  have "rs_commit_index s \<le> rs_commit_index (recompute_commit_index (snd (append_local pl s)))"
    using recompute_commit_mono[of "snd (append_local pl s)"] by simp
  then show ?thesis using assms(3)
    by (auto simp: Propose s'_def propose_event_def try_propose_def Let_def case_prod_beta drain_actions drained_def)
next
  case (Snapshot d th)
  show ?thesis
    by (cases rule: take_snapshot_cases[of d th s, case_names refused taken])
      (use assms(3) in \<open>simp_all add: Snapshot s'_def drained_def\<close>)
qed (use assms(3) in \<open>simp add: s'_def drained_def\<close>)



section \<open>Properties\<close>

text \<open>C21: the invariant of a Raft node. Whatever event arrives (a timeout, any message that fits its
  types from anyone, a proposal, a snapshot), the log stays numbered without gaps, snapshot, applied
  and commit index stay in order, a candidate or leader has voted for itself, and the operations
  recorded for the disk turn what is stored into exactly the state in memory and are accepted by
  the file store.\<close>

theorem raft_node_invariant:
  assumes "node_ok stored s" "event_ok ev" "room s"
  shows "node_ok stored (snd (raft_step ev s))"
  using assms by (rule node_ok_raft_step)

lemma node_ok_new: "members_ok me peers \<Longrightarrow> node_ok no_raft (raft_new me peers)"
  by (auto simp: node_ok_def raft_inv_def tracks_def raft_new_def members_ok_def no_raft_def last_index_def empty_log_def
      snapshot_persistent_def from_runtime_def log_wf_def)

definition sample_node :: raft_state where "sample_node = raft_new 1 [2, 3]"

lemma sample_node_ok: "node_ok no_raft sample_node" "room sample_node" "drained sample_node"
  unfolding sample_node_def
  by (rule node_ok_new) (simp_all add: members_ok_def room_def drained_def raft_new_def last_index_def empty_log_def)

definition sample_vote :: raft_event where
  "sample_vote = Deliver (RequestVote \<lparr>rv_term = 1, rv_candidate_id = 2, rv_last_log_index = 0, rv_last_log_term = 0\<rparr>) 0"

lemma sample_vote_ok: "event_ok sample_vote"
  by (simp add: sample_vote_def)

theorem raft_node_invariant_witness:
  "node_ok no_raft sample_node \<and> event_ok sample_vote \<and> room sample_node \<and> node_ok no_raft (snd (raft_step sample_vote sample_node))"
  using raft_node_invariant[OF sample_node_ok(1) sample_vote_ok sample_node_ok(2)] sample_node_ok sample_vote_ok by blast

text \<open>C23: one vote per term. Across any event the term does not decrease, and a vote given in the current
  term is not changed while the term lasts.\<close>

theorem raft_votes_once:
  assumes "rs_current_term s < u64_max"
  shows "rs_current_term s \<le> rs_current_term (snd (raft_step ev s)) \<and>
    (rs_current_term (snd (raft_step ev s)) = rs_current_term s \<and> rs_voted_for s = Some c \<longrightarrow>
       rs_voted_for (snd (raft_step ev s)) = Some c)"
  using raft_step_votes[OF assms, of ev] by (auto simp: vote_kept_def)

theorem raft_votes_once_witness:
  "rs_current_term sample_node < u64_max \<and> rs_current_term sample_node \<le> rs_current_term (snd (raft_step sample_vote sample_node))"
proof -
  have t: "rs_current_term sample_node < u64_max" by (simp add: sample_node_def raft_new_def)
  show ?thesis using raft_votes_once[OF t, of sample_vote] t by blast
qed

text \<open>C24: committed entries are not lost. Across any event the commit index never decreases, and every
  committed entry stays in the log unchanged or is covered by the local snapshot. The one exception
  is stated: a complete snapshot, from a leader that is not behind, which ends between the local
  snapshot and the commit index and disagrees with the committed entry there.\<close>

theorem raft_committed_entries_kept:
  assumes "node_ok stored s" "event_ok ev"
  shows "rs_commit_index s \<le> rs_commit_index (snd (raft_step ev s)) \<and>
    (conflicting_snapshot ev s \<or>
     (\<forall>i e. i \<le> rs_commit_index s \<and> entry_at (rs_log s) i = Some e \<longrightarrow>
        i \<le> lg_base_index (rs_log (snd (raft_step ev s))) \<or> entry_at (rs_log (snd (raft_step ev s))) i = Some e))"
proof (cases "conflicting_snapshot ev s")
  case True
  then obtain ism p where "ev = Deliver (InstallSnapshot ism) p" by (auto elim: conflicting_snapshot.elims)
  then show ?thesis using True
    by (auto simp: on_message_state handle_message_def handle_install_snapshot_state Let_def case_prod_beta)
next
  case False
  then show ?thesis using commit_kept_raft_step[OF assms] by (auto simp: commit_kept_def log_keeps_def)
qed

text \<open>A follower that has committed one entry, and a later leader that sends another entry for its index.\<close>

definition sample_entry :: "nat \<Rightarrow> raft_event" where
  "sample_entry t = Deliver (AppendEntries \<lparr>ae_term = t, ae_leader_id = 2, ae_prev_log_index = 0, ae_prev_log_term = 0,
     ae_entries = [\<lparr>le_term = t, le_index = 1, le_payload = [7]\<rparr>], ae_leader_commit = 1\<rparr>) 0"

lemma sample_entry_ok: "0 < t \<Longrightarrow> t < u64_max \<Longrightarrow> event_ok (sample_entry t)"
  by (simp add: sample_entry_def wf_entry_def MAX_ENTRY_BYTES_def)

definition sample_follower :: raft_state where
  "sample_follower = snd (raft_step (sample_entry 1) sample_node)"

lemma sample_follower_ok: "node_ok no_raft sample_follower"
  unfolding sample_follower_def
  by (rule node_ok_raft_step[OF sample_node_ok(1) sample_entry_ok sample_node_ok(2)]) simp_all

lemmas sample_entry_eval = sample_entry_def sample_node_def raft_new_def empty_log_def on_message_state handle_message_def
  handle_append_entries_state accept_entries_def append_at_def log_consistent_def last_index_def entry_at_def term_at_def log_get_def
  is_member_def sat_add64_def MAX_TERM_JUMP_def step_down_to_def persist_hard_state_def Let_def

lemma sample_follower_committed:
  "rs_commit_index sample_follower = 1" "entry_at (rs_log sample_follower) 1 = Some \<lparr>le_term = 1, le_index = 1, le_payload = [7]\<rparr>"
  "lg_base_index (rs_log (snd (raft_step (sample_entry 2) sample_follower))) = 0"
  by (simp_all add: sample_follower_def sample_entry_eval)

theorem raft_committed_entries_kept_witness:
  "entry_at (rs_log (snd (raft_step (sample_entry 2) sample_follower))) 1 = Some \<lparr>le_term = 1, le_index = 1, le_payload = [7]\<rparr>"
proof -
  have "event_ok (sample_entry 2)" by (rule sample_entry_ok) simp_all
  moreover have "\<not> conflicting_snapshot (sample_entry 2) sample_follower" by (simp add: sample_entry_def)
  ultimately show ?thesis
    using raft_committed_entries_kept[OF sample_follower_ok, of "sample_entry 2"] sample_follower_committed by auto
qed

text \<open>C25: the commit rule. The index the leader considers is the greatest one that a quorum of the
  members (itself included) is known to hold, and the commit index moves there only if it grows and
  the entry is of the leader's own term.\<close>

theorem raft_commit_rule:
  shows "quorum s \<le> length (holders s (commit_candidate s)) \<and>
    (\<forall>n. quorum s \<le> length (holders s n) \<longrightarrow> n \<le> commit_candidate s) \<and>
    rs_commit_index (recompute_commit_index s) =
      (if rs_commit_index s < commit_candidate s \<and> term_at (rs_log s) (commit_candidate s) = Some (rs_current_term s)
       then commit_candidate s else rs_commit_index s)"
  using commit_candidate_quorum commit_candidate_greatest by (simp add: recompute_commit_index_def)

definition sample_leader :: raft_state where
  "sample_leader = sample_node\<lparr>rs_role := Leader, rs_current_term := 1, rs_voted_for := Some 1,
     rs_log := \<lparr>lg_entries = [\<lparr>le_term = 1, le_index = 1, le_payload = [7]\<rparr>], lg_base_index = 0, lg_base_term = 0\<rparr>,
     rs_match_index := [2 \<mapsto> 1, 3 \<mapsto> 0]\<rparr>"

theorem raft_commit_rule_witness:
  "quorum sample_leader \<le> length (holders sample_leader 1) \<and> 1 \<le> commit_candidate sample_leader \<and>
   rs_commit_index (recompute_commit_index sample_leader) = 1"
proof -
  have c: "commit_candidate sample_leader = 1"
    by (simp add: commit_candidate_def sample_leader_def sample_node_def raft_new_def map_get_def quorum_def last_index_def Let_def)
  have "rs_commit_index (recompute_commit_index sample_leader) = 1"
    using raft_commit_rule[of sample_leader] c
    by (simp add: sample_leader_def sample_node_def raft_new_def term_at_def log_get_def)
  then show ?thesis using raft_commit_rule[of sample_leader] c by simp
qed

text \<open>C26: committed entries reach the state machine once and in order. What an event hands over is exactly
  the entries between the applied index before and the commit index after it, in index order,
  without election no-ops and membership changes, and afterwards nothing is left to hand over.\<close>

theorem raft_applies_in_order:
  assumes "node_ok stored s" "event_ok ev" "drained s"
  shows "applied (fst (raft_step ev s)) =
      to_apply (rs_log (snd (raft_step ev s))) (rs_last_applied s) (rs_commit_index (snd (raft_step ev s))) \<and>
    drained (snd (raft_step ev s))"
  using raft_step_applied[OF assms] .

theorem raft_applies_in_order_witness:
  "node_ok no_raft sample_node \<and> event_ok sample_vote \<and> drained sample_node \<and> drained (snd (raft_step sample_vote sample_node))"
  using raft_applies_in_order[OF sample_node_ok(1) sample_vote_ok sample_node_ok(3)] sample_node_ok sample_vote_ok by blast

text \<open>C27: restart. A node restored from what its store holds, with or without a snapshot and also when
  the log was not yet cut behind the snapshot, is again in step with the store; its commit and
  applied index start at the snapshot.\<close>

theorem raft_restart:
  assumes "restore pr snap (raft_new me peers) = (Inr (), s)" "persisted_ok pr" "members_ok me peers"
    and "\<forall>sn. snap = Some sn \<longrightarrow> 0 < ps_last_index sn \<and> ps_last_index sn < u64_max"
    and "\<forall>e \<in> set (pr_log pr). le_index e < u64_max"
  shows "node_ok pr s"
  using assms by (rule restore_ok)

definition sample_persisted :: persisted_raft where
  "sample_persisted = \<lparr>pr_current_term = 2, pr_voted_for = Some 1,
     pr_log = [\<lparr>le_term = 1, le_index = 1, le_payload = [7]\<rparr>, \<lparr>le_term = 2, le_index = 2, le_payload = [8]\<rparr>]\<rparr>"

definition sample_snapshot :: persisted_snapshot where
  "sample_snapshot = \<lparr>ps_last_index = 1, ps_last_term = 1, ps_data = []\<rparr>"

theorem raft_restart_witness:
  "persisted_ok sample_persisted \<and> members_ok 1 [2, 3] \<and>
   (\<exists>s. restore sample_persisted (Some sample_snapshot) (raft_new 1 [2, 3]) = (Inr (), s) \<and> node_ok sample_persisted s)"
proof -
  have p: "persisted_ok sample_persisted"
    by (simp add: persisted_ok_def sample_persisted_def contiguous_def disk_entry_ok_def MAX_ENTRY_BYTES_def)
  have m: "members_ok 1 [2, 3]" by (simp add: members_ok_def)
  have "fst (restore sample_persisted (Some sample_snapshot) (raft_new 1 [2, 3])) = Inr ()"
    by (simp add: restore_def sample_persisted_def sample_snapshot_def restore_snapshot_def into_log_def compact_through_def
        raft_new_def sat_add64_def Let_def)
  then obtain s where s: "restore sample_persisted (Some sample_snapshot) (raft_new 1 [2, 3]) = (Inr (), s)"
    by (cases "restore sample_persisted (Some sample_snapshot) (raft_new 1 [2, 3])") auto
  have "node_ok sample_persisted s"
    by (rule raft_restart[OF s p m]) (simp_all add: sample_snapshot_def sample_persisted_def)
  then show ?thesis using p m s by blast
qed

end
