(* ===== verification/Raft_Node.thy ===== *)
theory Raft_Node
  imports Raft_Local
begin

text \<open>
  The driver of \<open>raft/node.rs\<close>: it feeds events to the state machine, makes the recorded operations
  durable, and only then sends what the state machine wants sent. A store that fails stops the node.

  The store (\<open>RaftStore\<close>) and the state transfer (\<open>SnapshotTransfer\<close>) are traits; here they are
  records of functions over a store state and a machine state. Timers are inputs: an event says
  that a timeout or a tick has happened, and \<open>recent_leader\<close> says whether a leader was heard from
  within the minimal election timeout. What was sent, handed over and acknowledged
  to proposers is kept as a history.
\<close>

section \<open>Interfaces\<close>

record 's store_ops =
  so_persist :: "persist_op list \<Rightarrow> 's \<Rightarrow> (store_error + unit) \<times> 's"
  so_load :: "'s \<Rightarrow> (store_error + persisted_raft) \<times> 's"
  so_load_snapshot :: "'s \<Rightarrow> (store_error + persisted_snapshot option) \<times> 's"
  so_save_snapshot :: "persisted_snapshot \<Rightarrow> 's \<Rightarrow> (store_error + unit) \<times> 's"

record 'm snapshot_transfer =
  tr_read_chunk :: "nat \<Rightarrow> nat \<Rightarrow> nat \<Rightarrow> 'm \<Rightarrow> (u8 list \<times> bool) option"
  tr_apply_chunk :: "u8 list \<Rightarrow> bool \<Rightarrow> 'm \<Rightarrow> bool \<times> 'm"
  tr_progress :: "'m \<Rightarrow> nat"
  tr_snapshot_end :: "u8 list \<Rightarrow> nat"

definition SNAPSHOT_CHUNK_BYTES :: nat where "SNAPSHOT_CHUNK_BYTES = 1024 * 1024"

datatype outbound = OutSendTo node_id message | OutBroadcast message

record ('s, 'm) raft_node =
  nd_state :: raft_state
  nd_store :: 's
  nd_machine :: 'm
  nd_outbound :: "outbound list"
  nd_committed :: "log_entry list"
  nd_acks :: "propose_outcome list"
  nd_failed :: bool

type_synonym ('s, 'm) driver = "('s, 'm) raft_node \<Rightarrow> ('s, 'm) raft_node"


section \<open>Driver\<close>

definition push_outbound :: "outbound \<Rightarrow> ('s, 'm) driver" where
  "push_outbound out n = n\<lparr>nd_outbound := nd_outbound n @ [out]\<rparr>"

text \<open>The snapshot message for \<open>peer\<close>, if the transfer can produce it.\<close>

definition snapshot_message ::
    "'m snapshot_transfer option \<Rightarrow> persisted_snapshot \<Rightarrow> node_id \<Rightarrow> ('s, 'm) raft_node \<Rightarrow> install_snapshot_msg option" where
  "snapshot_message transfer snap peer n =
     (let s = nd_state n;
          base = \<lparr>is_term = rs_current_term s, is_leader_id = rs_me s, is_last_index = ps_last_index snap,
                  is_last_term = ps_last_term snap, is_offset = 0, is_done = True, is_data = ps_data snap\<rparr>
      in case transfer of
           None \<Rightarrow> Some base
         | Some t \<Rightarrow>
             (case rs_snapshot_cursor s peer of
                None \<Rightarrow> Some (base\<lparr>is_offset := PROBE_OFFSET, is_done := False, is_data := []\<rparr>)
              | Some from \<Rightarrow>
                  (case tr_read_chunk t from (tr_snapshot_end t (ps_data snap)) SNAPSHOT_CHUNK_BYTES (nd_machine n) of
                     None \<Rightarrow> None
                   | Some (data, done) \<Rightarrow> Some (base\<lparr>is_offset := from, is_done := done, is_data := data\<rparr>))))"

definition send_snapshot :: "'s store_ops \<Rightarrow> 'm snapshot_transfer option \<Rightarrow> node_id \<Rightarrow> ('s, 'm) driver" where
  "send_snapshot so transfer peer n =
     (case so_load_snapshot so (nd_store n) of
        (Inl _, st) \<Rightarrow> n\<lparr>nd_store := st\<rparr>
      | (Inr None, st) \<Rightarrow>
          n\<lparr>nd_store := st,
            nd_state := (nd_state n)\<lparr>rs_next_index := (rs_next_index (nd_state n))(peer \<mapsto> lg_base_index (rs_log (nd_state n)) + 1)\<rparr>\<rparr>
      | (Inr (Some snap), st) \<Rightarrow>
          (case snapshot_message transfer snap peer n of
             None \<Rightarrow> n\<lparr>nd_store := st\<rparr>
           | Some msg \<Rightarrow> push_outbound (OutSendTo peer (InstallSnapshot msg)) (n\<lparr>nd_store := st\<rparr>)))"

fun do_action :: "'s store_ops \<Rightarrow> 'm snapshot_transfer option \<Rightarrow> action \<Rightarrow> ('s, 'm) driver" where
  "do_action so transfer (SendTo peer msg) n = push_outbound (OutSendTo peer msg) n"
| "do_action so transfer (Broadcast msg) n = push_outbound (OutBroadcast msg) n"
| "do_action so transfer ResetElectionTimer n = n"
| "do_action so transfer (Apply e) n = n\<lparr>nd_committed := nd_committed n @ [e]\<rparr>"
| "do_action so transfer (SendSnapshot peer) n = send_snapshot so transfer peer n"

definition apply_and_persist :: "'s store_ops \<Rightarrow> 'm snapshot_transfer option \<Rightarrow> action list \<Rightarrow> ('s, 'm) driver" where
  "apply_and_persist so transfer actions n =
     (let (ops, s) = take_persist_ops (nd_state n);
          n = n\<lparr>nd_state := s\<rparr>;
          (r, st) = (if ops = [] then (Inr (), nd_store n) else so_persist so ops (nd_store n));
          n = n\<lparr>nd_store := st\<rparr>
      in case r of
           Inl _ \<Rightarrow> n\<lparr>nd_failed := True\<rparr>
         | Inr _ \<Rightarrow> fold (do_action so transfer) actions n)"

text \<open>The part of \<open>on_message\<close> that applies a snapshot chunk to the state machine before Raft hears of
  it: whether that went well, the machine's position, and the machine.\<close>

definition apply_chunk_first ::
    "'m snapshot_transfer option \<Rightarrow> install_snapshot_msg \<Rightarrow> raft_term \<Rightarrow> 'm \<Rightarrow> bool \<times> nat \<times> 'm" where
  "apply_chunk_first transfer ism current_term m =
     (if is_term ism \<ge> current_term then
        case transfer of
          None \<Rightarrow> (True, 0, m)
        | Some t \<Rightarrow>
            let (ok, m') = (if is_probe ism then (True, m) else tr_apply_chunk t (is_data ism) (is_done ism) m)
            in (ok, tr_progress t m', m')
      else (True, 0, m))"

definition install_path :: "'s store_ops \<Rightarrow> 'm snapshot_transfer option \<Rightarrow> install_snapshot_msg \<Rightarrow> ('s, 'm) driver" where
  "install_path so transfer ism n =
     (let (ok, progress, m) = apply_chunk_first transfer ism (rs_current_term (nd_state n)) (nd_machine n);
          n = n\<lparr>nd_machine := m\<rparr>
      in if \<not> ok then
           push_outbound (OutSendTo (is_leader_id ism) (InstallSnapshotResp
             \<lparr>isr_term = rs_current_term (nd_state n), isr_success = False, isr_responder_id = rs_me (nd_state n),
              isr_next_offset = progress, isr_installed_index = 0\<rparr>)) n
         else
           let pending_snapshot = \<lparr>ps_last_index = is_last_index ism, ps_last_term = is_last_term ism,
                 ps_data = (case transfer of Some t \<Rightarrow> be_bytes 8 (tr_progress t m) | None \<Rightarrow> is_data ism)\<rparr>;
               before = lg_base_index (rs_log (nd_state n));
               (actions, s) = on_message_with_progress (InstallSnapshot ism) progress (nd_state n);
               n = n\<lparr>nd_state := s\<rparr>;
               (r, st) = (if is_done ism \<and> lg_base_index (rs_log s) > before
                          then so_save_snapshot so pending_snapshot (nd_store n) else (Inr (), nd_store n));
               n = n\<lparr>nd_store := st\<rparr>
           in case r of Inl _ \<Rightarrow> n\<lparr>nd_failed := True\<rparr> | Inr _ \<Rightarrow> apply_and_persist so transfer actions n)"

fun is_request_vote :: "message \<Rightarrow> bool" where
  "is_request_vote (RequestVote _) = True"
| "is_request_vote _ = False"

definition driver_on_message :: "'s store_ops \<Rightarrow> 'm snapshot_transfer option \<Rightarrow> bool \<Rightarrow> message \<Rightarrow> ('s, 'm) driver" where
  "driver_on_message so transfer recent_leader msg n =
     (case msg of
        InstallSnapshot ism \<Rightarrow> install_path so transfer ism n
      | _ \<Rightarrow>
          if is_request_vote msg \<and> recent_leader then n
          else let (actions, s) = on_message msg (nd_state n)
               in apply_and_persist so transfer actions (n\<lparr>nd_state := s\<rparr>))"

definition driver_take_snapshot ::
    "'s store_ops \<Rightarrow> u8 list \<Rightarrow> log_index option \<Rightarrow> ('s, 'm) raft_node \<Rightarrow> (unit + persisted_snapshot) \<times> ('s, 'm) raft_node" where
  "driver_take_snapshot so data through n =
     (case raft_take_snapshot data through (nd_state n) of
        (Inl e, s) \<Rightarrow> (Inl e, n\<lparr>nd_state := s\<rparr>)
      | (Inr snap, s) \<Rightarrow>
          let (ops, s) = take_persist_ops s;
              n = n\<lparr>nd_state := s\<rparr>
          in case so_save_snapshot so snap (nd_store n) of
               (Inl _, st) \<Rightarrow> (Inl (), n\<lparr>nd_store := st, nd_failed := True\<rparr>)
             | (Inr _, st) \<Rightarrow>
                 (case so_persist so ops st of
                    (Inl _, st) \<Rightarrow> (Inl (), n\<lparr>nd_store := st, nd_failed := True\<rparr>)
                  | (Inr _, st) \<Rightarrow> (Inr snap, n\<lparr>nd_store := st\<rparr>)))"

datatype node_event =
    EvMessage bool message
  | EvPropose "u8 list"
  | EvSnapshot "u8 list" "log_index option"
  | EvTimeout
  | EvTick

text \<open>One turn of the node loop.\<close>

fun node_step :: "'s store_ops \<Rightarrow> 'm snapshot_transfer option \<Rightarrow> node_event \<Rightarrow> ('s, 'm) driver" where
  "node_step so transfer (EvMessage recent msg) n = driver_on_message so transfer recent msg n"
| "node_step so transfer (EvPropose p) n =
     (let (actions, s) = propose_event p (nd_state n);
          n' = apply_and_persist so transfer actions (n\<lparr>nd_state := s\<rparr>)
      in if nd_failed n' then n' else n'\<lparr>nd_acks := nd_acks n' @ [fst (try_propose p (nd_state n))]\<rparr>)"
| "node_step so transfer (EvSnapshot d th) n = snd (driver_take_snapshot so d th n)"
| "node_step so transfer EvTimeout n =
     (let (actions, s) = on_election_timeout (nd_state n) in apply_and_persist so transfer actions (n\<lparr>nd_state := s\<rparr>))"
| "node_step so transfer EvTick n =
     (if rs_role (nd_state n) = Leader then apply_and_persist so transfer (on_heartbeat_tick (nd_state n)) n else n)"

text \<open>The loop: it ends at the first failure of the store.\<close>

definition node_loop :: "'s store_ops \<Rightarrow> 'm snapshot_transfer option \<Rightarrow> node_event list \<Rightarrow> ('s, 'm) driver" where
  "node_loop so transfer evs n = fold (\<lambda>ev n. if nd_failed n then n else node_step so transfer ev n) evs n"

definition spawn_node ::
    "'s store_ops \<Rightarrow> node_id \<Rightarrow> node_id list \<Rightarrow> bool \<Rightarrow> 'm \<Rightarrow> 's \<Rightarrow> (store_error + unit) + ('s, 'm) raft_node" where
  "spawn_node so me peers noop m st =
     (case so_load so st of
        (Inl e, _) \<Rightarrow> Inl (Inl e)
      | (Inr pr, st) \<Rightarrow>
          (case so_load_snapshot so st of
             (Inl e, _) \<Rightarrow> Inl (Inl e)
           | (Inr snap, st) \<Rightarrow>
               (case restore pr snap ((raft_new me peers)\<lparr>rs_noop_on_elect := noop\<rparr>) of
                  (Inl e, _) \<Rightarrow> Inl (Inr e)
                | (Inr _, s) \<Rightarrow> Inr \<lparr>nd_state = s, nd_store = st, nd_machine = m, nd_outbound = [], nd_committed = [], nd_acks = [], nd_failed = False\<rparr>)))"



section \<open>Persist before send\<close>

text \<open>Between two turns of the loop nothing is pending and the store holds the state in memory.\<close>

definition in_sync :: "('s \<Rightarrow> persisted_raft \<Rightarrow> bool) \<Rightarrow> ('s, 'm) raft_node \<Rightarrow> bool" where
  "in_sync holds n \<longleftrightarrow> raft_inv (nd_state n) \<and> rs_pending (nd_state n) = [] \<and> holds (nd_store n) (snapshot_persistent (nd_state n))"

text \<open>What a turn may end in: in step with the store, or stopped with nothing sent and a store that
  still loads.\<close>

definition turn_ok ::
    "('s \<Rightarrow> (store_error + persisted_raft) \<times> 's) \<Rightarrow> ('s \<Rightarrow> persisted_raft \<Rightarrow> bool) \<Rightarrow> ('s, 'm) raft_node \<Rightarrow>
     ('s, 'm) raft_node \<Rightarrow> bool" where
  "turn_ok reload holds n n' \<longleftrightarrow>
     (if nd_failed n' then nd_outbound n' = nd_outbound n \<and> nd_committed n' = nd_committed n \<and> nd_acks n' = nd_acks n \<and>
        (\<exists>pr' st. reload (nd_store n') = (Inr pr', st) \<and> holds st pr')
      else in_sync holds n')"

lemma in_sync_node_ok: "in_sync holds n \<Longrightarrow> node_ok (snapshot_persistent (nd_state n)) (nd_state n)"
  by (simp add: in_sync_def node_ok_def tracks_def)

locale node_store = raft_store "so_persist so" reload holds ops_ok
  for so :: "'s store_ops" and reload :: "'s \<Rightarrow> (store_error + persisted_raft) \<times> 's" and holds :: "'s \<Rightarrow> persisted_raft \<Rightarrow> bool" +
  assumes load_snapshot_holds: "holds s pr \<Longrightarrow> holds (snd (so_load_snapshot so s)) pr"
    and save_snapshot_holds: "holds s pr \<Longrightarrow> holds (snd (so_save_snapshot so sn s)) pr"
begin

lemma in_sync_next_index:
  "in_sync holds n \<Longrightarrow> in_sync holds (n\<lparr>nd_state := (nd_state n)\<lparr>rs_next_index := m\<rparr>\<rparr>)"
  by (simp add: in_sync_def raft_inv_def snapshot_persistent_def)

lemma in_sync_store: "in_sync holds n \<Longrightarrow> in_sync holds (n\<lparr>nd_store := snd (so_load_snapshot so (nd_store n))\<rparr>)"
  by (simp add: in_sync_def load_snapshot_holds)

lemma in_sync_outbound [simp]:
  "in_sync holds (push_outbound x n) = in_sync holds n" "in_sync holds (n\<lparr>nd_committed := c\<rparr>) = in_sync holds n"
  "in_sync holds (n\<lparr>nd_machine := m\<rparr>) = in_sync holds n" "in_sync holds (n\<lparr>nd_acks := a\<rparr>) = in_sync holds n"
  by (simp_all add: in_sync_def push_outbound_def)

lemma in_sync_send_snapshot:
  assumes "in_sync holds n"
  shows "in_sync holds (send_snapshot so transfer peer n)"
proof -
  obtain r st where l: "so_load_snapshot so (nd_store n) = (r, st)" by (cases "so_load_snapshot so (nd_store n)")
  have st: "in_sync holds (n\<lparr>nd_store := st\<rparr>)" using in_sync_store[OF assms] l by simp
  show ?thesis
    using st in_sync_next_index[OF st] by (auto simp: send_snapshot_def l split: sum.split option.split)
qed

lemma do_action_keeps:
  assumes "in_sync holds n"
  shows "in_sync holds (do_action so transfer a n) \<and> nd_failed (do_action so transfer a n) = nd_failed n"
proof (cases a)
  case (SendSnapshot peer)
  have "nd_failed (send_snapshot so transfer peer n) = nd_failed n"
    by (auto simp: send_snapshot_def push_outbound_def split: sum.split option.split prod.split)
  then show ?thesis using SendSnapshot in_sync_send_snapshot[OF assms] by simp
qed (use assms in \<open>simp_all add: push_outbound_def in_sync_def\<close>)

lemma do_actions_keep:
  "in_sync holds n \<Longrightarrow> in_sync holds (fold (do_action so transfer) as n) \<and> nd_failed (fold (do_action so transfer) as n) = nd_failed n"
  by (induction as arbitrary: n) (simp_all add: do_action_keeps)

lemma turn_ok_persist:
  assumes "node_ok stored (nd_state n)" "holds (nd_store n) stored" "\<not> nd_failed n"
  shows "turn_ok reload holds n (apply_and_persist so transfer actions n)"
proof -
  let ?ops = "rs_pending (nd_state n)" and ?s = "(nd_state n)\<lparr>rs_pending := []\<rparr>"
  obtain r st where p: "(if ?ops = [] then (Inr (), nd_store n) else so_persist so ?ops (nd_store n)) = (r, st)"
    by (cases "if ?ops = [] then (Inr (), nd_store n) else so_persist so ?ops (nd_store n)")
  have t: "ops_ok ?ops stored" "mem_persist ?ops stored = snapshot_persistent (nd_state n)"
    using assms(1) by (simp_all add: node_ok_def tracks_def)
  have eq: "apply_and_persist so transfer actions n =
      (case r of Inl _ \<Rightarrow> n\<lparr>nd_state := ?s, nd_store := st, nd_failed := True\<rparr>
       | Inr _ \<Rightarrow> fold (do_action so transfer) actions (n\<lparr>nd_state := ?s, nd_store := st\<rparr>))"
    by (cases "?ops = []") (use p in \<open>auto simp: apply_and_persist_def take_persist_ops_def Let_def split: sum.split\<close>)
  show ?thesis
  proof (cases r)
    case (Inl e)
    then have "so_persist so ?ops (nd_store n) = (Inl e, st)" using p by (auto split: if_splits)
    from persist_failed[OF assms(2) t(1) this] show ?thesis
      by (auto simp: eq Inl turn_ok_def)
  next
    case (Inr u)
    have "holds st (snapshot_persistent (nd_state n))"
    proof (cases "?ops = []")
      case True
      then show ?thesis using p t(2) assms(2) by simp
    next
      case False
      then show ?thesis using persist_holds[OF assms(2) t(1)] p t(2) Inr by simp
    qed
    then have "in_sync holds (n\<lparr>nd_state := ?s, nd_store := st\<rparr>)"
      using assms(1) by (simp add: in_sync_def node_ok_def raft_inv_def snapshot_persistent_def)
    from do_actions_keep[OF this, of transfer actions] show ?thesis using assms(3) by (simp add: eq Inr turn_ok_def)
  qed
qed

lemma turn_ok_step:
  assumes "in_sync holds n" "\<not> nd_failed n" "event_ok ev" "room (nd_state n)"
  shows "turn_ok reload holds n (apply_and_persist so transfer (fst (raft_step ev (nd_state n))) (n\<lparr>nd_state := snd (raft_step ev (nd_state n))\<rparr>))"
proof -
  let ?pr = "snapshot_persistent (nd_state n)"
  have "node_ok ?pr (snd (raft_step ev (nd_state n)))"
    by (rule node_ok_raft_step[OF in_sync_node_ok[OF assms(1)] assms(3,4)])
  then have "turn_ok reload holds (n\<lparr>nd_state := snd (raft_step ev (nd_state n))\<rparr>)
      (apply_and_persist so transfer (fst (raft_step ev (nd_state n))) (n\<lparr>nd_state := snd (raft_step ev (nd_state n))\<rparr>))"
    using assms(1,2) by (intro turn_ok_persist[of ?pr]) (auto simp: in_sync_def)
  then show ?thesis by (simp add: turn_ok_def)
qed

lemma turn_ok_install:
  assumes "in_sync holds n" "\<not> nd_failed n" "msg_ok (InstallSnapshot ism)" "room (nd_state n)"
  shows "turn_ok reload holds n (install_path so transfer ism n)"
proof -
  obtain ok progress m where c: "apply_chunk_first transfer ism (rs_current_term (nd_state n)) (nd_machine n) = (ok, progress, m)"
    by (cases "apply_chunk_first transfer ism (rs_current_term (nd_state n)) (nd_machine n)") auto
  let ?pr = "snapshot_persistent (nd_state n)"
  obtain actions s where h: "on_message_with_progress (InstallSnapshot ism) progress (nd_state n) = (actions, s)"
    by (cases "on_message_with_progress (InstallSnapshot ism) progress (nd_state n)")
  define snap where "snap = \<lparr>ps_last_index = is_last_index ism, ps_last_term = is_last_term ism,
     ps_data = (case transfer of Some t \<Rightarrow> be_bytes 8 (tr_progress t m) | None \<Rightarrow> is_data ism)\<rparr>"
  define saved where "saved = (if is_done ism \<and> lg_base_index (rs_log s) > lg_base_index (rs_log (nd_state n))
     then so_save_snapshot so snap (nd_store n) else (Inr (), nd_store n))"
  obtain r st where rs: "saved = (r, st)" by (cases saved)
  define n1 where "n1 = n\<lparr>nd_machine := m, nd_state := s, nd_store := st\<rparr>"
  have st: "holds st ?pr"
    using assms(1) save_snapshot_holds[of "nd_store n" ?pr snap] rs by (auto simp: saved_def in_sync_def split: if_splits)
  have s: "node_ok ?pr s"
    using node_ok_on_message[OF in_sync_node_ok[OF assms(1)] assms(3,4), of progress] h by simp
  have eq: "install_path so transfer ism n =
      (if \<not> ok then push_outbound (OutSendTo (is_leader_id ism) (InstallSnapshotResp
             \<lparr>isr_term = rs_current_term (nd_state n), isr_success = False, isr_responder_id = rs_me (nd_state n),
              isr_next_offset = progress, isr_installed_index = 0\<rparr>)) (n\<lparr>nd_machine := m\<rparr>)
       else case r of Inl _ \<Rightarrow> n1\<lparr>nd_failed := True\<rparr> | Inr _ \<Rightarrow> apply_and_persist so transfer actions n1)"
    using rs unfolding saved_def snap_def
    by (cases "is_done ism \<and> lg_base_index (rs_log s) > lg_base_index (rs_log (nd_state n))")
      (auto simp: install_path_def c h n1_def split: sum.split)
  have "turn_ok reload holds n1 (apply_and_persist so transfer actions n1)"
    by (rule turn_ok_persist[of ?pr]) (use s st assms(2) in \<open>simp_all add: n1_def\<close>)
  then have fine: "turn_ok reload holds n (apply_and_persist so transfer actions n1)" by (simp add: turn_ok_def n1_def)
  have "turn_ok reload holds n (n1\<lparr>nd_failed := True\<rparr>)"
    using reload_holds[OF st] by (auto simp: turn_ok_def n1_def)
  then show ?thesis
    using fine assms(1,2) unfolding eq by (auto simp: turn_ok_def push_outbound_def in_sync_def split: sum.split)
qed

lemma turn_ok_take_snapshot:
  assumes "in_sync holds n" "\<not> nd_failed n"
  shows "turn_ok reload holds n (snd (driver_take_snapshot so d th n))"
proof -
  let ?pr = "snapshot_persistent (nd_state n)"
  obtain r s where t: "raft_take_snapshot d th (nd_state n) = (r, s)" by (cases "raft_take_snapshot d th (nd_state n)")
  have s: "node_ok ?pr s" using node_ok_take_snapshot[OF in_sync_node_ok[OF assms(1)], of d th] t by simp
  have p: "holds (nd_store n) ?pr" using assms(1) by (simp add: in_sync_def)
  show ?thesis
  proof (cases r)
    case (Inl e)
    then have "s = nd_state n" using t by (auto simp: raft_take_snapshot_def Let_def split: if_splits option.splits)
    then show ?thesis using Inl t assms by (simp add: driver_take_snapshot_def turn_ok_def)
  next
    case (Inr snap)
    obtain r1 st where sv: "so_save_snapshot so snap (nd_store n) = (r1, st)" by (cases "so_save_snapshot so snap (nd_store n)")
    have st: "holds st ?pr" using save_snapshot_holds[OF p, of snap] sv by simp
    obtain r2 st2 where ps: "so_persist so (rs_pending s) st = (r2, st2)" by (cases "so_persist so (rs_pending s) st")
    have ok: "ops_ok (rs_pending s) ?pr" "mem_persist (rs_pending s) ?pr = snapshot_persistent s"
      using s by (simp_all add: node_ok_def tracks_def)
    have eq: "snd (driver_take_snapshot so d th n) =
        (case r1 of Inl _ \<Rightarrow> n\<lparr>nd_state := s\<lparr>rs_pending := []\<rparr>, nd_store := st, nd_failed := True\<rparr>
         | Inr _ \<Rightarrow> (case r2 of Inl _ \<Rightarrow> n\<lparr>nd_state := s\<lparr>rs_pending := []\<rparr>, nd_store := st2, nd_failed := True\<rparr>
                   | Inr _ \<Rightarrow> n\<lparr>nd_state := s\<lparr>rs_pending := []\<rparr>, nd_store := st2\<rparr>))"
      using t Inr sv ps by (simp add: driver_take_snapshot_def take_persist_ops_def Let_def split: sum.split)
    have "\<exists>pr' x. reload st2 = (Inr pr', x) \<and> holds x pr'" if "r2 = Inl e" for e
      using persist_failed[OF st ok(1)] ps that by blast
    moreover have "in_sync holds (n\<lparr>nd_state := s\<lparr>rs_pending := []\<rparr>, nd_store := st2\<rparr>)" if "r2 = Inr ()"
      using persist_holds[OF st ok(1)] ps that ok(2) s
      by (simp add: in_sync_def node_ok_def raft_inv_def snapshot_persistent_def)
    ultimately show ?thesis
      using reload_holds[OF st] assms(2) unfolding eq by (auto simp: turn_ok_def split: sum.split)
  qed
qed

lemma turn_ok_node_step:
  assumes "in_sync holds n" "\<not> nd_failed n" "room (nd_state n)"
    and "\<And>recent m. ev = EvMessage recent m \<Longrightarrow> msg_ok m" "\<And>p. ev = EvPropose p \<Longrightarrow> 20 + length p \<le> MAX_ENTRY_BYTES"
  shows "turn_ok reload holds n (node_step so transfer ev n)"
proof (cases ev)
  case (EvMessage recent m)
  have m: "msg_ok m" using assms(4) EvMessage by simp
  show ?thesis
  proof (cases "\<exists>ism. m = InstallSnapshot ism")
    case True
    then show ?thesis using turn_ok_install[OF assms(1,2) _ assms(3)] m EvMessage by (auto simp: driver_on_message_def)
  next
    case False
    have "turn_ok reload holds n n" using assms(1,2) by (simp add: turn_ok_def)
    moreover have "node_step so transfer ev n = (if is_request_vote m \<and> recent then n
        else apply_and_persist so transfer (fst (raft_step (Deliver m 0) (nd_state n))) (n\<lparr>nd_state := snd (raft_step (Deliver m 0) (nd_state n))\<rparr>))"
      using False EvMessage by (cases m) (auto simp: driver_on_message_def on_message_def case_prod_beta Let_def)
    ultimately show ?thesis using turn_ok_step[OF assms(1,2), of "Deliver m 0"] m assms(3) by simp
  qed
next
  case (EvPropose p)
  then show ?thesis using turn_ok_step[OF assms(1,2), of "Propose p"] assms(3,5) by (auto simp: case_prod_beta Let_def turn_ok_def)
next
  case (EvSnapshot d th)
  then show ?thesis using turn_ok_take_snapshot[OF assms(1,2)] by simp
next
  case EvTimeout
  then show ?thesis using turn_ok_step[OF assms(1,2), of ElectionTimeout] assms(3) by (simp add: case_prod_beta)
next
  case EvTick
  have "turn_ok reload holds n n" using assms(1,2) by (simp add: turn_ok_def)
  then show ?thesis using EvTick turn_ok_step[OF assms(1,2), of HeartbeatTick] assms(3) by simp
qed

end


section \<open>The stores\<close>

definition mem_ops :: "(persisted_raft \<times> persisted_snapshot option) store_ops" where
  "mem_ops = \<lparr>so_persist = (\<lambda>ops s. (Inr (), (mem_persist ops (fst s), snd s))), so_load = (\<lambda>s. (Inr (fst s), s)),
     so_load_snapshot = (\<lambda>s. (Inr (snd s), s)), so_save_snapshot = (\<lambda>sn s. (Inr (), (fst s, Some sn)))\<rparr>"

interpretation mem_node: node_store mem_ops "\<lambda>s. (Inr (fst s), s)" "\<lambda>s pr. fst s = pr"
  by unfold_locales (auto simp: mem_ops_def)

definition file_ops ::
    "(u8 list \<Rightarrow> 32 word) \<Rightarrow> (hard_state_file \<Rightarrow> u8 list) \<Rightarrow> (u8 list \<Rightarrow> hard_state_file option) \<Rightarrow> (string \<Rightarrow> u8 list option) \<Rightarrow>
     (persisted_snapshot \<Rightarrow> u8 list) \<Rightarrow> (u8 list \<Rightarrow> persisted_snapshot option) \<Rightarrow> file_store store_ops" where
  "file_ops crc to_json from_json b64 snap_to snap_from =
     \<lparr>so_persist = fs_persist crc to_json, so_load = fs_load crc to_json from_json b64,
      so_load_snapshot = fs_load_snapshot snap_from, so_save_snapshot = fs_save_snapshot snap_to\<rparr>"

lemma fs_holds_snap [simp]: "fs_holds crc from_json (s\<lparr>fs_snap := x\<rparr>) pr = fs_holds crc from_json s pr"
  by (simp add: fs_holds_def disk_holds_def hard_holds_iff log_bytes_def)

lemma file_node_store:
  assumes "json_ok to_json from_json"
  shows "node_store (file_ops crc to_json from_json b64 snap_to snap_from)
    (\<lambda>s. fs_load crc to_json from_json b64 (fs_restart s)) (fs_holds crc from_json)"
proof (rule node_store.intro)
  show "raft_store (so_persist (file_ops crc to_json from_json b64 snap_to snap_from))
      (\<lambda>s. fs_load crc to_json from_json b64 (fs_restart s)) (fs_holds crc from_json) ops_ok"
    using file_store_laws[OF assms] by (simp add: file_ops_def)
  show "node_store_axioms (file_ops crc to_json from_json b64 snap_to snap_from) (fs_holds crc from_json)"
  proof
    fix s pr assume h: "fs_holds crc from_json s pr"
    show "fs_holds crc from_json (snd (so_load_snapshot (file_ops crc to_json from_json b64 snap_to snap_from) s)) pr"
      using h by (simp add: file_ops_def fs_load_snapshot_def split: option.split)
    show "fs_holds crc from_json (snd (so_save_snapshot (file_ops crc to_json from_json b64 snap_to snap_from) sn s)) pr" for sn
      using h by (cases s rule: next_io_cases) (auto simp: file_ops_def fs_save_snapshot_def write_atomic_def split: nat.split)
  qed
qed


section \<open>Properties\<close>

text \<open>C22: persist before send. A node whose store is in step with its memory takes any event, with I/O
  failures anywhere: either the store has again exactly the state in memory, term, vote and log,
  before anything is sent, or the node stops, nothing at all has been sent, handed over or acknowledged
  in that turn, and the store still loads after a restart.\<close>

theorem raft_persists_before_sending:
  assumes "json_ok to_json from_json" "in_sync (fs_holds crc from_json) n" "\<not> nd_failed n" "room (nd_state n)"
    and "\<And>recent m. ev = EvMessage recent m \<Longrightarrow> msg_ok m" "\<And>p. ev = EvPropose p \<Longrightarrow> 20 + length p \<le> MAX_ENTRY_BYTES"
    and "n' = node_step (file_ops crc to_json from_json b64 snap_to snap_from) transfer ev n"
  shows "if nd_failed n'
    then nd_outbound n' = nd_outbound n \<and> nd_committed n' = nd_committed n \<and> nd_acks n' = nd_acks n \<and>
      (\<exists>pr st. fs_load crc to_json from_json b64 (fs_restart (nd_store n')) = (Inr pr, st) \<and> fs_holds crc from_json st pr)
    else rs_pending (nd_state n') = [] \<and> fs_holds crc from_json (nd_store n') (snapshot_persistent (nd_state n')) \<and>
      raft_inv (nd_state n')"
  using node_store.turn_ok_node_step[OF file_node_store[OF assms(1)] assms(2-6)]
  unfolding assms(7) turn_ok_def in_sync_def by (simp split: if_splits)

definition sample_raft_node :: "(file_store, unit) raft_node" where
  "sample_raft_node = \<lparr>nd_state = sample_node, nd_store = fresh_store [None, Some 0], nd_machine = (), nd_outbound = [],
     nd_committed = [], nd_acks = [], nd_failed = False\<rparr>"

lemma sample_raft_node_in_sync: "in_sync (fs_holds crc from_json) sample_raft_node"
  using sample_node_ok(1) fresh_store_holds[of crc from_json "[None, Some 0]"]
  by (simp add: in_sync_def sample_raft_node_def node_ok_def sample_node_def raft_new_def snapshot_persistent_def
      from_runtime_def no_raft_def empty_log_def)

theorem raft_persists_before_sending_witness:
  "json_ok sample_to_json sample_from_json \<and> in_sync (fs_holds (\<lambda>_. 5) sample_from_json) sample_raft_node \<and>
   (let n' = node_step (file_ops (\<lambda>_. 5) sample_to_json sample_from_json (\<lambda>_. None) (\<lambda>_. []) (\<lambda>_. None)) None EvTimeout sample_raft_node
    in if nd_failed n'
       then nd_outbound n' = []
       else fs_holds (\<lambda>_. 5) sample_from_json (nd_store n') (snapshot_persistent (nd_state n')))"
proof -
  have r: "\<not> nd_failed sample_raft_node" "room (nd_state sample_raft_node)" "nd_outbound sample_raft_node = []"
    using sample_node_ok(2) by (simp_all add: sample_raft_node_def)
  note s = sample_raft_node_in_sync[of "\<lambda>_. 5" sample_from_json]
  from raft_persists_before_sending[OF sample_json_ok s r(1,2) _ _ refl, of EvTimeout "\<lambda>_. None" "\<lambda>_. []" "\<lambda>_. None" None]
  show ?thesis unfolding Let_def r(3) using s sample_json_ok by (simp only: node_event.distinct if_bool_eq_conj) blast
qed

end
