(* ===== verification/Fs_Files.thy ===== *)
theory Fs_Files
  imports Rust_Text
begin

text \<open>
  The helpers of \<open>fsutil.rs\<close> and the file reading of the standard library that the broker's small
  files share: \<open>write_atomic\<close>, the names of its leftovers, the characters allowed in names, and
  \<open>BufRead::lines\<close>.
\<close>

section \<open>Names\<close>

definition ascii_alphanumeric :: "char \<Rightarrow> bool" where
  "ascii_alphanumeric c \<longleftrightarrow>
     (let n = of_char c :: nat in (48 \<le> n \<and> n \<le> 57) \<or> (65 \<le> n \<and> n \<le> 90) \<or> (97 \<le> n \<and> n \<le> 122))"

definition name_char :: "char \<Rightarrow> bool" where
  "name_char c \<longleftrightarrow> ascii_alphanumeric c \<or> c = CHR ''_'' \<or> c = CHR ''-'' \<or> c = CHR ''.''"

definition starts_with :: "string \<Rightarrow> string \<Rightarrow> bool" where
  "starts_with s pre \<longleftrightarrow> take (length pre) s = pre"

definition ends_with :: "string \<Rightarrow> string \<Rightarrow> bool" where
  "ends_with s suf \<longleftrightarrow> length suf \<le> length s \<and> drop (length s - length suf) s = suf"

lemma starts_with_iff: "starts_with s pre \<longleftrightarrow> (\<exists>rest. s = pre @ rest)"
  unfolding starts_with_def by (metis append_eq_conv_conj append_take_drop_id)

lemma ends_with_iff: "ends_with s suf \<longleftrightarrow> (\<exists>rest. s = rest @ suf)"
  unfolding ends_with_def by (metis append_eq_conv_conj append_take_drop_id diff_le_self le_add2 length_append length_drop diff_diff_cancel add_diff_cancel_right')

lemma ends_with_append [simp]: "ends_with (a @ suf) suf"
  by (auto simp: ends_with_iff)


section \<open>Replacing a file\<close>

text \<open>\<open>write_atomic\<close>: a failure before the rename leaves the old file, one after it (the sync of the
  directory) the new one. Both are reported.\<close>

datatype atomic_io = AtomicDone | FailsBeforeRename | FailsAfterRename

definition replace_file :: "atomic_io \<Rightarrow> u8 list \<Rightarrow> u8 list option \<Rightarrow> bool \<times> u8 list option" where
  "replace_file io bytes old =
     (case io of
        AtomicDone \<Rightarrow> (True, Some bytes)
      | FailsBeforeRename \<Rightarrow> (False, old)
      | FailsAfterRename \<Rightarrow> (False, Some bytes))"

text \<open>The temporary name \<open>name.pid.n.tmp\<close>, and its recognition at startup.\<close>

definition unique_tmp :: "nat \<Rightarrow> nat \<Rightarrow> string \<Rightarrow> string" where
  "unique_tmp pid n name = name @ ''.'' @ dec_digits pid @ ''.'' @ dec_digits n @ ''.tmp''"

definition is_atomic_tmp_leftover :: "string \<Rightarrow> bool" where
  "is_atomic_tmp_leftover name \<longleftrightarrow> ends_with name ''.tmp'' \<and> length (filter (\<lambda>c. c = CHR ''.'') name) \<ge> 3"

lemma unique_tmp_is_leftover: "is_atomic_tmp_leftover (unique_tmp pid n name)"
  by (auto simp: is_atomic_tmp_leftover_def unique_tmp_def ends_with_iff)


section \<open>Lines\<close>

text \<open>\<open>BufRead::lines\<close>: the pieces between newlines without the newline and one carriage return before
  it; nothing after a newline at the end.\<close>

definition NEWLINE :: u8 where "NEWLINE = 10"

definition strip_cr :: "u8 list \<Rightarrow> u8 list" where
  "strip_cr l = (if l \<noteq> [] \<and> last l = 13 then butlast l else l)"

function file_lines :: "u8 list \<Rightarrow> u8 list list" where
  "file_lines bs =
     (if bs = [] then []
      else let l = takeWhile (\<lambda>b. b \<noteq> NEWLINE) bs; rest = dropWhile (\<lambda>b. b \<noteq> NEWLINE) bs
           in (if rest = [] then [l] else strip_cr l # file_lines (tl rest)))"
  by pat_completeness auto
termination
proof (relation "measure length")
  fix bs l rest :: "u8 list"
  assume "bs \<noteq> []" "l = takeWhile (\<lambda>b. b \<noteq> NEWLINE) bs" "rest = dropWhile (\<lambda>b. b \<noteq> NEWLINE) bs" "rest \<noteq> []"
  moreover have "length (dropWhile (\<lambda>b. b \<noteq> NEWLINE) bs) \<le> length bs" by (rule length_dropWhile_le)
  ultimately show "(tl rest, bs) \<in> measure length" by (cases bs) auto
qed auto

declare file_lines.simps [simp del]

lemma file_lines_Nil [simp]: "file_lines [] = []"
  by (simp add: file_lines.simps)

lemma file_lines_line:
  assumes "NEWLINE \<notin> set l" "l = [] \<or> last l \<noteq> 13"
  shows "file_lines (l @ NEWLINE # rest) = l # file_lines rest"
proof -
  have "takeWhile (\<lambda>b. b \<noteq> NEWLINE) (l @ NEWLINE # rest) = l" "dropWhile (\<lambda>b. b \<noteq> NEWLINE) (l @ NEWLINE # rest) = NEWLINE # rest"
    using assms(1) by (simp_all add: takeWhile_append dropWhile_append)
  then show ?thesis
    using assms(2) by (subst file_lines.simps) (auto simp: strip_cr_def Let_def)
qed

lemma file_lines_open:
  assumes "NEWLINE \<notin> set l" "l \<noteq> []"
  shows "file_lines l = [l]"
proof -
  have "takeWhile (\<lambda>b. b \<noteq> NEWLINE) l = l" "dropWhile (\<lambda>b. b \<noteq> NEWLINE) l = []" using assms(1) by (auto simp: takeWhile_eq_all_conv)
  then show ?thesis using assms(2) by (subst file_lines.simps) (simp add: Let_def)
qed

end
