(* ===== verification/Producers.thy ===== *)
theory Producers
  imports Fs_Files "HOL-Library.AList" "HOL-Library.List_Lexorder" "HOL-Library.Char_ord" "HOL-Library.Product_Lexorder" "HOL-Library.Countable"
begin

text \<open>
  The state of idempotent producers (\<open>producers.rs\<close>): the window of recent sequences per partition,
  the registry with its owners and limits, the journal and the snapshot \<open>producers.json\<close>.

  Maps (\<open>DashMap\<close>, \<open>BTreeMap\<close>) are association lists, since they are written out and iterated. The
  JSON texts come from \<open>serde_json\<close>: the printers and parsers of the snapshot and of a journal line are
  parameters (\<open>json\<close> below). The clock is an argument. Error texts are left out.
\<close>

section \<open>One producer\<close>

datatype dedupe_outcome = Accept | Duplicate nat | SequenceTooLow int | Gap int int

definition WINDOW :: nat where "WINDOW = 128"
definition MAX_PRODUCERS :: nat where "MAX_PRODUCERS = 100000"
definition MAX_PRODUCERS_PER_KEY :: nat where "MAX_PRODUCERS_PER_KEY = 10000"
definition PRODUCER_EXPIRY :: nat where "PRODUCER_EXPIRY = 7 * 24 * 3600 * 1000"

record part_window =
  pw_last_seen :: int
  pw_last_offset :: nat
  pw_recent :: "(int \<times> nat) list"

record producer_state =
  pr_owner :: string
  pr_last_used_ms :: int
  pr_partitions :: "((string \<times> nat) \<times> part_window) list"

definition empty_window :: part_window where
  "empty_window = \<lparr>pw_last_seen = 0, pw_last_offset = 0, pw_recent = []\<rparr>"

definition window_check :: "part_window \<Rightarrow> int \<Rightarrow> dedupe_outcome" where
  "window_check w sequence =
     (if sequence = sat_add_i64 (pw_last_seen w) 1 then Accept
      else if sequence > pw_last_seen w then Gap (sat_add_i64 (pw_last_seen w) 1) sequence
      else case find (\<lambda>(s, _). s = sequence) (pw_recent w) of
             Some (_, off) \<Rightarrow> Duplicate off
           | None \<Rightarrow>
               if sequence = pw_last_seen w then Duplicate (pw_last_offset w)
               else SequenceTooLow (pw_last_seen w))"

definition check :: "producer_state \<Rightarrow> string \<Rightarrow> nat \<Rightarrow> int \<Rightarrow> dedupe_outcome" where
  "check st topic part sequence =
     (case map_of (pr_partitions st) (topic, part) of
        None \<Rightarrow> Accept
      | Some w \<Rightarrow> window_check w sequence)"

definition window_record :: "int \<Rightarrow> nat \<Rightarrow> part_window \<Rightarrow> part_window" where
  "window_record sequence offset w =
     (let w = (if pw_recent w = [] \<or> sequence > pw_last_seen w
               then w\<lparr>pw_last_seen := sequence, pw_last_offset := offset\<rparr> else w);
          recent = pw_recent w @ [(sequence, offset)]
      in w\<lparr>pw_recent := drop (length recent - WINDOW) recent\<rparr>)"

definition touch :: "int \<Rightarrow> producer_state \<Rightarrow> producer_state" where
  "touch now st = st\<lparr>pr_last_used_ms := now\<rparr>"

definition record_seq :: "int \<Rightarrow> string \<Rightarrow> nat \<Rightarrow> int \<Rightarrow> nat \<Rightarrow> producer_state \<Rightarrow> producer_state" where
  "record_seq now topic part sequence offset st =
     (let w = (case map_of (pr_partitions st) (topic, part) of Some w \<Rightarrow> w | None \<Rightarrow> empty_window)
      in st\<lparr>pr_partitions := AList.update (topic, part) (window_record sequence offset w) (pr_partitions st),
           pr_last_used_ms := now\<rparr>)"


section \<open>Files\<close>

record persisted_partition =
  pp_topic :: string
  pp_partition :: nat
  pp_last_seen_sequence :: int
  pp_last_offset :: nat
  pp_recent :: "(int \<times> nat) list"

record persisted_producer =
  pd_producer_id :: string
  pd_owner :: string
  pd_last_used_ms :: int
  pd_partitions :: "persisted_partition list"

record journal_entry =
  je_p :: string
  je_o :: string
  je_t :: string
  je_n :: nat
  je_s :: int
  je_f :: nat

text \<open>The JSON side: snapshot and journal line, each printed and parsed. The parser of a line includes
  the check that it is UTF-8.\<close>

record producer_json =
  js_snapshot :: "persisted_producer list \<Rightarrow> u8 list"
  js_parse_snapshot :: "u8 list \<Rightarrow> persisted_producer list option"
  js_line :: "journal_entry \<Rightarrow> u8 list"
  js_parse_line :: "u8 list \<Rightarrow> journal_entry option"

record registry =
  rg_state :: "(string \<times> producer_state) list"
  rg_per_owner :: "(string \<times> nat) list"
  rg_dirty :: bool
  rg_snapshot :: "u8 list option"
  rg_journal :: "u8 list option"
  rg_rotated :: "u8 list option"

datatype producers_error = ParseSnapshot | ProducersIo | ProducerNotFound

definition bump :: "string \<Rightarrow> (string \<times> nat) list \<Rightarrow> (string \<times> nat) list" where
  "bump owner counts = AList.update owner ((case map_of counts owner of None \<Rightarrow> 0 | Some n \<Rightarrow> n) + 1) counts"

definition unbump :: "string \<Rightarrow> (string \<times> nat) list \<Rightarrow> (string \<times> nat) list" where
  "unbump owner counts = (case map_of counts owner of None \<Rightarrow> counts | Some n \<Rightarrow> AList.update owner (n - 1) counts)"

definition persisted_window :: "persisted_partition \<Rightarrow> (string \<times> nat) \<times> part_window" where
  "persisted_window q =
     ((pp_topic q, pp_partition q),
      \<lparr>pw_last_seen = pp_last_seen_sequence q, pw_last_offset = pp_last_offset q, pw_recent = pp_recent q\<rparr>)"

definition load_producer :: "int \<Rightarrow> persisted_producer \<Rightarrow> registry \<Rightarrow> registry" where
  "load_producer now p r =
     (let st = \<lparr>pr_owner = pd_owner p,
                pr_last_used_ms = (if pd_last_used_ms p = 0 then now else pd_last_used_ms p),
                pr_partitions = fold (\<lambda>q m. case persisted_window q of (k, w) \<Rightarrow> AList.update k w m) (pd_partitions p) []\<rparr>
      in r\<lparr>rg_per_owner := bump (pr_owner st) (rg_per_owner r),
          rg_state := AList.update (pd_producer_id p) st (rg_state r)\<rparr>)"

definition replay_entry :: "int \<Rightarrow> journal_entry \<Rightarrow> registry \<Rightarrow> registry" where
  "replay_entry now e r =
     (let r = (case map_of (rg_state r) (je_p e) of
                 Some _ \<Rightarrow> r
               | None \<Rightarrow> r\<lparr>rg_per_owner := bump (je_o e) (rg_per_owner r),
                           rg_state := AList.update (je_p e)
                             \<lparr>pr_owner = je_o e, pr_last_used_ms = now, pr_partitions = []\<rparr> (rg_state r)\<rparr>);
          st = the (map_of (rg_state r) (je_p e))
      in r\<lparr>rg_state := AList.update (je_p e) (record_seq now (je_t e) (je_n e) (je_s e) (je_f e) st) (rg_state r)\<rparr>)"

text \<open>Entries are read up to the first line that does not parse.\<close>

fun parse_lines :: "(u8 list \<Rightarrow> journal_entry option) \<Rightarrow> u8 list list \<Rightarrow> journal_entry list" where
  "parse_lines parse [] = []"
| "parse_lines parse (l # ls) = (case parse l of None \<Rightarrow> [] | Some e \<Rightarrow> e # parse_lines parse ls)"

definition journal_entries :: "producer_json \<Rightarrow> u8 list option \<Rightarrow> journal_entry list" where
  "journal_entries js f = (case f of None \<Rightarrow> [] | Some bs \<Rightarrow> parse_lines (js_parse_line js) (file_lines bs))"

definition replay :: "producer_json \<Rightarrow> int \<Rightarrow> u8 list option \<Rightarrow> registry \<Rightarrow> registry" where
  "replay js now f r =
     (let es = journal_entries js f; r = fold (replay_entry now) es r
      in if es \<noteq> [] then r\<lparr>rg_dirty := True\<rparr> else r)"

definition registry_open ::
    "producer_json \<Rightarrow> int \<Rightarrow> u8 list option \<Rightarrow> u8 list option \<Rightarrow> u8 list option \<Rightarrow> producers_error + registry" where
  "registry_open js now snapshot rot journal =
     (let r = \<lparr>rg_state = [], rg_per_owner = [], rg_dirty = False, rg_snapshot = snapshot, rg_journal = journal, rg_rotated = rot\<rparr>
      in case (case snapshot of None \<Rightarrow> Some [] | Some bytes \<Rightarrow> js_parse_snapshot js bytes) of
           None \<Rightarrow> Inl ParseSnapshot
         | Some ps \<Rightarrow> Inr (replay js now journal (replay js now rot (fold (load_producer now) ps r))))"


section \<open>Operations of the registry\<close>

datatype admit_error = AdmitInvalid | AdmitForbidden | AdmitLimit

text \<open>The slot of a producer, created if there is room for one.\<close>

definition producer_slot :: "int \<Rightarrow> string \<Rightarrow> string \<Rightarrow> registry \<Rightarrow> admit_error + producer_state \<times> registry" where
  "producer_slot now producer_id owner r =
     (case map_of (rg_state r) producer_id of
        Some st \<Rightarrow> Inr (st, r)
      | None \<Rightarrow>
          if length (rg_state r) \<ge> MAX_PRODUCERS then Inl AdmitLimit
          else if (case map_of (rg_per_owner r) owner of None \<Rightarrow> 0 | Some c \<Rightarrow> c) \<ge> MAX_PRODUCERS_PER_KEY then Inl AdmitLimit
          else let st = \<lparr>pr_owner = owner, pr_last_used_ms = now, pr_partitions = []\<rparr>
               in Inr (st, r\<lparr>rg_state := AList.update producer_id st (rg_state r), rg_per_owner := bump owner (rg_per_owner r)\<rparr>))"

definition admit :: "int \<Rightarrow> string \<Rightarrow> string \<Rightarrow> registry \<Rightarrow> (admit_error + producer_state) \<times> registry" where
  "admit now producer_id owner r =
     (if producer_id = [] \<or> length producer_id > 200 then (Inl AdmitInvalid, r)
      else if \<not> list_all name_char producer_id then (Inl AdmitInvalid, r)
      else case producer_slot now producer_id owner r of
             Inl e \<Rightarrow> (Inl e, r)
           | Inr (st, r) \<Rightarrow>
               let (st, r) = (if pr_owner st = [] then (st\<lparr>pr_owner := owner\<rparr>, r\<lparr>rg_per_owner := bump owner (rg_per_owner r)\<rparr>)
                              else (st, r));
                   r = r\<lparr>rg_state := AList.update producer_id st (rg_state r)\<rparr>
               in if pr_owner st \<noteq> owner then (Inl AdmitForbidden, r)
                  else (Inr (touch now st), r\<lparr>rg_state := AList.update producer_id (touch now st) (rg_state r)\<rparr>))"

text \<open>The outcome of the journal write: opening, writing or syncing the file may fail, a failed write
  after any number of bytes.\<close>

datatype journal_io = JournalDone | JournalOpenFails | JournalWriteFails nat | JournalSyncFails

definition journal_lines :: "producer_json \<Rightarrow> string \<Rightarrow> string \<Rightarrow> (string \<times> nat \<times> int \<times> nat) list \<Rightarrow> u8 list" where
  "journal_lines js producer_id owner es =
     concat (map (\<lambda>(t, n, s, f). js_line js \<lparr>je_p = producer_id, je_o = owner, je_t = t, je_n = n, je_s = s, je_f = f\<rparr> @ [NEWLINE]) es)"

definition journal ::
    "producer_json \<Rightarrow> journal_io \<Rightarrow> string \<Rightarrow> string \<Rightarrow> (string \<times> nat \<times> int \<times> nat) list \<Rightarrow> registry \<Rightarrow>
     (producers_error + unit) \<times> registry" where
  "journal js io producer_id owner es r =
     (if es = [] then (Inr (), r)
      else
        let buf = journal_lines js producer_id owner es;
            old = (case rg_journal r of None \<Rightarrow> [] | Some bs \<Rightarrow> bs)
        in case io of
             JournalOpenFails \<Rightarrow> (Inl ProducersIo, r)
           | JournalWriteFails k \<Rightarrow> (Inl ProducersIo, r\<lparr>rg_journal := Some (old @ take k buf)\<rparr>)
           | JournalSyncFails \<Rightarrow> (Inl ProducersIo, r\<lparr>rg_journal := Some (old @ buf)\<rparr>)
           | JournalDone \<Rightarrow> (Inr (), r\<lparr>rg_journal := Some (old @ buf), rg_dirty := True\<rparr>))"

definition persist_partition :: "(string \<times> nat) \<times> part_window \<Rightarrow> persisted_partition" where
  "persist_partition kw =
     (case kw of ((t, p), w) \<Rightarrow>
        \<lparr>pp_topic = t, pp_partition = p, pp_last_seen_sequence = pw_last_seen w, pp_last_offset = pw_last_offset w,
         pp_recent = pw_recent w\<rparr>)"

definition persist_producer :: "string \<times> producer_state \<Rightarrow> persisted_producer" where
  "persist_producer ps =
     (case ps of (pid, st) \<Rightarrow>
        \<lparr>pd_producer_id = pid, pd_owner = pr_owner st, pd_last_used_ms = pr_last_used_ms st,
         pd_partitions = map persist_partition (sort_key fst (pr_partitions st))\<rparr>)"

definition registry_snapshot :: "registry \<Rightarrow> persisted_producer list" where
  "registry_snapshot r = map persist_producer (sort_key fst (rg_state r))"

text \<open>\<open>flush\<close> in its three steps: rotate the journal aside, write the snapshot, remove the rotated
  journal. Between the first two the journal may be written again.\<close>

definition flush_rotate :: "bool \<Rightarrow> registry \<Rightarrow> (producers_error + unit) \<times> registry" where
  "flush_rotate rename_ok r =
     (let r = r\<lparr>rg_dirty := False\<rparr>
      in case rg_journal r of
           None \<Rightarrow> (Inr (), r)
         | Some bs \<Rightarrow> if rename_ok then (Inr (), r\<lparr>rg_journal := None, rg_rotated := Some bs\<rparr>) else (Inl ProducersIo, r))"

definition flush_write :: "producer_json \<Rightarrow> atomic_io \<Rightarrow> bool \<Rightarrow> registry \<Rightarrow> (producers_error + unit) \<times> registry" where
  "flush_write js io remove_ok r =
     (let (ok, f) = replace_file io (js_snapshot js (registry_snapshot r)) (rg_snapshot r);
          r = r\<lparr>rg_snapshot := f\<rparr>
      in if \<not> ok then (Inl ProducersIo, r)
         else (Inr (), if remove_ok then r\<lparr>rg_rotated := None\<rparr> else r))"

definition flush :: "producer_json \<Rightarrow> bool \<Rightarrow> atomic_io \<Rightarrow> bool \<Rightarrow> registry \<Rightarrow> (producers_error + unit) \<times> registry" where
  "flush js rename_ok io remove_ok r =
     (case flush_rotate rename_ok r of
        (Inl e, r) \<Rightarrow> (Inl e, r)
      | (Inr _, r) \<Rightarrow> flush_write js io remove_ok r)"

text \<open>Taking a slot out of the map, in \<open>revoke\<close> and in \<open>expire\<close>.\<close>

definition forget_producer :: "string \<Rightarrow> string \<Rightarrow> bool \<Rightarrow> registry \<Rightarrow> registry" where
  "forget_producer producer_id owner dirty r =
     r\<lparr>rg_state := AList.delete producer_id (rg_state r), rg_per_owner := unbump owner (rg_per_owner r), rg_dirty := dirty\<rparr>"

definition revoke_producer ::
    "producer_json \<Rightarrow> bool \<Rightarrow> atomic_io \<Rightarrow> bool \<Rightarrow> string \<Rightarrow> registry \<Rightarrow> (producers_error + unit) \<times> registry" where
  "revoke_producer js rename_ok io remove_ok producer_id r =
     (case map_of (rg_state r) producer_id of
        None \<Rightarrow> (Inl ProducerNotFound, r)
      | Some st \<Rightarrow>
          flush js rename_ok io remove_ok (forget_producer producer_id (pr_owner st) True r))"

definition expire_one :: "int \<Rightarrow> string \<times> producer_state \<Rightarrow> nat \<times> registry \<Rightarrow> nat \<times> registry" where
  "expire_one cutoff ps nr =
     (case (ps, nr) of ((pid, g), (removed, r)) \<Rightarrow>
        if pr_last_used_ms g < cutoff \<and> map_of (rg_state r) pid \<noteq> None
        then (removed + 1, forget_producer pid (pr_owner g) (rg_dirty r) r)
        else (removed, r))"

definition expire :: "int \<Rightarrow> nat \<Rightarrow> registry \<Rightarrow> nat \<times> registry" where
  "expire now max_idle_ms r =
     (let cutoff = sat_sub_i64 now (i64_of max_idle_ms);
          (removed, r) = fold (expire_one cutoff) (rg_state r) (0, r)
      in (removed, if removed > 0 then r\<lparr>rg_dirty := True\<rparr> else r))"

text \<open>One round of the flusher task: expiry once a minute, then a flush if something changed.\<close>

definition flusher_round ::
    "producer_json \<Rightarrow> int \<Rightarrow> nat \<Rightarrow> bool \<Rightarrow> atomic_io \<Rightarrow> bool \<Rightarrow> nat \<times> registry \<Rightarrow> nat \<times> registry" where
  "flusher_round js now interval_ms rename_ok io remove_ok sr =
     (case sr of (since_expiry, r) \<Rightarrow>
        let since_expiry = since_expiry + interval_ms;
            (since_expiry, r) = (if since_expiry \<ge> 60000 then (0, snd (expire now PRODUCER_EXPIRY r)) else (since_expiry, r))
        in (since_expiry, if rg_dirty r then snd (flush js rename_ok io remove_ok r) else r))"

text \<open>What the administrator sees.\<close>

definition registry_list :: "registry \<Rightarrow> (string \<times> ((string \<times> nat) \<times> int \<times> nat) list) list" where
  "registry_list r =
     sort_key fst (map (\<lambda>(pid, st). (pid, map (\<lambda>(k, w). (k, pw_last_seen w, pw_last_offset w)) (sort_key fst (pr_partitions st)))) (rg_state r))"


section \<open>What a window knows of the history\<close>

text \<open>The history of a partition is the list of sequences written for the producer, each with its
  offset. A window tracks it when its last entry is the last one of the history and everything it
  remembers is there; the sequences of a history are consecutive.\<close>

definition consecutive :: "(int \<times> nat) list \<Rightarrow> bool" where
  "consecutive h \<longleftrightarrow> (\<forall>i. Suc i < length h \<longrightarrow> fst (h ! Suc i) = fst (h ! i) + 1)"

definition tracks_history :: "(int \<times> nat) list \<Rightarrow> part_window \<Rightarrow> bool" where
  "tracks_history h w \<longleftrightarrow> consecutive h \<and> set (pw_recent w) \<subseteq> set h \<and> length (pw_recent w) \<le> WINDOW \<and>
     (h = [] \<longrightarrow> pw_recent w = []) \<and> (h \<noteq> [] \<longrightarrow> pw_recent w \<noteq> [] \<and> last h = (pw_last_seen w, pw_last_offset w))"

text \<open>A window that has been running since the first record remembers exactly the last entries.\<close>

definition remembers :: "(int \<times> nat) list \<Rightarrow> part_window \<Rightarrow> bool" where
  "remembers h w \<longleftrightarrow> tracks_history h w \<and> pw_recent w = drop (length h - WINDOW) h"

lemma consecutive_nth:
  assumes "consecutive h" "i \<le> j" "j < length h"
  shows "fst (h ! j) = fst (h ! i) + int (j - i)"
  using assms(2,3)
proof (induction j rule: dec_induct)
  case (step j)
  then have "fst (h ! Suc j) = fst (h ! j) + 1" using assms(1) by (simp add: consecutive_def)
  then show ?case using step by simp
qed simp

lemma consecutive_inj:
  assumes "consecutive h" "(s, a) \<in> set h" "(s, b) \<in> set h"
  shows "a = b"
proof -
  obtain i j where i: "i < length h" "h ! i = (s, a)" and j: "j < length h" "h ! j = (s, b)"
    using assms(2,3) by (auto simp: in_set_conv_nth)
  show ?thesis
    using consecutive_nth[OF assms(1), of i j] consecutive_nth[OF assms(1), of j i] i j by (cases i j rule: linorder_cases) auto
qed

lemma consecutive_le_last:
  assumes "consecutive h" "(s, a) \<in> set h"
  shows "s \<le> fst (last h)"
proof -
  obtain i where i: "i < length h" "h ! i = (s, a)" using assms(2) by (auto simp: in_set_conv_nth)
  then show ?thesis using consecutive_nth[OF assms(1), of i "length h - 1"] by (cases "h = []") (auto simp: last_conv_nth)
qed

lemma consecutive_snoc:
  assumes "consecutive h" "h = [] \<or> s = fst (last h) + 1"
  shows "consecutive (h @ [(s, a)])"
  unfolding consecutive_def
proof (intro allI impI)
  fix i assume i: "Suc i < length (h @ [(s, a)])"
  show "fst ((h @ [(s, a)]) ! Suc i) = fst ((h @ [(s, a)]) ! i) + 1"
  proof (cases "Suc i < length h")
    case True
    then show ?thesis using assms(1) by (simp add: nth_append consecutive_def)
  next
    case False
    then have "length h = Suc i" "h \<noteq> []" using i by auto
    then show ?thesis using assms(2) by (simp add: nth_append last_conv_nth)
  qed
qed

lemma consecutive_take: "consecutive h \<Longrightarrow> consecutive (take n h)"
  by (auto simp: consecutive_def)

lemma consecutive_next: "consecutive h \<Longrightarrow> j < length h \<Longrightarrow> take j h = [] \<or> fst (h ! j) = fst (last (take j h)) + 1"
  using consecutive_nth[of h "j - 1" j] by (cases j) (auto simp: take_Suc_conv_app_nth)

lemma window_record_fields:
  "pw_recent (window_record s a w) = drop (length (pw_recent w) + 1 - WINDOW) (pw_recent w @ [(s, a)])"
  "pw_last_seen (window_record s a w) = (if pw_recent w = [] \<or> s > pw_last_seen w then s else pw_last_seen w)"
  "pw_last_offset (window_record s a w) = (if pw_recent w = [] \<or> s > pw_last_seen w then a else pw_last_offset w)"
  by (simp_all add: window_record_def Let_def)

lemma WINDOW_pos [simp]: "0 < WINDOW"
  by (simp add: WINDOW_def)

lemma window_record_recent: "pw_recent (window_record s a w) \<noteq> []" "set (pw_recent (window_record s a w)) \<subseteq> insert (s, a) (set (pw_recent w))"
  using set_drop_subset[of "length (pw_recent w) + 1 - WINDOW" "pw_recent w @ [(s, a)]"] by (auto simp: window_record_fields not_le Suc_le_eq)

lemma tracks_history_snoc:
  assumes "tracks_history h w" "h = [] \<or> s = fst (last h) + 1"
  shows "tracks_history (h @ [(s, a)]) (window_record s a w)"
  using assms window_record_recent[of s a w] consecutive_snoc[of h s a]
  by (auto simp: tracks_history_def window_record_fields)

lemma tracks_history_old:
  assumes "tracks_history h w" "(s, a) \<in> set h"
  shows "tracks_history h (window_record s a w)"
  using assms window_record_recent[of s a w] consecutive_le_last[of h s a]
  by (auto simp: tracks_history_def window_record_fields)

lemma remembers_snoc:
  assumes "remembers h w" "h = [] \<or> s = fst (last h) + 1"
  shows "remembers (h @ [(s, a)]) (window_record s a w)"
proof -
  have "pw_recent (window_record s a w) = drop (length h + 1 - WINDOW) (h @ [(s, a)])"
    using assms(1) by (cases "length h \<ge> WINDOW") (auto simp: window_record_fields remembers_def Suc_diff_le)
  then show ?thesis using tracks_history_snoc[OF _ assms(2)] assms(1) by (simp add: remembers_def)
qed

text \<open>Replaying part of the history again, from any position on, brings a window up to the end of it.\<close>

lemma tracks_history_replay:
  assumes "consecutive h" "tracks_history (take n h) w" "k \<le> n"
  shows "tracks_history (take (max n j) h) (fold (\<lambda>(s, a). window_record s a) (drop k (take j h)) w)"
proof (induction j)
  case 0
  then show ?case using assms(2) by simp
next
  case (Suc j)
  let ?w = "fold (\<lambda>(s, a). window_record s a) (drop k (take j h)) w"
  show ?case
  proof (cases "j < length h \<and> k \<le> j")
    case True
    obtain s a where e: "h ! j = (s, a)" by (cases "h ! j")
    have d: "drop k (take (Suc j) h) = drop k (take j h) @ [(s, a)]" using True e by (simp add: take_Suc_conv_app_nth)
    show ?thesis
    proof (cases "j < n")
      case True
      then have m: "max n (Suc j) = n" "max n j = n" by simp_all
      have "(s, a) \<in> set (take n h)" using \<open>j < length h \<and> k \<le> j\<close> True e by (auto simp: in_set_conv_nth intro!: exI[of _ j])
      then show ?thesis using tracks_history_old Suc.IH unfolding d m by simp
    next
      case False
      then have m: "take (max n (Suc j)) h = take j h @ [(s, a)]" "max n j = j"
        using \<open>j < length h \<and> k \<le> j\<close> e by (simp_all add: take_Suc_conv_app_nth max_def)
      show ?thesis
        using tracks_history_snoc[OF Suc.IH[unfolded m(2)], of s a] consecutive_next[OF assms(1), of j] True e
        unfolding d m(1) by simp
    qed
  next
    case False
    then have "drop k (take (Suc j) h) = drop k (take j h)" "take (max n (Suc j)) h = take (max n j) h"
      using assms(3) by (auto simp: max_def le_Suc_eq not_le)
    then show ?thesis using Suc.IH by simp
  qed
qed

lemma tracks_history_check:
  assumes "tracks_history h w" "h \<noteq> []" "fst (last h) < i64_max" "i64_min \<le> fst (last h)"
  shows "window_check w s = Accept \<longleftrightarrow> s = fst (last h) + 1"
    "window_check w s = Duplicate a \<Longrightarrow> (s, a) \<in> set h"
proof -
  have sat: "sat_add_i64 (pw_last_seen w) 1 = pw_last_seen w + 1" "fst (last h) = pw_last_seen w"
    using assms by (auto simp: tracks_history_def sat_add_i64_def clamp_i64_def)
  show "window_check w s = Accept \<longleftrightarrow> s = fst (last h) + 1" unfolding sat(2) by (auto simp: window_check_def sat(1) split: option.split)
  assume "window_check w s = Duplicate a"
  moreover have "(pw_last_seen w, pw_last_offset w) \<in> set h" using assms(1,2) last_in_set[of h] by (auto simp: tracks_history_def)
  ultimately show "(s, a) \<in> set h"
    using assms(1) by (auto simp: window_check_def tracks_history_def dest!: find_in_set split: if_splits option.splits)
qed

lemma remembers_check:
  assumes "remembers h w" "h \<noteq> []" "fst (last h) < i64_max" "i64_min \<le> fst (last h)"
  shows "window_check w s = Duplicate a \<longleftrightarrow> (s, a) \<in> set (drop (length h - WINDOW) h)"
proof
  have r: "pw_recent w = drop (length h - WINDOW) h" and t: "tracks_history h w" and c: "consecutive h"
    using assms(1) by (auto simp: remembers_def tracks_history_def)
  have l: "(pw_last_seen w, pw_last_offset w) \<in> set (drop (length h - WINDOW) h)"
    using assms(2) t r last_in_set[of "drop (length h - WINDOW) h"] by (auto simp: tracks_history_def last_drop)
  { assume "window_check w s = Duplicate a"
    then show "(s, a) \<in> set (drop (length h - WINDOW) h)"
      using r l by (auto simp: window_check_def dest!: find_in_set split: if_splits option.splits) }
  assume m: "(s, a) \<in> set (drop (length h - WINDOW) h)"
  then have "(s, a) \<in> set h" by (rule in_set_dropD)
  then have le: "s \<le> pw_last_seen w" using consecutive_le_last[OF c] t assms(2) by (auto simp: tracks_history_def)
  obtain s' b where f: "find (\<lambda>(x, _). x = s) (pw_recent w) = Some (s', b)" "s' = s" "(s, b) \<in> set (pw_recent w)"
    using m by (cases "find (\<lambda>(x, _). x = s) (pw_recent w)") (auto simp: r find_None_iff dest!: find_in_set)
  have "b = a" using consecutive_inj[OF c, of s b a] f(3) m r by (auto dest: in_set_dropD)
  moreover have "sat_add_i64 (pw_last_seen w) 1 > s"
    using le assms t by (auto simp: tracks_history_def sat_add_i64_def clamp_i64_def)
  ultimately show "window_check w s = Duplicate a" using le f by (simp add: window_check_def)
qed


section \<open>The registry and its files\<close>

type_synonym histories = "string \<Rightarrow> string \<times> nat \<Rightarrow> (int \<times> nat) list"

definition window_of :: "registry \<Rightarrow> string \<Rightarrow> string \<times> nat \<Rightarrow> part_window" where
  "window_of r pid key =
     (case map_of (rg_state r) pid of
        None \<Rightarrow> empty_window
      | Some st \<Rightarrow> (case map_of (pr_partitions st) key of None \<Rightarrow> empty_window | Some w \<Rightarrow> w))"

definition entries_for :: "string \<Rightarrow> string \<times> nat \<Rightarrow> journal_entry list \<Rightarrow> (int \<times> nat) list" where
  "entries_for pid key es = map (\<lambda>e. (je_s e, je_f e)) (filter (\<lambda>e. je_p e = pid \<and> (je_t e, je_n e) = key) es)"

definition keys_ok :: "registry \<Rightarrow> bool" where
  "keys_ok r \<longleftrightarrow> distinct (map fst (rg_state r)) \<and> (\<forall>pid st. map_of (rg_state r) pid = Some st \<longrightarrow> distinct (map fst (pr_partitions st)))"

lemma entries_for_simps [simp]:
  "entries_for pid key [] = []"
  "entries_for pid key (es @ es') = entries_for pid key es @ entries_for pid key es'"
  "entries_for pid key (e # es) =
     (if je_p e = pid \<and> (je_t e, je_n e) = key then [(je_s e, je_f e)] else []) @ entries_for pid key es"
  by (simp_all add: entries_for_def)

lemma window_of_cong: "rg_state r' = rg_state r \<Longrightarrow> window_of r' = window_of r"
  by (simp add: window_of_def fun_eq_iff)

lemma keys_ok_cong: "rg_state r' = rg_state r \<Longrightarrow> keys_ok r' = keys_ok r"
  by (simp add: keys_ok_def)

text \<open>The registry with the state of one producer replaced.\<close>

abbreviation put_producer :: "string \<Rightarrow> producer_state \<Rightarrow> registry \<Rightarrow> registry" where
  "put_producer pid st r \<equiv> r\<lparr>rg_state := AList.update pid st (rg_state r)\<rparr>"

lemma window_of_put:
  "window_of (put_producer pid st r) q key =
     (if q = pid then (case map_of (pr_partitions st) key of None \<Rightarrow> empty_window | Some w \<Rightarrow> w) else window_of r q key)"
  by (simp add: window_of_def update_conv')

lemma keys_ok_put:
  "keys_ok r \<Longrightarrow> distinct (map fst (pr_partitions st)) \<Longrightarrow> keys_ok (put_producer pid st r)"
  by (auto simp: keys_ok_def update_conv' distinct_update)

lemma record_seq_partitions:
  "map_of (pr_partitions (record_seq now t n s a st)) =
     (map_of (pr_partitions st))((t, n) \<mapsto> window_record s a (case map_of (pr_partitions st) (t, n) of Some w \<Rightarrow> w | None \<Rightarrow> empty_window))"
  "distinct (map fst (pr_partitions st)) \<Longrightarrow> distinct (map fst (pr_partitions (record_seq now t n s a st)))"
  by (simp_all add: record_seq_def Let_def update_conv' distinct_update)

lemma replay_entry_ok:
  "window_of (replay_entry now e r) pid key =
     (if je_p e = pid \<and> (je_t e, je_n e) = key then window_record (je_s e) (je_f e) (window_of r pid key) else window_of r pid key)"
  "keys_ok r \<Longrightarrow> keys_ok (replay_entry now e r)"
proof -
  define st where "st = (case map_of (rg_state r) (je_p e) of Some st \<Rightarrow> st
     | None \<Rightarrow> \<lparr>pr_owner = je_o e, pr_last_used_ms = now, pr_partitions = []\<rparr>)"
  have st: "rg_state (replay_entry now e r) = AList.update (je_p e) (record_seq now (je_t e) (je_n e) (je_s e) (je_f e) st) (rg_state r)"
    by (auto simp: replay_entry_def st_def Let_def update_conv' split: option.split)
  have w: "(case map_of (pr_partitions st) k of Some w \<Rightarrow> w | None \<Rightarrow> empty_window) = window_of r (je_p e) k" for k
    by (auto simp: st_def window_of_def split: option.split)
  have eq: "window_of (replay_entry now e r) pid key = window_of (put_producer (je_p e) (record_seq now (je_t e) (je_n e) (je_s e) (je_f e) st) r) pid key"
    using window_of_cong[of "replay_entry now e r" "put_producer (je_p e) (record_seq now (je_t e) (je_n e) (je_s e) (je_f e) st) r"] st by simp
  show "window_of (replay_entry now e r) pid key =
     (if je_p e = pid \<and> (je_t e, je_n e) = key then window_record (je_s e) (je_f e) (window_of r pid key) else window_of r pid key)"
    unfolding eq window_of_put record_seq_partitions w using w[of key] by auto
  assume k: "keys_ok r"
  then have "distinct (map fst (pr_partitions st))" by (auto simp: st_def keys_ok_def split: option.split)
  then have "keys_ok (put_producer (je_p e) (record_seq now (je_t e) (je_n e) (je_s e) (je_f e) st) r)"
    by (intro keys_ok_put[OF k] record_seq_partitions)
  then show "keys_ok (replay_entry now e r)" by (simp add: keys_ok_def st)
qed

lemma replay_entries_ok:
  "window_of (fold (replay_entry now) es r) pid key = fold (\<lambda>(s, a). window_record s a) (entries_for pid key es) (window_of r pid key)"
  "keys_ok r \<Longrightarrow> keys_ok (fold (replay_entry now) es r)"
  by (induction es arbitrary: r) (auto simp: replay_entry_ok)

lemma replay_ok:
  "window_of (replay js now f r) pid key =
     fold (\<lambda>(s, a). window_record s a) (entries_for pid key (journal_entries js f)) (window_of r pid key)"
  "keys_ok r \<Longrightarrow> keys_ok (replay js now f r)"
  by (simp_all add: replay_def Let_def replay_entries_ok window_of_cong[of "r'\<lparr>rg_dirty := True\<rparr>" r' for r']
      keys_ok_cong[of "r'\<lparr>rg_dirty := True\<rparr>" r' for r'])


text \<open>Writing the snapshot and loading it again.\<close>

lemma map_of_sort_key:
  fixes xs :: "('k :: linorder \<times> 'v) list"
  assumes "distinct (map fst xs)"
  shows "map_of (sort_key fst xs) = map_of xs" "distinct (map fst (sort_key fst xs))"
proof -
  show d: "distinct (map fst (sort_key fst xs))"
    using assms by (simp add: distinct_map)
  show "map_of (sort_key fst xs) = map_of xs" using map_of_inject_set[OF d assms] by simp
qed

lemma map_of_fold_update:
  "distinct (map fst xs) \<Longrightarrow> map_of (fold (\<lambda>(k, v). AList.update k v) xs m) = map_of m ++ map_of xs"
proof (induction xs arbitrary: m)
  case (Cons x xs)
  obtain k v where x: "x = (k, v)" by (cases x)
  have "map_of xs k = None" using Cons.prems x by (simp add: map_of_eq_None_iff)
  then have "map_of (AList.update k v m) ++ map_of xs = map_of m ++ map_of ((k, v) # xs)"
    by (intro ext) (auto simp: update_conv' map_add_def split: option.split)
  moreover have "map_of (fold (\<lambda>(k, v). AList.update k v) (x # xs) m) = map_of (AList.update k v m) ++ map_of xs"
    using Cons by (simp add: x)
  ultimately show ?case by (simp only: x)
qed simp

lemma distinct_fold_update: "distinct (map fst m) \<Longrightarrow> distinct (map fst (fold (\<lambda>(k, v). AList.update k v) xs m))"
  by (induction xs arbitrary: m) (auto simp: distinct_update)

lemma persisted_windows:
  assumes "distinct (map fst ws)"
  shows "map_of (fold (\<lambda>q m. case persisted_window q of (k, w) \<Rightarrow> AList.update k w m) (map persist_partition (sort_key fst ws)) []) = map_of ws"
proof -
  have "persisted_window (persist_partition kw) = kw" for kw
    by (cases kw, cases "snd kw") (auto simp: persisted_window_def persist_partition_def)
  then have "fold (\<lambda>q m. case persisted_window q of (k, w) \<Rightarrow> AList.update k w m) (map persist_partition xs) m
      = fold (\<lambda>(k, w). AList.update k w) xs m" for xs and m :: "((string \<times> nat) \<times> part_window) list"
    by (induction xs arbitrary: m) (auto simp: case_prod_beta)
  then show ?thesis using map_of_fold_update[of "sort_key fst ws" "[]"] map_of_sort_key[OF assms] by simp
qed

lemma load_producer_ok:
  "window_of (load_producer now p r) pid key =
     (if pid = pd_producer_id p
      then (case map_of (fold (\<lambda>q m. case persisted_window q of (k, w) \<Rightarrow> AList.update k w m) (pd_partitions p) []) key of
              None \<Rightarrow> empty_window | Some w \<Rightarrow> w)
      else window_of r pid key)"
  "keys_ok r \<Longrightarrow> keys_ok (load_producer now p r)"
proof -
  let ?m = "fold (\<lambda>q m. case persisted_window q of (k, w) \<Rightarrow> AList.update k w m) (pd_partitions p) []"
  define st where "st = \<lparr>pr_owner = pd_owner p, pr_last_used_ms = (if pd_last_used_ms p = 0 then now else pd_last_used_ms p), pr_partitions = ?m\<rparr>"
  have st: "rg_state (load_producer now p r) = rg_state (put_producer (pd_producer_id p) st r)"
    by (simp add: load_producer_def st_def Let_def)
  show "window_of (load_producer now p r) pid key =
     (if pid = pd_producer_id p then (case map_of ?m key of None \<Rightarrow> empty_window | Some w \<Rightarrow> w) else window_of r pid key)"
    using window_of_cong[OF st] by (simp add: window_of_put st_def)
  have "distinct (map fst (fold (\<lambda>q m. case persisted_window q of (k, w) \<Rightarrow> AList.update k w m) qs m))" if "distinct (map fst m)"
    for qs and m :: "((string \<times> nat) \<times> part_window) list"
    using that by (induction qs arbitrary: m) (auto simp: distinct_update split: prod.split)
  from this[of "[]"] have "distinct (map fst (pr_partitions st))" by (simp add: st_def)
  then show "keys_ok r \<Longrightarrow> keys_ok (load_producer now p r)" using keys_ok_cong[OF st] keys_ok_put by simp
qed

lemma load_producers_keys: "keys_ok r \<Longrightarrow> keys_ok (fold (load_producer now) ps r)"
  by (induction ps arbitrary: r) (auto simp: load_producer_ok)

lemma load_snapshot_windows:
  assumes "keys_ok r" "rg_state r0 = []"
  shows "window_of (fold (load_producer now) (registry_snapshot r) r0) pid key = window_of r pid key"
proof -
  have "window_of (fold (load_producer now) (map persist_producer xs) q) pid key =
      (case map_of xs pid of
         None \<Rightarrow> window_of q pid key
       | Some st \<Rightarrow> (case map_of (pr_partitions st) key of None \<Rightarrow> empty_window | Some w \<Rightarrow> w))"
    if "distinct (map fst xs)" "\<forall>pid st. (pid, st) \<in> set xs \<longrightarrow> distinct (map fst (pr_partitions st))" for xs q
    using that
  proof (induction xs arbitrary: q)
    case (Cons x xs)
    obtain i st where x: "x = (i, st)" by (cases x)
    have "window_of (load_producer now (persist_producer x) q) pid key =
        (if pid = i then (case map_of (pr_partitions st) key of None \<Rightarrow> empty_window | Some w \<Rightarrow> w) else window_of q pid key)"
      using Cons.prems(2) by (simp add: load_producer_ok persist_producer_def x persisted_windows)
    moreover have "map_of xs i = None" using Cons.prems(1) x by (simp add: map_of_eq_None_iff)
    moreover have "\<forall>pid st. (pid, st) \<in> set xs \<longrightarrow> distinct (map fst (pr_partitions st))" using Cons.prems(2) by auto
    ultimately show ?case using Cons.IH[of "load_producer now (persist_producer x) q"] Cons.prems(1)
      by (cases "pid = i") (auto simp: x split: option.split)
  qed simp
  from this[of "sort_key fst (rg_state r)" r0] show ?thesis
    using assms map_of_sort_key[of "rg_state r"] unfolding registry_snapshot_def keys_ok_def
    by (auto simp: window_of_def split: option.split)
qed


section \<open>Acknowledged sequences survive restarts\<close>

text \<open>What is relied on of the JSON library: what it prints parses back, a printed line has no newline
  in it and does not end in a carriage return.\<close>

definition producer_json_ok :: "producer_json \<Rightarrow> bool" where
  "producer_json_ok js \<longleftrightarrow>
     (\<forall>ps. js_parse_snapshot js (js_snapshot js ps) = Some ps) \<and>
     (\<forall>e. js_parse_line js (js_line js e) = Some e \<and> NEWLINE \<notin> set (js_line js e) \<and> js_line js e \<noteq> [] \<and> last (js_line js e) \<noteq> 13)"

definition log_text :: "producer_json \<Rightarrow> journal_entry list \<Rightarrow> u8 list" where
  "log_text js es = concat (map (\<lambda>e. js_line js e @ [NEWLINE]) es)"

definition clean :: "producer_json \<Rightarrow> u8 list option \<Rightarrow> journal_entry list \<Rightarrow> bool" where
  "clean js f es \<longleftrightarrow> (case f of None \<Rightarrow> es = [] | Some bs \<Rightarrow> bs = log_text js es)"

lemma file_lines_text:
  assumes "producer_json_ok js"
  shows "file_lines (log_text js es @ rest) = map (js_line js) es @ file_lines rest"
proof (induction es)
  case (Cons e es)
  have "file_lines (js_line js e @ NEWLINE # log_text js es @ rest) = js_line js e # file_lines (log_text js es @ rest)"
    using assms by (intro file_lines_line) (auto simp: producer_json_ok_def)
  then show ?case using Cons by (simp add: log_text_def)
qed (simp add: log_text_def)

lemma parse_lines_printed:
  "producer_json_ok js \<Longrightarrow> parse_lines (js_parse_line js) (map (js_line js) es @ ls) = es @ parse_lines (js_parse_line js) ls"
  by (induction es) (simp_all add: producer_json_ok_def)

lemma clean_entries: "producer_json_ok js \<Longrightarrow> clean js f es \<Longrightarrow> journal_entries js f = es"
  using file_lines_text[of js es "[]"] parse_lines_printed[of js es "[]"]
  by (auto simp: clean_def journal_entries_def split: option.splits)

definition entry_of :: "string \<Rightarrow> string \<Rightarrow> string \<times> nat \<times> int \<times> nat \<Rightarrow> journal_entry" where
  "entry_of pid owner x = (case x of (t, n, s, f) \<Rightarrow> \<lparr>je_p = pid, je_o = owner, je_t = t, je_n = n, je_s = s, je_f = f\<rparr>)"

lemma journal_lines_text: "journal_lines js pid owner es = log_text js (map (entry_of pid owner) es)"
  by (induction es) (auto simp: journal_lines_def log_text_def entry_of_def)

lemma log_text_append: "log_text js (es @ es') = log_text js es @ log_text js es'"
  by (simp add: log_text_def)

lemma clean_append:
  "clean js f es \<Longrightarrow> clean js (Some ((case f of None \<Rightarrow> [] | Some bs \<Rightarrow> bs) @ journal_lines js pid owner xs)) (es @ map (entry_of pid owner) xs)"
  by (auto simp: clean_def journal_lines_text log_text_append log_text_def split: option.splits)

text \<open>The accepted records of one request, in order, as they are added to the state and the history.\<close>

fun accepted :: "int \<Rightarrow> producer_state \<Rightarrow> (string \<times> nat \<times> int \<times> nat) list \<Rightarrow> bool" where
  "accepted now st [] \<longleftrightarrow> True"
| "accepted now st ((t, n, s, f) # es) \<longleftrightarrow>
     check st t n s = Accept \<and> 0 \<le> s \<and> s < i64_max \<and> accepted now (record_seq now t n s f st) es"

definition record_all :: "int \<Rightarrow> (string \<times> nat \<times> int \<times> nat) list \<Rightarrow> producer_state \<Rightarrow> producer_state" where
  "record_all now es st = fold (\<lambda>(t, n, s, f). record_seq now t n s f) es st"

definition add_history :: "string \<Rightarrow> (string \<times> nat \<times> int \<times> nat) list \<Rightarrow> histories \<Rightarrow> histories" where
  "add_history pid es H = (\<lambda>q key. H q key @ entries_for q key (map (entry_of pid []) es))"

text \<open>The set \<open>F\<close> holds the producers the registry no longer answers for.\<close>

definition mem_ok :: "string set \<Rightarrow> histories \<Rightarrow> registry \<Rightarrow> bool" where
  "mem_ok F H r \<longleftrightarrow> keys_ok r \<and> (\<forall>pid key. pid \<notin> F \<longrightarrow> tracks_history (H pid key) (window_of r pid key) \<and>
     (\<forall>(s, f) \<in> set (H pid key). 0 \<le> s \<and> s < i64_max))"

definition loaded :: "int \<Rightarrow> persisted_producer list \<Rightarrow> registry" where
  "loaded now ps = fold (load_producer now) ps
     \<lparr>rg_state = [], rg_per_owner = [], rg_dirty = False, rg_snapshot = None, rg_journal = None, rg_rotated = None\<rparr>"

text \<open>The disk has a snapshot of some point of the history and in its journals at least all that
  follows it.\<close>

definition disk_ok :: "producer_json \<Rightarrow> string set \<Rightarrow> histories \<Rightarrow> registry \<Rightarrow> bool" where
  "disk_ok js F H r \<longleftrightarrow> F = UNIV \<or>
     (\<exists>ps es1 es2. (case rg_snapshot r of None \<Rightarrow> ps = [] | Some bs \<Rightarrow> js_parse_snapshot js bs = Some ps) \<and>
        clean js (rg_rotated r) es1 \<and> clean js (rg_journal r) es2 \<and>
        (\<forall>now pid key. pid \<notin> F \<longrightarrow> (\<exists>n k. k \<le> n \<and> tracks_history (take n (H pid key)) (window_of (loaded now ps) pid key) \<and>
           entries_for pid key (es1 @ es2) = drop k (H pid key))))"

lemma disk_okE:
  assumes "disk_ok js F H r"
  obtains "F = UNIV"
  | ps es1 es2 where "case rg_snapshot r of None \<Rightarrow> ps = [] | Some bs \<Rightarrow> js_parse_snapshot js bs = Some ps"
      "clean js (rg_rotated r) es1" "clean js (rg_journal r) es2"
      "\<And>now pid key. pid \<notin> F \<Longrightarrow> \<exists>n k. k \<le> n \<and> tracks_history (take n (H pid key)) (window_of (loaded now ps) pid key) \<and>
           entries_for pid key (es1 @ es2) = drop k (H pid key)"
  using assms unfolding disk_ok_def by blast

lemma disk_okI:
  assumes "case rg_snapshot r of None \<Rightarrow> ps = [] | Some bs \<Rightarrow> js_parse_snapshot js bs = Some ps"
    and "clean js (rg_rotated r) es1" "clean js (rg_journal r) es2"
    and "\<And>now pid key. pid \<notin> F \<Longrightarrow> \<exists>n k. k \<le> n \<and> tracks_history (take n (H pid key)) (window_of (loaded now ps) pid key) \<and>
           entries_for pid key (es1 @ es2) = drop k (H pid key)"
  shows "disk_ok js F H r"
  unfolding disk_ok_def using assms by blast

lemma fold_load_state:
  "rg_state r = rg_state r' \<Longrightarrow> rg_state (fold (load_producer now) ps r) = rg_state (fold (load_producer now) ps r')"
proof (induction ps arbitrary: r r')
  case (Cons p ps)
  then show ?case by (simp add: load_producer_def Let_def)
qed simp

lemma registry_open_keys: "registry_open js now sn rot jr = Inr r' \<Longrightarrow> keys_ok r'"
  by (auto simp: registry_open_def Let_def split: option.splits intro!: replay_ok(2) load_producers_keys) (simp_all add: keys_ok_def)

lemma reopen_ok:
  assumes "producer_json_ok js" "disk_ok js F H r" "\<And>pid key. pid \<notin> F \<Longrightarrow> consecutive (H pid key)"
    and "\<And>pid key. pid \<notin> F \<Longrightarrow> \<forall>(s, f) \<in> set (H pid key). 0 \<le> s \<and> s < i64_max"
    and open': "registry_open js now (rg_snapshot r) (rg_rotated r) (rg_journal r) = Inr r'"
  shows "mem_ok F H r'"
  using assms(2)
proof (cases rule: disk_okE)
  case 1
  then show ?thesis using registry_open_keys[OF open'] by (simp add: mem_ok_def)
next
  case (2 ps es1 es2)
  define r0 where "r0 = \<lparr>rg_state = [], rg_per_owner = [], rg_dirty = False, rg_snapshot = rg_snapshot r, rg_journal = rg_journal r, rg_rotated = rg_rotated r\<rparr>"
  define r1 where "r1 = fold (load_producer now) ps r0"
  have st: "rg_state r1 = rg_state (loaded now ps)"
    unfolding r1_def loaded_def by (rule fold_load_state) (simp add: r0_def)
  have r': "r' = replay js now (rg_journal r) (replay js now (rg_rotated r) r1)"
    using 2(1) open' by (cases "rg_snapshot r") (simp_all add: registry_open_def r1_def r0_def Let_def)
  have "tracks_history (H pid key) (window_of r' pid key)" if q: "pid \<notin> F" for pid key
  proof -
    obtain n k where nk: "k \<le> n" "tracks_history (take n (H pid key)) (window_of (loaded now ps) pid key)"
      "entries_for pid key (es1 @ es2) = drop k (H pid key)" using 2(4)[OF q, of key now] by blast
    have "window_of r' pid key = fold (\<lambda>(s, a). window_record s a) (entries_for pid key (es1 @ es2)) (window_of (loaded now ps) pid key)"
      using window_of_cong[OF st] clean_entries[OF assms(1) 2(2)] clean_entries[OF assms(1) 2(3)] by (simp add: r' replay_ok)
    moreover have "tracks_history (take (max n (length (H pid key))) (H pid key))
        (fold (\<lambda>(s, a). window_record s a) (drop k (take (length (H pid key)) (H pid key))) (window_of (loaded now ps) pid key))"
      by (intro tracks_history_replay nk) (use assms(3) q in blast)
    ultimately show ?thesis unfolding nk(3) by simp
  qed
  then show ?thesis using registry_open_keys[OF open'] assms(4) unfolding mem_ok_def by blast
qed


text \<open>The steps of a broker as far as producers see them, over the acknowledged histories, the producers
  it no longer answers for, and the registry with its files. A request is admitted; its records are
  written, recorded and journaled, with any outcome, and acknowledged when that succeeds. A slot is
  removed, with which \<open>revoke_producer\<close> begins; idle producers expire; a request that still holds a
  removed slot journals all the same. The flusher rotates the journal, writes the snapshot and removes the rotated
  journal, with failures at every point. The process may stop at any point and start again.

  A producer is no longer answered for once its slot is removed, or once a request of it records
  what its window does not accept, which for the broker's requests is only the sequence
  \<open>i64_max\<close>. No producer is, once a journal write fails, or once a rotation replaces a rotated
  journal that is still there: then entries of any producer may be missing at the next start.\<close>

abbreviation acknowledge :: "producers_error + unit \<Rightarrow> string \<Rightarrow> (string \<times> nat \<times> int \<times> nat) list \<Rightarrow> histories \<Rightarrow> histories" where
  "acknowledge res pid es H \<equiv> (if res = Inr () then add_history pid es H else H)"

inductive broker_step ::
    "producer_json \<Rightarrow> histories \<times> string set \<times> registry \<Rightarrow> histories \<times> string set \<times> registry \<Rightarrow> bool" for js where
  step_admit: "admit now pid owner r = (res, r') \<Longrightarrow> broker_step js (H, F, r) (H, F, r')"
| step_produce: "map_of (rg_state r) pid = Some st \<Longrightarrow>
     journal js io pid owner es (put_producer pid (record_all now es st) r) = (res, r') \<Longrightarrow>
     F' = (if res \<noteq> Inr () then UNIV else if accepted now st es then F else insert pid F) \<Longrightarrow>
     broker_step js (H, F, r) (acknowledge res pid es H, F', r')"
| step_forget: "broker_step js (H, F, r) (H, insert pid F, forget_producer pid owner dirty r)"
| step_expire: "expire now max_idle r = (n, r') \<Longrightarrow>
     broker_step js (H, F, r) (H, F \<union> (fst ` set (rg_state r) - fst ` set (rg_state r')), r')"
| step_detached: "pid \<in> F \<Longrightarrow> journal js io pid owner es r = (res, r') \<Longrightarrow> F' = (if res \<noteq> Inr () then UNIV else F) \<Longrightarrow>
     broker_step js (H, F, r) (acknowledge res pid es H, F', r')"
| step_rotate: "flush_rotate rename_ok r = (res, r') \<Longrightarrow>
     F' = (if rg_rotated r = None \<or> rg_journal r' = rg_journal r then F else UNIV) \<Longrightarrow> broker_step js (H, F, r) (H, F', r')"
| step_write: "flush_write js io remove_ok r = (res, r') \<Longrightarrow> broker_step js (H, F, r) (H, F, r')"
| step_restart: "registry_open js now (rg_snapshot r) (rg_rotated r) (rg_journal r) = Inr r' \<Longrightarrow> broker_step js (H, F, r) (H, F, r')"

inductive_cases broker_stepE: "broker_step js c c'"

definition registry_inv :: "producer_json \<Rightarrow> histories \<times> string set \<times> registry \<Rightarrow> bool" where
  "registry_inv js c \<longleftrightarrow> (case c of (H, F, r) \<Rightarrow> mem_ok F H r \<and> disk_ok js F H r)"

lemma mem_okD:
  assumes "mem_ok F H r"
  shows "keys_ok r" "pid \<notin> F \<Longrightarrow> consecutive (H pid key)" "pid \<notin> F \<Longrightarrow> \<forall>(s, f) \<in> set (H pid key). 0 \<le> s \<and> s < i64_max"
    "pid \<notin> F \<Longrightarrow> tracks_history (H pid key) (window_of r pid key)"
  using assms unfolding mem_ok_def tracks_history_def by blast+

lemma mem_ok_cong: "mem_ok F H r \<Longrightarrow> window_of r' = window_of r \<Longrightarrow> keys_ok r' \<Longrightarrow> mem_ok F H r'"
  by (simp add: mem_ok_def)

lemma mem_ok_fewer:
  "mem_ok F H r \<Longrightarrow> keys_ok r' \<Longrightarrow> F \<subseteq> F' \<Longrightarrow> (\<And>q key. q \<notin> F' \<Longrightarrow> window_of r' q key = window_of r q key \<and> H' q key = H q key) \<Longrightarrow>
   mem_ok F' H' r'"
  unfolding mem_ok_def by (metis subsetD)

lemma disk_ok_cong:
  "disk_ok js F H r \<Longrightarrow> rg_snapshot r' = rg_snapshot r \<Longrightarrow> rg_rotated r' = rg_rotated r \<Longrightarrow> rg_journal r' = rg_journal r \<Longrightarrow> disk_ok js F H r'"
  by (simp only: disk_ok_def)

lemma disk_ok_fewer: "disk_ok js F H r \<Longrightarrow> F \<subseteq> F' \<Longrightarrow> disk_ok js F' H r"
  unfolding disk_ok_def by blast

definition same_windows :: "registry \<Rightarrow> registry \<Rightarrow> bool" where
  "same_windows r r' \<longleftrightarrow> window_of r' = window_of r \<and> keys_ok r' \<and>
     rg_snapshot r' = rg_snapshot r \<and> rg_rotated r' = rg_rotated r \<and> rg_journal r' = rg_journal r"

lemma same_windows_refl: "keys_ok r \<Longrightarrow> same_windows r r"
  by (simp add: same_windows_def)

lemma same_windows_put:
  assumes "keys_ok r" "rg_state r' = AList.update pid st (rg_state r)"
    "pr_partitions st = (case map_of (rg_state r) pid of None \<Rightarrow> [] | Some st \<Rightarrow> pr_partitions st)"
    "rg_snapshot r' = rg_snapshot r" "rg_rotated r' = rg_rotated r" "rg_journal r' = rg_journal r"
  shows "same_windows r r'"
proof -
  have "distinct (map fst (pr_partitions st))" using assms(1,3) by (auto simp: keys_ok_def split: option.splits)
  then have "keys_ok r'" using keys_ok_put[OF assms(1)] keys_ok_cong[of r' "put_producer pid st r"] assms(2) by simp
  moreover have "window_of (put_producer pid st r) q key = window_of r q key" for q key
    unfolding window_of_put using assms(3) by (cases "q = pid") (auto simp: window_of_def split: option.splits)
  then have "window_of r' = window_of r" using window_of_cong[of r' "put_producer pid st r"] assms(2) by (simp add: fun_eq_iff)
  ultimately show ?thesis using assms by (simp add: same_windows_def)
qed

lemma producer_slot_state:
  assumes "producer_slot now pid owner r = Inr (st, r1)"
  shows "pr_partitions st = (case map_of (rg_state r) pid of None \<Rightarrow> [] | Some st \<Rightarrow> pr_partitions st)"
    "AList.update pid x (rg_state r1) = AList.update pid x (rg_state r)"
    "rg_snapshot r1 = rg_snapshot r" "rg_rotated r1 = rg_rotated r" "rg_journal r1 = rg_journal r"
  using assms by (auto simp: producer_slot_def Let_def split: option.splits if_splits)

lemma admit_keeps:
  assumes "admit now pid owner r = (res, r')" "keys_ok r"
  shows "same_windows r r'"
proof (cases "producer_slot now pid owner r")
  case (Inl e)
  then show ?thesis using assms by (auto simp: admit_def same_windows_def split: if_splits)
next
  case (Inr sr)
  obtain st r1 where sr: "sr = (st, r1)" by (cases sr)
  note p = producer_slot_state[OF Inr[unfolded sr]]
  show ?thesis
    using assms unfolding admit_def Inr sr
    by (auto simp: Let_def touch_def p split: if_splits intro: same_windows_refl intro!: same_windows_put[of r _ pid])
qed

lemma record_all_put:
  assumes "keys_ok r" "map_of (rg_state r) pid = Some st"
  shows "keys_ok (put_producer pid (record_all now es st) r)"
proof -
  have "distinct (map fst (pr_partitions st)) \<Longrightarrow> distinct (map fst (pr_partitions (record_all now es st)))"
    unfolding record_all_def by (induction es arbitrary: st) (auto simp: record_seq_partitions)
  then show ?thesis using assms by (intro keys_ok_put) (auto simp: keys_ok_def)
qed

lemma add_history_other: "q \<noteq> pid \<Longrightarrow> add_history pid es H q = H q"
  by (auto simp: add_history_def entries_for_def entry_of_def fun_eq_iff filter_empty_conv)

lemma record_all_ok:
  assumes "accepted now st es" "map_of (rg_state r) pid = Some st" "mem_ok F H r"
  shows "mem_ok F (add_history pid es H) (put_producer pid (record_all now es st) r)"
  using assms
proof (induction es arbitrary: st r H)
  case Nil
  have "window_of (put_producer pid st r) q key = window_of r q key" for q key
    unfolding window_of_put using Nil(2) by (simp add: window_of_def)
  moreover have "keys_ok (put_producer pid st r)" using record_all_put[OF mem_okD(1)[OF Nil(3)] Nil(2), of _ "[]"] by (simp add: record_all_def)
  ultimately show ?case using Nil by (auto simp: record_all_def add_history_def mem_ok_def)
next
  case (Cons x es)
  obtain t n s f where x: "x = (t, n, s, f)" by (cases x)
  let ?st = "record_seq now t n s f st" and ?e = "entry_of pid [] x"
  let ?r = "put_producer pid ?st r" and ?H = "add_history pid [x] H"
  note a = Cons.prems(1)[unfolded x accepted.simps]
  have w: "window_of ?r q key = (if q = pid \<and> key = (t, n) then window_record s f (window_of r q key) else window_of r q key)" for q key
    unfolding window_of_put record_seq_partitions using Cons.prems(2) by (auto simp: window_of_def split: option.split)
  have h: "?H q key = (if q = pid \<and> key = (t, n) then H q key @ [(s, f)] else H q key)" for q key
    by (auto simp: add_history_def entry_of_def x)
  have "H pid (t, n) = [] \<or> s = fst (last (H pid (t, n))) + 1" if F: "pid \<notin> F"
  proof (cases "H pid (t, n) = []")
    case False
    let ?h = "H pid (t, n)"
    note tr = mem_okD(4)[OF Cons.prems(3) F, of "(t, n)"] and l = last_in_set[OF False]
    obtain s0 f0 where lh: "last ?h = (s0, f0)" by (cases "last ?h")
    then have "0 \<le> s0 \<and> s0 < i64_max" using mem_okD(3)[OF Cons.prems(3) F, of "(t, n)"] l by auto
    moreover have "window_check (window_of r pid (t, n)) s = Accept"
      using a tr False Cons.prems(2) by (auto simp: check_def window_of_def tracks_history_def empty_window_def split: option.splits)
    ultimately show ?thesis using tracks_history_check(1)[OF tr False, of s] lh by simp
  qed simp
  then have "tracks_history (?H q key) (window_of ?r q key)" if "q \<notin> F" for q key
    using mem_okD(4)[OF Cons.prems(3) that, of key] tracks_history_snoc[of "H q key" "window_of r q key" s f] that by (auto simp: w h)
  moreover have "\<forall>(s, f) \<in> set (?H q key). 0 \<le> s \<and> s < i64_max" if "q \<notin> F" for q key
    using mem_okD(3)[OF Cons.prems(3) that, of key] a by (auto simp: h)
  moreover have "keys_ok ?r"
    using mem_okD(1)[OF Cons.prems(3)] Cons.prems(2) by (intro keys_ok_put record_seq_partitions) (auto simp: keys_ok_def)
  ultimately have "mem_ok F ?H ?r" unfolding mem_ok_def by blast
  from Cons.IH[OF _ _ this, of ?st] a have "mem_ok F (add_history pid es ?H) (put_producer pid (record_all now es ?st) ?r)"
    by (simp add: update_conv')
  moreover have "add_history pid es ?H = add_history pid (x # es) H" by (auto simp: add_history_def)
  ultimately show ?case by (simp add: record_all_def x)
qed

lemma disk_ok_journal:
  assumes "disk_ok js F H r" "rg_snapshot r1 = rg_snapshot r" "rg_rotated r1 = rg_rotated r" "rg_journal r1 = rg_journal r"
    and "journal js io pid owner es r1 = (Inr (), r')"
  shows "disk_ok js F (add_history pid es H) r'"
  using assms(1)
proof (cases rule: disk_okE)
  case (2 ps es1 es2)
  let ?new = "map (entry_of pid owner) es"
  have r': "rg_snapshot r' = rg_snapshot r" "rg_rotated r' = rg_rotated r" "clean js (rg_journal r') (es2 @ ?new)"
    using assms(2-) 2(3) clean_append[OF 2(3), of pid owner es] by (auto simp: journal_def Let_def split: if_splits journal_io.splits)
  have e: "entries_for q key (map (entry_of pid owner) es) = entries_for q key (map (entry_of pid []) es)" for q key
    by (induction es) (auto simp: entry_of_def)
  have "\<exists>n k. k \<le> n \<and> tracks_history (take n (add_history pid es H q key)) (window_of (loaded now ps) q key) \<and>
      entries_for q key (es1 @ es2 @ ?new) = drop k (add_history pid es H q key)" if q: "q \<notin> F" for now q key
  proof -
    obtain n k where nk: "k \<le> n" "tracks_history (take n (H q key)) (window_of (loaded now ps) q key)"
      "entries_for q key (es1 @ es2) = drop k (H q key)" using 2(4)[OF q, of key now] by blast
    let ?h = "H q key"
    have "take (min n (length ?h)) (add_history pid es H q key) = take n ?h" by (simp add: add_history_def min_def)
    moreover have "drop (min k (length ?h)) (add_history pid es H q key) = drop k ?h @ entries_for q key ?new"
      by (cases "k \<le> length ?h") (simp_all add: add_history_def e min_def)
    ultimately show ?thesis using nk
      by (intro exI[of _ "min n (length ?h)"] exI[of _ "min k (length ?h)"]) (auto simp: min_def)
  qed
  then show ?thesis using 2(1,2) r' by (intro disk_okI[where ps = ps and ?es1.0 = es1 and ?es2.0 = "es2 @ ?new"]) simp_all
qed (simp add: disk_ok_def)

lemma disk_ok_rotate:
  assumes "disk_ok js F H r" "rg_rotated r = None \<or> rg_journal r' = rg_journal r" "flush_rotate rename_ok r = (res, r')"
  shows "disk_ok js F H r'"
  using assms(1)
proof (cases rule: disk_okE)
  case (2 ps es1 es2)
  note d = 2
  have f: "rg_snapshot r' = rg_snapshot r" using assms(3) by (auto simp: flush_rotate_def Let_def split: option.splits if_splits)
  consider "rg_journal r' = rg_journal r" "rg_rotated r' = rg_rotated r"
    | bs where "rg_rotated r = None" "rg_journal r = Some bs" "rg_journal r' = None" "rg_rotated r' = Some bs"
    using assms(2,3) by (auto simp: flush_rotate_def Let_def split: option.splits if_splits)
  then show ?thesis
  proof cases
    case 1
    then show ?thesis using assms(1) f disk_ok_cong by blast
  next
    case (2 bs)
    have "es1 = []" "clean js (rg_rotated r') es2" "clean js (rg_journal r') []" using d(2,3) by (simp_all add: 2 clean_def)
    then show ?thesis using d(1,4) f
      by (intro disk_okI[where ps = ps and ?es1.0 = es2 and ?es2.0 = "[]"]) simp_all
  qed
qed (simp add: disk_ok_def)

lemma disk_ok_write:
  assumes "producer_json_ok js" "disk_ok js F H r" "mem_ok F H r" "flush_write js io remove_ok r = (res, r')"
  shows "disk_ok js F H r'"
  using assms(2)
proof (cases rule: disk_okE)
  case (2 ps es1 es2)
  have f: "rg_journal r' = rg_journal r" "rg_rotated r' = rg_rotated r \<or> rg_rotated r' = None"
    "rg_snapshot r' = rg_snapshot r \<and> rg_rotated r' = rg_rotated r \<or> rg_snapshot r' = Some (js_snapshot js (registry_snapshot r))"
    using assms(4) by (auto simp: flush_write_def replace_file_def Let_def split: if_splits atomic_io.splits)
  from f(3) show ?thesis
  proof
    assume "rg_snapshot r' = rg_snapshot r \<and> rg_rotated r' = rg_rotated r"
    then show ?thesis using assms(2) f(1) disk_ok_cong by blast
  next
    assume sn: "rg_snapshot r' = Some (js_snapshot js (registry_snapshot r))"
    define es1' where "es1' = (if rg_rotated r' = None then [] else es1)"
    have c1: "clean js (rg_rotated r') es1'" using f(2) 2(2) by (auto simp: es1'_def clean_def)
    have win: "window_of (loaded now (registry_snapshot r)) pid key = window_of r pid key" for now pid key
      unfolding loaded_def using mem_okD(1)[OF assms(3)] by (intro load_snapshot_windows) simp_all
    have "\<exists>n k. k \<le> n \<and> tracks_history (take n (H pid key)) (window_of (loaded now (registry_snapshot r)) pid key) \<and>
        entries_for pid key (es1' @ es2) = drop k (H pid key)" if q: "pid \<notin> F" for now pid key
    proof -
      let ?h = "H pid key"
      obtain k where k: "entries_for pid key (es1 @ es2) = drop k ?h" using 2(4)[OF q, of key now] by blast
      define k' where "k' = (if es1' = es1 then k else k + length (entries_for pid key es1))"
      have "entries_for pid key es2 = drop (k + length (entries_for pid key es1)) ?h"
        using arg_cong[OF k, of "drop (length (entries_for pid key es1))"] by (simp add: add.commute)
      then have "entries_for pid key (es1' @ es2) = drop k' ?h" using k by (auto simp: k'_def es1'_def)
      also have "\<dots> = drop (min k' (length ?h)) ?h" by (simp add: min_def)
      finally show ?thesis using mem_okD(4)[OF assms(3) q, of key] unfolding win
        by (intro exI[of _ "length ?h"] exI[of _ "min k' (length ?h)"]) simp
    qed
    then show ?thesis using assms(1) c1 2(3) f(1) sn
      by (intro disk_okI[where ps = "registry_snapshot r" and ?es1.0 = es1' and ?es2.0 = es2]) (simp_all add: producer_json_ok_def)
  qed
qed (simp add: disk_ok_def)

lemma registry_open_files:
  assumes "registry_open js now sn rot jr = Inr r'"
  shows "rg_snapshot r' = sn" "rg_rotated r' = rot" "rg_journal r' = jr"
proof -
  define files where "files r = (rg_snapshot r, rg_rotated r, rg_journal r)" for r :: registry
  have l: "files (fold (load_producer now) ps r) = files r" for ps r
    by (induction ps arbitrary: r) (simp_all add: files_def load_producer_def Let_def)
  have "files (fold (replay_entry now) es r) = files r" for es r
    by (induction es arbitrary: r) (simp_all add: files_def replay_entry_def Let_def split: option.split)
  then have "files (replay js now f r) = files r" for f r
    by (auto simp: replay_def Let_def files_def)
  then have "files r' = (sn, rot, jr)" using assms l by (auto simp: registry_open_def Let_def files_def split: option.splits)
  then show "rg_snapshot r' = sn" "rg_rotated r' = rot" "rg_journal r' = jr" by (simp_all add: files_def)
qed

lemma mem_ok_state: "mem_ok F H r \<Longrightarrow> rg_state r' = rg_state r \<Longrightarrow> mem_ok F H r'"
  using window_of_cong[of r' r] keys_ok_cong[of r' r] by (simp add: mem_ok_def)

lemma mem_ok_unvouched: "keys_ok r \<Longrightarrow> mem_ok UNIV H r" "disk_ok js UNIV H r"
  by (simp_all add: mem_ok_def disk_ok_def)

lemma journal_keeps: "journal js io pid owner es r = (res, r') \<Longrightarrow> rg_state r' = rg_state r"
  by (auto simp: journal_def Let_def split: if_splits journal_io.splits)

lemma flush_keeps:
  "flush_rotate rename_ok r = (res, r') \<Longrightarrow> rg_state r' = rg_state r"
  "flush_write js io remove_ok r = (res, r') \<Longrightarrow> rg_state r' = rg_state r"
  by (auto simp: flush_rotate_def flush_write_def Let_def split: option.splits if_splits prod.splits)

lemma forget_keeps:
  "keys_ok r \<Longrightarrow> keys_ok (forget_producer pid owner dirty r)"
  "q \<noteq> pid \<Longrightarrow> window_of (forget_producer pid owner dirty r) q = window_of r q"
  by (auto simp: keys_ok_def forget_producer_def window_of_def delete_conv' distinct_delete fun_eq_iff split: if_splits)

lemma forget_state:
  "rg_state (forget_producer pid owner dirty r) = AList.delete pid (rg_state r)"
  "set (AList.delete pid xs) \<subseteq> set xs"
  "rg_snapshot (forget_producer pid owner dirty r) = rg_snapshot r" "rg_rotated (forget_producer pid owner dirty r) = rg_rotated r"
  "rg_journal (forget_producer pid owner dirty r) = rg_journal r"
  by (auto simp: forget_producer_def AList.delete_eq)

lemma expire_one_keeps:
  assumes "expire_one cutoff ps (n, r) = (n', r')"
  shows "keys_ok r \<Longrightarrow> keys_ok r'" "rg_snapshot r' = rg_snapshot r \<and> rg_rotated r' = rg_rotated r \<and> rg_journal r' = rg_journal r"
    "set (rg_state r') \<subseteq> set (rg_state r)" "map_of (rg_state r') q = map_of (rg_state r) q \<or> map_of (rg_state r') q = None"
  using assms
  by (auto simp: expire_one_def delete_conv' forget_state forget_keeps split: prod.splits if_splits dest: forget_state(2)[THEN subsetD])

lemma expire_keeps:
  assumes "expire now max_idle r = (n, r')"
  shows "keys_ok r \<Longrightarrow> keys_ok r'" "rg_snapshot r' = rg_snapshot r \<and> rg_rotated r' = rg_rotated r \<and> rg_journal r' = rg_journal r"
    "set (rg_state r') \<subseteq> set (rg_state r)" "map_of (rg_state r') q = map_of (rg_state r) q \<or> map_of (rg_state r') q = None"
proof -
  have f: "(keys_ok r \<longrightarrow> keys_ok r1) \<and> rg_snapshot r1 = rg_snapshot r \<and> rg_rotated r1 = rg_rotated r \<and> rg_journal r1 = rg_journal r \<and>
      set (rg_state r1) \<subseteq> set (rg_state r) \<and> (map_of (rg_state r1) q = map_of (rg_state r) q \<or> map_of (rg_state r1) q = None)"
    if "fold (expire_one cutoff) xs (k, r) = (k1, r1)" for cutoff xs k k1 r1
    using that
  proof (induction xs arbitrary: k r)
    case (Cons x xs)
    obtain k2 r2 where x: "expire_one cutoff x (k, r) = (k2, r2)" by (cases "expire_one cutoff x (k, r)")
    show ?case using expire_one_keeps(1-3)[OF x] expire_one_keeps(4)[OF x, of q] Cons.IH[of k2 r2] Cons.prems by (auto simp: x)
  qed simp
  obtain k r1 where e: "fold (expire_one (sat_sub_i64 now (i64_of max_idle))) (rg_state r) (0, r) = (k, r1)"
    by (cases "fold (expire_one (sat_sub_i64 now (i64_of max_idle))) (rg_state r) (0, r)")
  have r': "r' = (if k > 0 then r1\<lparr>rg_dirty := True\<rparr> else r1)" using assms by (auto simp: expire_def e)
  then have st: "rg_state r' = rg_state r1" "rg_snapshot r' = rg_snapshot r1" "rg_rotated r' = rg_rotated r1" "rg_journal r' = rg_journal r1" by simp_all
  show "keys_ok r \<Longrightarrow> keys_ok r'" "rg_snapshot r' = rg_snapshot r \<and> rg_rotated r' = rg_rotated r \<and> rg_journal r' = rg_journal r"
    "set (rg_state r') \<subseteq> set (rg_state r)" "map_of (rg_state r') q = map_of (rg_state r) q \<or> map_of (rg_state r') q = None"
    using f[OF e] keys_ok_cong[OF st(1)] st by simp_all
qed

lemma inv_expire:
  assumes "mem_ok F H r" "disk_ok js F H r" "expire now max_idle r = (n, r')"
    and F': "F' = F \<union> (fst ` set (rg_state r) - fst ` set (rg_state r'))"
  shows "mem_ok F' H r' \<and> disk_ok js F' H r'"
proof -
  note e = expire_keeps[OF assms(3)]
  have "window_of r' q key = window_of r q key" if "q \<notin> F'" for q key
  proof -
    have "map_of (rg_state r') q = None \<Longrightarrow> map_of (rg_state r) q = None" using that F' by (auto simp: map_of_eq_None_iff)
    then show ?thesis using e(4)[of q] by (auto simp: window_of_def)
  qed
  then have "mem_ok F' H r'" using e(1) mem_okD(1)[OF assms(1)] F' by (intro mem_ok_fewer[OF assms(1)]) auto
  moreover have "disk_ok js F H r'" using disk_ok_cong[OF assms(2)] e(2) by blast
  ultimately show ?thesis using disk_ok_fewer[of js F H r' F'] F' by blast
qed

lemma inv_produce:
  assumes "mem_ok F H r" "disk_ok js F H r" "map_of (rg_state r) pid = Some st"
    and "journal js io pid owner es (put_producer pid (record_all now es st) r) = (res, r')"
    and "F' = (if res \<noteq> Inr () then UNIV else if accepted now st es then F else insert pid F)"
  shows "mem_ok F' (acknowledge res pid es H) r' \<and> disk_ok js F' (acknowledge res pid es H) r'"
proof -
  have st: "rg_state r' = rg_state (put_producer pid (record_all now es st) r)" by (rule journal_keeps[OF assms(4)])
  have k: "keys_ok r'" using record_all_put[OF mem_okD(1)[OF assms(1)] assms(3)] keys_ok_cong[OF st] by simp
  show ?thesis
  proof (cases "res = Inr ()")
    case True
    have d: "disk_ok js F (add_history pid es H) r'" using disk_ok_journal[OF assms(2) _ _ _ assms(4)[unfolded True]] by simp
    show ?thesis
    proof (cases "accepted now st es")
      case acc: True
      have "mem_ok F (add_history pid es H) r'" by (rule mem_ok_state[OF record_all_ok[OF acc assms(3,1)] st])
      then show ?thesis using d True acc assms(5) by simp
    next
      case False
      have "window_of r' q key = window_of r q key" if "q \<noteq> pid" for q key
        using window_of_cong[OF st] that by (simp add: window_of_put)
      then have "mem_ok (insert pid F) (add_history pid es H) r'"
        using mem_ok_fewer[OF assms(1) k, of "insert pid F" "add_history pid es H"] add_history_other by (metis insert_iff subset_insertI)
      then show ?thesis using disk_ok_fewer[OF d, of "insert pid F"] True False assms(5) by auto
    qed
  qed (use k assms(5) mem_ok_unvouched in simp)
qed

lemma inv_detached:
  assumes "mem_ok F H r" "disk_ok js F H r" "pid \<in> F" "journal js io pid owner es r = (res, r')" "F' = (if res \<noteq> Inr () then UNIV else F)"
  shows "mem_ok F' (acknowledge res pid es H) r' \<and> disk_ok js F' (acknowledge res pid es H) r'"
proof -
  have st: "rg_state r' = rg_state r" by (rule journal_keeps[OF assms(4)])
  have k: "keys_ok r'" using mem_okD(1)[OF assms(1)] keys_ok_cong[OF st] by simp
  show ?thesis
  proof (cases "res = Inr ()")
    case True
    have "mem_ok F (add_history pid es H) r'"
      using mem_ok_fewer[OF assms(1) k order_refl] window_of_cong[OF st] add_history_other assms(3) by metis
    moreover have "disk_ok js F (add_history pid es H) r'" using disk_ok_journal[OF assms(2) refl refl refl assms(4)[unfolded True]] .
    ultimately show ?thesis using True assms(5) by simp
  qed (use k assms(5) mem_ok_unvouched in simp)
qed

lemma registry_inv_step:
  assumes "producer_json_ok js" "registry_inv js c" "broker_step js c c'"
  shows "registry_inv js c'"
proof -
  obtain H F r where c: "c = (H, F, r)" by (cases c)
  have m: "mem_ok F H r" "disk_ok js F H r" using assms(2) by (simp_all add: registry_inv_def c)
  from assms(3)[unfolded c] show ?thesis
  proof cases
    case (step_admit now pid owner res r')
    have "same_windows r r'" using admit_keeps[OF step_admit(2) mem_okD(1)[OF m(1)]] .
    then have "mem_ok F H r'" "disk_ok js F H r'"
      using mem_ok_cong[OF m(1), of r'] disk_ok_cong[OF m(2), of r'] by (simp_all add: same_windows_def)
    then show ?thesis using step_admit(1) by (simp add: registry_inv_def)
  next
    case (step_produce pid st io owner es now res r' F')
    then show ?thesis using inv_produce[OF m step_produce(2-4)] by (simp add: registry_inv_def)
  next
    case (step_forget pid owner dirty)
    have "mem_ok (insert pid F) H (forget_producer pid owner dirty r)"
      using mem_okD(1)[OF m(1)] forget_keeps by (intro mem_ok_fewer[OF m(1)]) auto
    moreover have "disk_ok js F H (forget_producer pid owner dirty r)" by (rule disk_ok_cong[OF m(2)]) (simp_all add: forget_producer_def)
    ultimately show ?thesis using step_forget disk_ok_fewer[of js F H _ "insert pid F"] by (auto simp: registry_inv_def)
  next
    case (step_expire now max_idle n r')
    then show ?thesis using inv_expire[OF m step_expire(2) refl] by (simp add: registry_inv_def)
  next
    case (step_detached pid io owner es res r' F')
    then show ?thesis using inv_detached[OF m step_detached(2-4)] by (simp add: registry_inv_def)
  next
    case (step_rotate rename_ok res r' F')
    have mem: "mem_ok F H r'" by (rule mem_ok_state[OF m(1) flush_keeps(1)[OF step_rotate(2)]])
    then show ?thesis using step_rotate(1,3) disk_ok_rotate[OF m(2) _ step_rotate(2)] mem_ok_unvouched mem_okD(1)[OF mem]
      by (auto simp: registry_inv_def)
  next
    case (step_write io remove_ok res r')
    then show ?thesis using disk_ok_write[OF assms(1) m(2,1) step_write(2)] mem_ok_state[OF m(1) flush_keeps(2)[OF step_write(2)]]
      by (simp add: registry_inv_def)
  next
    case (step_restart now r')
    have "mem_ok F H r'" using reopen_ok[OF assms(1) m(2) _ _ step_restart(2)] mem_okD(2,3)[OF m(1)] by blast
    moreover have "disk_ok js F H r'" using disk_ok_cong[OF m(2)] registry_open_files[OF step_restart(2)] by blast
    ultimately show ?thesis using step_restart(1) by (simp add: registry_inv_def)
  qed
qed

lemma registry_inv_run:
  assumes "producer_json_ok js" "(broker_step js)\<^sup>*\<^sup>* c c'" "registry_inv js c"
  shows "registry_inv js c'"
  using assms(2) by induction (use assms(1,3) registry_inv_step in blast)+

lemma registry_inv_new: "registry_open js now None None None = Inr r \<Longrightarrow> registry_inv js (\<lambda>_ _. [], {}, r)"
  by (auto simp: registry_open_def replay_def journal_entries_def registry_inv_def mem_ok_def disk_ok_def keys_ok_def
      window_of_def tracks_history_def consecutive_def empty_window_def loaded_def clean_def)
    (use order_refl in blast)

text \<open>A flush and a revocation are runs of these steps.\<close>

lemma flush_run: "\<exists>F'. (broker_step js)\<^sup>*\<^sup>* (H, F, r) (H, F', snd (flush js rename_ok io remove_ok r))"
proof -
  obtain res r1 where o': "flush_rotate rename_ok r = (res, r1)" by (cases "flush_rotate rename_ok r")
  obtain F' where s: "broker_step js (H, F, r) (H, F', r1)" using step_rotate[OF o' refl] by blast
  show ?thesis
  proof (cases res)
    case (Inl e)
    then show ?thesis using s by (auto simp: flush_def o' intro!: exI[of _ F'])
  next
    case (Inr u)
    have "broker_step js (H, F', r1) (H, F', snd (flush_write js io remove_ok r1))" by (rule step_write) (rule prod.collapse[symmetric])
    with s show ?thesis by (auto simp: flush_def o' Inr intro!: exI[of _ F'])
  qed
qed

lemma revoke_producer_run:
  "\<exists>F'. (broker_step js)\<^sup>*\<^sup>* (H, F, r) (H, F', snd (revoke_producer js rename_ok io remove_ok pid r))"
proof (cases "map_of (rg_state r) pid")
  case (Some st)
  obtain F' where "(broker_step js)\<^sup>*\<^sup>* (H, insert pid F, forget_producer pid (pr_owner st) True r)
      (H, F', snd (flush js rename_ok io remove_ok (forget_producer pid (pr_owner st) True r)))" using flush_run by blast
  with step_forget have "(broker_step js)\<^sup>*\<^sup>* (H, F, r) (H, F', snd (flush js rename_ok io remove_ok (forget_producer pid (pr_owner st) True r)))"
    by (rule converse_rtranclp_into_rtranclp)
  then show ?thesis using Some by (auto simp: revoke_producer_def)
qed (auto simp: revoke_producer_def)

lemma mem_ok_check:
  assumes "mem_ok F H r" "pid \<notin> F" "(s, a) \<in> set (H pid (t, n))"
  shows "\<exists>st. map_of (rg_state r) pid = Some st \<and> check st t n s \<noteq> Accept \<and> (\<forall>b. check st t n s = Duplicate b \<longrightarrow> b = a)"
proof -
  let ?h = "H pid (t, n)"
  have ne: "?h \<noteq> []" using assms(3) by auto
  note tr = mem_okD(4)[OF assms(1,2), of "(t, n)"] and c = mem_okD(2)[OF assms(1,2), of "(t, n)"]
  obtain st w where st: "map_of (rg_state r) pid = Some st" "map_of (pr_partitions st) (t, n) = Some w" "w = window_of r pid (t, n)"
    using tr ne by (auto simp: window_of_def tracks_history_def empty_window_def split: option.splits)
  have l: "0 \<le> fst (last ?h) \<and> fst (last ?h) < i64_max"
    using mem_okD(3)[OF assms(1,2), of "(t, n)"] last_in_set[OF ne] by (cases "last ?h") auto
  have eq: "check st t n s = window_check (window_of r pid (t, n)) s" using st by (simp add: check_def)
  have "window_check (window_of r pid (t, n)) s \<noteq> Accept"
    using tracks_history_check(1)[OF tr ne, of s] l consecutive_le_last[OF c assms(3)] by simp
  moreover have "b = a" if "window_check (window_of r pid (t, n)) s = Duplicate b" for b
    using tracks_history_check(2)[OF tr ne, of s b] that l consecutive_inj[OF c _ assms(3), of b] by simp
  ultimately show ?thesis using st(1) eq by auto
qed

lemma consecutive_distinct: "consecutive h \<Longrightarrow> distinct (map fst h)"
proof (rule distinct_conv_nth[THEN iffD2], intro allI impI)
  fix i j assume c: "consecutive h" and ij: "i < length (map fst h)" "j < length (map fst h)" "i \<noteq> j"
  then show "map fst h ! i \<noteq> map fst h ! j"
    using consecutive_nth[OF c, of i j] consecutive_nth[OF c, of j i] by (cases i j rule: linorder_cases) auto
qed


text \<open>A window that is there is not empty, in memory and in the snapshot.\<close>

definition full_state :: "producer_state \<Rightarrow> bool" where
  "full_state st \<longleftrightarrow> (\<forall>(k, w) \<in> set (pr_partitions st). pw_recent w \<noteq> [])"

definition full_registry :: "registry \<Rightarrow> bool" where
  "full_registry r \<longleftrightarrow> (\<forall>(pid, st) \<in> set (rg_state r). full_state st)"

definition full_snapshot :: "persisted_producer list \<Rightarrow> bool" where
  "full_snapshot ps \<longleftrightarrow> (\<forall>p \<in> set ps. \<forall>q \<in> set (pd_partitions p). pp_recent q \<noteq> [])"

definition full_inv :: "producer_json \<Rightarrow> registry \<Rightarrow> bool" where
  "full_inv js r \<longleftrightarrow> full_registry r \<and> (\<forall>bs ps. rg_snapshot r = Some bs \<longrightarrow> js_parse_snapshot js bs = Some ps \<longrightarrow> full_snapshot ps)"

lemma in_update: "x \<in> set (AList.update k v al) \<Longrightarrow> x = (k, v) \<or> x \<in> set al"
  by (induction al) (auto split: if_splits)

lemma full_put: "full_registry r \<Longrightarrow> full_state st \<Longrightarrow> full_registry (put_producer pid st r)"
  by (auto simp: full_registry_def dest!: in_update)

lemma full_record_seq: "full_state st \<Longrightarrow> full_state (record_seq now t n s a st)"
  by (auto simp: full_state_def record_seq_def Let_def window_record_recent dest!: in_update)

lemma full_record_all: "full_state st \<Longrightarrow> full_state (record_all now es st)"
  unfolding record_all_def by (induction es arbitrary: st) (auto simp: full_record_seq)

lemma full_lookup: "full_registry r \<Longrightarrow> map_of (rg_state r) pid = Some st \<Longrightarrow> full_state st"
  by (auto simp: full_registry_def dest!: map_of_SomeD)

lemma full_replay_entry: "full_registry r \<Longrightarrow> full_registry (replay_entry now e r)"
proof -
  assume f: "full_registry r"
  define st where "st = (case map_of (rg_state r) (je_p e) of Some st \<Rightarrow> st
     | None \<Rightarrow> \<lparr>pr_owner = je_o e, pr_last_used_ms = now, pr_partitions = []\<rparr>)"
  have "full_state st" using full_lookup[OF f] by (auto simp: st_def full_state_def split: option.split)
  moreover have "rg_state (replay_entry now e r) = rg_state (put_producer (je_p e) (record_seq now (je_t e) (je_n e) (je_s e) (je_f e) st) r)"
    by (auto simp: replay_entry_def st_def Let_def update_conv' split: option.split)
  ultimately show ?thesis using full_put[OF f full_record_seq] by (simp add: full_registry_def)
qed

lemma full_replay: "full_registry r \<Longrightarrow> full_registry (replay js now f r)"
proof -
  have "full_registry r \<Longrightarrow> full_registry (fold (replay_entry now) es r)" for es
    by (induction es arbitrary: r) (auto simp: full_replay_entry)
  then show "full_registry r \<Longrightarrow> full_registry (replay js now f r)" by (simp add: replay_def full_registry_def Let_def)
qed

lemma full_load:
  assumes "full_registry r" "full_snapshot ps"
  shows "full_registry (fold (load_producer now) ps r)"
  using assms
proof (induction ps arbitrary: r)
  case (Cons p ps)
  have "\<forall>(k, w) \<in> set (fold (\<lambda>q m. case persisted_window q of (k, w) \<Rightarrow> AList.update k w m) qs m). pw_recent w \<noteq> []"
    if "\<forall>(k, w) \<in> set m. pw_recent w \<noteq> []" "\<forall>q \<in> set qs. pp_recent q \<noteq> []" for qs and m :: "((string \<times> nat) \<times> part_window) list"
    using that
  proof (induction qs arbitrary: m)
    case (Cons q qs)
    have "\<forall>(k, w) \<in> set (case persisted_window q of (k, w) \<Rightarrow> AList.update k w m). pw_recent w \<noteq> []"
      using Cons.prems by (auto simp: persisted_window_def dest!: in_update)
    from Cons.IH[OF this] Cons.prems(2) show ?case by simp
  qed simp
  from this[of "[]" "pd_partitions p"] have "full_registry (load_producer now p r)"
    using Cons.prems by (auto simp: load_producer_def Let_def full_registry_def full_state_def full_snapshot_def dest!: in_update)
  then show ?case using Cons by (simp add: full_snapshot_def)
qed simp

lemma full_admit:
  assumes "admit now pid owner r = (res, r')" "full_registry r"
  shows "full_registry r' \<and> rg_snapshot r' = rg_snapshot r"
proof (cases "producer_slot now pid owner r")
  case (Inl e)
  then show ?thesis using assms by (auto simp: admit_def split: if_splits)
next
  case (Inr sr)
  obtain st r1 where sr: "sr = (st, r1)" by (cases sr)
  note p = producer_slot_state[OF Inr[unfolded sr]]
  have "full_state st" using full_lookup[OF assms(2), of pid] p(1) by (cases "map_of (rg_state r) pid") (auto simp: full_state_def)
  then have f: "full_state (st\<lparr>pr_owner := o', pr_last_used_ms := u\<rparr>)" "full_state (st\<lparr>pr_last_used_ms := u\<rparr>)" "full_state st" for o' u
    by (simp_all add: full_state_def)
  show ?thesis
    using assms unfolding admit_def Inr sr full_registry_def
    by (auto simp: Let_def touch_def p(2-) f split: if_splits dest!: in_update)
qed

lemma full_snapshot_of: "full_registry r \<Longrightarrow> full_snapshot (registry_snapshot r)"
  by (fastforce simp: full_registry_def full_state_def full_snapshot_def registry_snapshot_def persist_producer_def persist_partition_def)

lemma full_subset: "full_registry r \<Longrightarrow> set (rg_state r') \<subseteq> set (rg_state r) \<Longrightarrow> full_registry r'"
  by (auto simp: full_registry_def)

lemma journal_keeps_snapshot: "journal js io pid owner es r = (res, r') \<Longrightarrow> rg_snapshot r' = rg_snapshot r"
  by (auto simp: journal_def Let_def split: if_splits journal_io.splits)

lemma full_inv_step:
  assumes "producer_json_ok js" "full_inv js (snd (snd c))" "broker_step js c c'"
  shows "full_inv js (snd (snd c'))"
  using assms(3)
proof cases
  case (step_admit now pid owner r res r' H F)
  then show ?thesis using full_admit[OF step_admit(3)] assms(2) by (simp add: full_inv_def)
next
  case (step_produce r pid st io owner es now res r' F' F H)
  have "full_registry (put_producer pid (record_all now es st) r)"
    using assms(2) step_produce by (intro full_put full_record_all) (auto simp: full_inv_def intro: full_lookup)
  then have "full_registry r'" using journal_keeps[OF step_produce(4)] by (simp add: full_registry_def)
  then show ?thesis using assms(2) step_produce(1,2) journal_keeps_snapshot[OF step_produce(4)] by (simp add: full_inv_def)
next
  case (step_forget H F r pid owner dirty)
  have "full_registry r" using assms(2) step_forget(1) by (simp add: full_inv_def)
  then have "full_registry (forget_producer pid owner dirty r)" by (rule full_subset) (auto simp: forget_producer_def AList.delete_eq)
  then show ?thesis using assms(2) step_forget by (simp add: full_inv_def forget_producer_def)
next
  case (step_expire now max_idle r n r' H F)
  have "full_registry r" using assms(2) step_expire(1) by (simp add: full_inv_def)
  from full_subset[OF this expire_keeps(3)[OF step_expire(3)]] show ?thesis
    using assms(2) step_expire(1,2) expire_keeps(2)[OF step_expire(3)] by (simp add: full_inv_def)
next
  case (step_detached pid F io owner es r res r' F' H)
  then show ?thesis using assms(2) journal_keeps[OF step_detached(4)] journal_keeps_snapshot[OF step_detached(4)]
    by (simp add: full_inv_def full_registry_def)
next
  case (step_rotate rename_ok r res r' F' F H)
  then show ?thesis using assms(2) by (auto simp: flush_rotate_def Let_def full_inv_def full_registry_def split: option.splits if_splits)
next
  case (step_write io remove_ok r res r' H F)
  have "js_parse_snapshot js (js_snapshot js (registry_snapshot r)) = Some (registry_snapshot r)" using assms(1) by (simp add: producer_json_ok_def)
  then show ?thesis using assms(2) step_write full_snapshot_of[of r]
    by (cases io) (auto simp: flush_write_def replace_file_def Let_def full_inv_def full_registry_def split: if_splits)
next
  case (step_restart now r r' H F)
  have "full_registry \<lparr>rg_state = [], rg_per_owner = [], rg_dirty = False, rg_snapshot = rg_snapshot r, rg_journal = rg_journal r, rg_rotated = rg_rotated r\<rparr>"
    by (simp add: full_registry_def)
  then have "full_registry r'"
    using assms(2) step_restart by (auto simp: registry_open_def Let_def full_inv_def full_replay full_load split: option.splits)
  then show ?thesis using assms(2) step_restart registry_open_files[OF step_restart(3)] by (simp add: full_inv_def)
qed

lemma full_inv_run:
  assumes "producer_json_ok js" "(broker_step js)\<^sup>*\<^sup>* c c'" "full_inv js (snd (snd c))"
  shows "full_inv js (snd (snd c'))"
  using assms(2) by induction (use assms(1,3) full_inv_step in blast)+

lemma full_inv_new: "registry_open js now None None None = Inr r \<Longrightarrow> full_inv js r"
  by (auto simp: registry_open_def replay_def journal_entries_def full_inv_def full_registry_def)

lemma mem_ok_duplicate:
  assumes "mem_ok F H r" "pid \<notin> F" "full_registry r" "map_of (rg_state r) pid = Some st" "check st t n s = Duplicate a"
  shows "(s, a) \<in> set (H pid (t, n))"
proof -
  obtain w where w: "map_of (pr_partitions st) (t, n) = Some w" "window_check w s = Duplicate a"
    using assms(5) by (auto simp: check_def split: option.splits if_splits)
  have "pw_recent w \<noteq> []" using full_lookup[OF assms(3,4)] w(1) by (auto simp: full_state_def dest!: map_of_SomeD)
  moreover have tr: "tracks_history (H pid (t, n)) w" using mem_okD(4)[OF assms(1,2), of "(t, n)"] assms(4) w(1) by (simp add: window_of_def)
  ultimately have ne: "H pid (t, n) \<noteq> []" by (auto simp: tracks_history_def)
  have "0 \<le> fst (last (H pid (t, n))) \<and> fst (last (H pid (t, n))) < i64_max"
    using mem_okD(3)[OF assms(1,2), of "(t, n)"] last_in_set[OF ne] by (cases "last (H pid (t, n))") auto
  then show ?thesis using tracks_history_check(2)[OF tr ne _ _ w(2)] by simp
qed


section \<open>Properties\<close>

text \<open>C32: acknowledged at most once, across restarts. Whatever requests are admitted and acknowledged,
  however the flusher and its failures fall in between, and wherever the process stops and starts
  again: each acknowledged sequence was accepted once per producer and partition, it is never
  accepted again, and a retry that is recognised is answered with the offset of the first write.
  This is for producers outside \<open>F\<close>: those never revoked or expired and that did not use the
  sequence \<open>i64_max\<close>, and as long as no journal write has failed and no rotation has replaced a
  rotated journal that was still there.\<close>

theorem producers_acknowledge_once:
  assumes "producer_json_ok js" "registry_open js now None None None = Inr r0"
    and "(broker_step js)\<^sup>*\<^sup>* (\<lambda>_ _. [], {}, r0) (H, F, r)" "pid \<notin> F"
  shows "distinct (map fst (H pid (t, n))) \<and>
    (\<forall>(s, a) \<in> set (H pid (t, n)). \<exists>st. map_of (rg_state r) pid = Some st \<and> check st t n s \<noteq> Accept \<and>
       (\<forall>b. check st t n s = Duplicate b \<longrightarrow> b = a))"
proof -
  have "mem_ok F H r"
    using registry_inv_run[OF assms(1,3) registry_inv_new[OF assms(2)]] by (simp add: registry_inv_def)
  then show ?thesis
    using mem_ok_check[of F H r pid] mem_okD(2)[of F H r pid "(t, n)"] consecutive_distinct assms(4) by blast
qed

text \<open>A JSON library that does what is relied on: it numbers the values and writes the number in unary.\<close>

definition entry_tuple :: "journal_entry \<Rightarrow> string \<times> string \<times> string \<times> nat \<times> int \<times> nat" where
  "entry_tuple e = (je_p e, je_o e, je_t e, je_n e, je_s e, je_f e)"

definition tuple_entry :: "string \<times> string \<times> string \<times> nat \<times> int \<times> nat \<Rightarrow> journal_entry" where
  "tuple_entry x = (case x of (p, o', t, n, s, f) \<Rightarrow> \<lparr>je_p = p, je_o = o', je_t = t, je_n = n, je_s = s, je_f = f\<rparr>)"

definition partition_tuple :: "persisted_partition \<Rightarrow> string \<times> nat \<times> int \<times> nat \<times> (int \<times> nat) list" where
  "partition_tuple q = (pp_topic q, pp_partition q, pp_last_seen_sequence q, pp_last_offset q, pp_recent q)"

definition tuple_partition :: "string \<times> nat \<times> int \<times> nat \<times> (int \<times> nat) list \<Rightarrow> persisted_partition" where
  "tuple_partition x = (case x of (t, n, s, f, rs) \<Rightarrow>
     \<lparr>pp_topic = t, pp_partition = n, pp_last_seen_sequence = s, pp_last_offset = f, pp_recent = rs\<rparr>)"

definition producer_tuple :: "persisted_producer \<Rightarrow> string \<times> string \<times> int \<times> (string \<times> nat \<times> int \<times> nat \<times> (int \<times> nat) list) list" where
  "producer_tuple p = (pd_producer_id p, pd_owner p, pd_last_used_ms p, map partition_tuple (pd_partitions p))"

definition tuple_producer :: "string \<times> string \<times> int \<times> (string \<times> nat \<times> int \<times> nat \<times> (int \<times> nat) list) list \<Rightarrow> persisted_producer" where
  "tuple_producer x = (case x of (i, o', u, qs) \<Rightarrow>
     \<lparr>pd_producer_id = i, pd_owner = o', pd_last_used_ms = u, pd_partitions = map tuple_partition qs\<rparr>)"

definition sample_json :: producer_json where
  "sample_json =
     \<lparr>js_snapshot = (\<lambda>ps. replicate (to_nat (map producer_tuple ps)) 2),
      js_parse_snapshot = (\<lambda>bs. Some (map tuple_producer (from_nat (length bs)))),
      js_line = (\<lambda>e. 3 # replicate (to_nat (entry_tuple e)) 2 @ [1]),
      js_parse_line = (\<lambda>bs. if length bs \<ge> 2 \<and> hd bs = 3 \<and> set (butlast (tl bs)) \<subseteq> {2}
         then Some (tuple_entry (from_nat (length bs - 2))) else None)\<rparr>"

lemma sample_json_tuples [simp]:
  "tuple_entry (entry_tuple e) = e" "tuple_partition (partition_tuple q) = q" "tuple_producer (producer_tuple p) = p"
proof -
  show q: "tuple_partition (partition_tuple q) = q" for q by (simp add: tuple_partition_def partition_tuple_def)
  show "tuple_producer (producer_tuple p) = p" by (simp add: tuple_producer_def producer_tuple_def q comp_def)
  show "tuple_entry (entry_tuple e) = e" by (simp add: tuple_entry_def entry_tuple_def)
qed

lemma sample_producer_json_ok: "producer_json_ok sample_json"
  by (auto simp: producer_json_ok_def sample_json_def NEWLINE_def comp_def)

definition empty_registry :: registry where
  "empty_registry = \<lparr>rg_state = [], rg_per_owner = [], rg_dirty = False, rg_snapshot = None, rg_journal = None, rg_rotated = None\<rparr>"

lemma open_empty_registry: "registry_open js now None None None = Inr empty_registry"
  by (simp add: registry_open_def replay_def journal_entries_def empty_registry_def)

text \<open>One producer with one record.\<close>

definition one_producer :: registry where "one_producer = snd (admit 1 ''p'' ''k'' empty_registry)"

definition one_state :: producer_state where
  "one_state = \<lparr>pr_owner = ''k'', pr_last_used_ms = 1, pr_partitions = []\<rparr>"

definition one_record :: "producer_json \<Rightarrow> registry" where
  "one_record js = snd (journal js JournalDone ''p'' ''k'' [(''t'', 0, 5, 7)]
     (put_producer ''p'' (record_all 1 [(''t'', 0, 5, 7)] one_state) one_producer))"

lemma one_producer_eq:
  "one_producer = empty_registry\<lparr>rg_state := [(''p'', one_state)], rg_per_owner := [(''k'', 1)]\<rparr>"
  by (simp add: one_producer_def admit_def producer_slot_def empty_registry_def touch_def bump_def name_char_def ascii_alphanumeric_def
      one_state_def MAX_PRODUCERS_def MAX_PRODUCERS_PER_KEY_def Let_def)

lemma one_record_run: "(broker_step js)\<^sup>*\<^sup>* (\<lambda>_ _. [], {}, empty_registry) (add_history ''p'' [(''t'', 0, 5, 7)] (\<lambda>_ _. []), {}, one_record js)"
proof -
  have "broker_step js (\<lambda>_ _. [], {}, empty_registry) (\<lambda>_ _. [], {}, one_producer)"
    unfolding one_producer_def by (rule step_admit) (rule prod.collapse[symmetric])
  moreover have "broker_step js (\<lambda>_ _. [], {}, one_producer) (acknowledge (Inr ()) ''p'' [(''t'', 0, 5, 7)] (\<lambda>_ _. []), {}, one_record js)"
    unfolding one_record_def
  proof (rule step_produce[where io = JournalDone and owner = "''k''"])
    show "map_of (rg_state one_producer) ''p'' = Some one_state" by (simp add: one_producer_eq)
    show "{} = (if Inr () \<noteq> Inr () then UNIV else if accepted 1 one_state [(''t'', 0, 5, 7)] then {} else insert ''p'' {})"
      by (simp add: check_def one_state_def)
  qed (simp add: journal_def Let_def)
  ultimately show ?thesis by (simp add: converse_rtranclp_into_rtranclp[OF _ r_into_rtranclp])
qed

text \<open>The same after another producer was revoked, a flush failed half-way, and a restart.\<close>

definition after_restart :: registry where
  "after_restart = (case registry_open sample_json 2 None (rg_journal (one_record sample_json)) None of Inr r \<Rightarrow> r | Inl _ \<Rightarrow> empty_registry)"

lemma after_restart_run:
  "(broker_step sample_json)\<^sup>*\<^sup>* (\<lambda>_ _. [], {}, empty_registry) (add_history ''p'' [(''t'', 0, 5, 7)] (\<lambda>_ _. []), {''q''}, after_restart)"
proof -
  let ?H = "add_history ''p'' [(''t'', 0, 5, 7)] (\<lambda>_ _. [])" and ?r = "one_record sample_json"
  let ?r1 = "forget_producer ''q'' ''k'' True ?r"
  let ?r2 = "snd (flush_rotate True ?r1)"
  have f: "rg_snapshot ?r1 = None" "rg_rotated ?r1 = None" "rg_journal ?r1 \<noteq> None" "rg_journal ?r1 = rg_journal ?r"
    by (simp_all add: forget_producer_def one_record_def one_producer_eq empty_registry_def journal_def Let_def)
  have "broker_step sample_json (?H, {}, ?r) (?H, {''q''}, ?r1)" using step_forget[of sample_json ?H "{}" ?r "''q''"] by simp
  moreover have "broker_step sample_json (?H, {''q''}, ?r1) (?H, {''q''}, ?r2)"
    by (rule step_rotate[OF prod.collapse[symmetric]]) (simp add: f)
  moreover have "registry_open sample_json 2 (rg_snapshot ?r2) (rg_rotated ?r2) (rg_journal ?r2) = Inr after_restart"
    using f by (auto simp: after_restart_def flush_rotate_def Let_def registry_open_def split: option.split)
  then have "broker_step sample_json (?H, {''q''}, ?r2) (?H, {''q''}, after_restart)" by (rule step_restart)
  ultimately show ?thesis using one_record_run[of sample_json] by (meson rtranclp.rtrancl_into_rtrancl)
qed

theorem producers_acknowledge_once_witness:
  "\<exists>st. map_of (rg_state after_restart) ''p'' = Some st \<and> check st ''t'' 0 5 \<noteq> Accept"
proof -
  have "(5, 7) \<in> set (add_history ''p'' [(''t'', 0, 5, 7)] (\<lambda>_ _. []) ''p'' (''t'', 0))" by (simp add: add_history_def entry_of_def)
  then show ?thesis
    using producers_acknowledge_once[OF sample_producer_json_ok open_empty_registry after_restart_run, of "''p''" "''t''" 0] by auto
qed

text \<open>C34: a torn journal line hides what is acknowledged after it. A journal write that fails part-way
  leaves part of a line; nothing removes it, so the next, acknowledged entry is written behind it on the
  same line, and a restart reads neither. The sequence is then accepted, and its record written, again.
  Stated for any JSON library that refuses a line begun by another line's beginning.\<close>

theorem torn_journal_forgets_acknowledged:
  assumes "producer_json_ok js" "\<And>e e' k. 0 < k \<Longrightarrow> k \<le> length (js_line js e) \<Longrightarrow> js_parse_line js (take k (js_line js e) @ js_line js e') = None"
    and "0 < k" "k \<le> length (js_line js (entry_of q owner x))"
    and "journal js (JournalWriteFails k) q owner [x] empty_registry = (Inl err, r1)"
    and "journal js JournalDone pid owner [(t, n, s, f)] r1 = (Inr (), r2)"
  shows "\<exists>r3. registry_open js now (rg_snapshot r2) (rg_rotated r2) (rg_journal r2) = Inr r3 \<and> rg_state r3 = []"
proof -
  let ?l = "js_line js (entry_of q owner x)" and ?m = "js_line js (entry_of pid owner (t, n, s, f))"
  have r1: "r1 = empty_registry\<lparr>rg_journal := Some (take k ?l)\<rparr>"
    using assms(4,5) by (cases x) (auto simp: journal_def journal_lines_def entry_of_def empty_registry_def)
  have r2: "rg_journal r2 = Some (take k ?l @ ?m @ [NEWLINE])" "rg_snapshot r2 = None" "rg_rotated r2 = None"
    using assms(6) by (auto simp: r1 journal_def journal_lines_def entry_of_def empty_registry_def)
  have "NEWLINE \<notin> set (take k ?l @ ?m)" "last (take k ?l @ ?m) \<noteq> 13"
    using assms(1) by (auto simp: producer_json_ok_def dest: in_set_takeD)
  then have "file_lines (take k ?l @ ?m @ [NEWLINE]) = [take k ?l @ ?m]"
    using file_lines_line[of "take k ?l @ ?m" "[]"] by simp
  then have "journal_entries js (rg_journal r2) = []"
    using assms(2)[OF assms(3,4)] r2(1) by (simp add: journal_entries_def)
  then show ?thesis unfolding r2(2,3) by (simp add: registry_open_def replay_def Let_def) (simp add: journal_entries_def)
qed

lemma sample_json_glued:
  assumes "0 < k" "k \<le> length (js_line sample_json e)"
  shows "js_parse_line sample_json (take k (js_line sample_json e) @ js_line sample_json e') = None"
proof -
  obtain k' where "k = Suc k'" using assms(1) by (cases k) auto
  then have "(3 :: u8) \<in> set (butlast (tl (take k (js_line sample_json e) @ js_line sample_json e')))"
    by (simp add: sample_json_def butlast_append)
  moreover have "(3 :: u8) \<noteq> 2" by simp
  ultimately show ?thesis by (auto simp: sample_json_def)
qed

theorem torn_journal_forgets_acknowledged_witness:
  "\<exists>r1 r2 r3. journal sample_json (JournalWriteFails 1) ''p'' ''k'' [(''t'', 0, 5, 7)] empty_registry = (Inl ProducersIo, r1) \<and>
     journal sample_json JournalDone ''p'' ''k'' [(''t'', 0, 6, 8)] r1 = (Inr (), r2) \<and>
     registry_open sample_json 1 (rg_snapshot r2) (rg_rotated r2) (rg_journal r2) = Inr r3 \<and> rg_state r3 = []"
proof -
  define r1 where "r1 = snd (journal sample_json (JournalWriteFails 1) ''p'' ''k'' [(''t'', 0, 5, 7)] empty_registry)"
  define r2 where "r2 = snd (journal sample_json JournalDone ''p'' ''k'' [(''t'', 0, 6, 8)] r1)"
  have 1: "journal sample_json (JournalWriteFails 1) ''p'' ''k'' [(''t'', 0, 5, 7)] empty_registry = (Inl ProducersIo, r1)"
    by (simp add: r1_def journal_def Let_def)
  have 2: "journal sample_json JournalDone ''p'' ''k'' [(''t'', 0, 6, 8)] r1 = (Inr (), r2)"
    by (simp add: r2_def journal_def Let_def)
  have "1 \<le> length (js_line sample_json (entry_of ''p'' ''k'' (''t'', 0, 5, 7)))" by (simp add: sample_json_def)
  from torn_journal_forgets_acknowledged[OF sample_producer_json_ok sample_json_glued _ this 1 2, of 1] 1 2
  show ?thesis by auto
qed

text \<open>Likewise a rotated journal left by a failed flush is replaced at the next flush before the snapshot
  that would make it redundant is written: stopped there, its entries are gone.\<close>

lemma rotation_drops_left_over_journal:
  assumes "producer_json_ok js" "clean js (rg_rotated r) [e1]" "rg_journal r = Some (log_text js [e2])" "rg_snapshot r = None"
    and "(je_p e1, je_t e1, je_n e1) \<noteq> (je_p e2, je_t e2, je_n e2)"
    and "flush_rotate True r = (res, r')" "registry_open js now (rg_snapshot r') (rg_rotated r') (rg_journal r') = Inr r3"
  shows "window_of r3 (je_p e1) (je_t e1, je_n e1) = empty_window"
proof -
  have r': "rg_rotated r' = Some (log_text js [e2])" "rg_journal r' = None" "rg_snapshot r' = None"
    using assms(3,4,6) by (auto simp: flush_rotate_def)
  have e: "journal_entries js (Some (log_text js [e2])) = [e2]" using clean_entries[OF assms(1)] by (simp add: clean_def)
  have "r3 = replay js now None (replay js now (Some (log_text js [e2])) \<lparr>rg_state = [], rg_per_owner = [], rg_dirty = False,
      rg_snapshot = None, rg_journal = None, rg_rotated = Some (log_text js [e2])\<rparr>)"
    using assms(7) by (simp add: r' registry_open_def Let_def)
  then have "window_of r3 (je_p e1) (je_t e1, je_n e1) =
      fold (\<lambda>(s, a). window_record s a) (entries_for (je_p e1) (je_t e1, je_n e1) [e2]) empty_window"
    by (simp only: replay_ok e) (simp add: journal_entries_def window_of_def)
  then show ?thesis using assms(5) by auto
qed

text \<open>C33: the window is exact. While a producer runs, exactly the next sequence is accepted, exactly the
  last 128 records are recognised, each with its own offset, and recording an accepted one keeps it
  that way.\<close>

theorem dedupe_window_exact:
  assumes "remembers h w" "h \<noteq> []" "0 \<le> fst (last h)" "fst (last h) < i64_max"
  shows "(window_check w s = Accept \<longleftrightarrow> s = fst (last h) + 1) \<and>
    (window_check w s = Duplicate a \<longleftrightarrow> (s, a) \<in> set (drop (length h - WINDOW) h)) \<and>
    length (pw_recent w) \<le> WINDOW \<and>
    (window_check w s = Accept \<longrightarrow> remembers (h @ [(s, a)]) (window_record s a w))"
proof -
  have min: "i64_min \<le> fst (last h)" using assms(3) by simp
  have t: "tracks_history h w" using assms(1) by (simp add: remembers_def)
  have "length (pw_recent w) \<le> WINDOW" using t by (simp add: tracks_history_def)
  then show ?thesis
    using tracks_history_check(1)[OF t assms(2,4) min, of s] remembers_check[OF assms(1,2,4) min, of s a] remembers_snoc[OF assms(1), of s a]
    by blast
qed

theorem dedupe_window_exact_witness:
  "remembers [(5, 7)] (window_record 5 7 empty_window) \<and> window_check (window_record 5 7 empty_window) 6 = Accept \<and>
   window_check (window_record 5 7 empty_window) 5 = Duplicate 7"
proof -
  have "remembers [] empty_window"
    by (simp add: remembers_def tracks_history_def consecutive_def empty_window_def)
  then have r: "remembers [(5, 7)] (window_record 5 7 empty_window)" using remembers_snoc[of "[]" empty_window 5 7] by simp
  show ?thesis
    using dedupe_window_exact[OF r, of 6 7] dedupe_window_exact[OF r, of 5 7] r by (simp add: WINDOW_def)
qed

end
