(* ===== verification/Access_Keys.thy ===== *)
theory Access_Keys
  imports Fs_Files Complex_Main "HOL-Library.AList" "HOL-Library.Countable" "HOL-Library.Sublist"
begin

text \<open>
  Access control (\<open>auth.rs\<close>): rules on topic prefixes, API keys, the key store with its file, and the
  byte-rate buckets.

  SHA-256, the base64 text of a fresh secret, the random bytes behind it and the JSON text of the key
  file are parameters. Rates are \<open>f64\<close> in the source and real numbers here, so rounding is not modelled;
  the clock is an argument in seconds.
\<close>

section \<open>Rules\<close>

datatype auth_mode = Disabled | Required

datatype acl_action = AclRead | AclWrite | AclAdmin

fun action_str :: "acl_action \<Rightarrow> string" where
  "action_str AclRead = ''read''"
| "action_str AclWrite = ''write''"
| "action_str AclAdmin = ''admin''"

definition action_from_str :: "string \<Rightarrow> acl_action option" where
  "action_from_str s =
     (if s = ''read'' then Some AclRead else if s = ''write'' then Some AclWrite
      else if s = ''admin'' then Some AclAdmin else None)"

record acl_rule =
  acl_action :: acl_action
  acl_topic_prefix :: string

definition NAME_SEPARATORS :: "char list" where "NAME_SEPARATORS = [CHR ''.'', CHR ''-'', CHR ''_'']"

definition prefix_matches :: "string \<Rightarrow> string \<Rightarrow> bool" where
  "prefix_matches pre topic =
     (if pre = ''*'' then True
      else if pre = [] \<or> \<not> starts_with topic pre then False
      else if length topic = length pre \<or> last pre \<in> set NAME_SEPARATORS then True
      else (case drop (length pre) topic of [] \<Rightarrow> False | c # _ \<Rightarrow> c \<in> set NAME_SEPARATORS))"

definition rule_matches :: "acl_rule \<Rightarrow> acl_action \<Rightarrow> string \<Rightarrow> bool" where
  "rule_matches r action topic \<longleftrightarrow>
     (case (acl_action r, action) of
        (AclAdmin, _) \<Rightarrow> True
      | (a, b) \<Rightarrow> a = b \<or> (a = AclWrite \<and> b = AclRead)) \<and> prefix_matches (acl_topic_prefix r) topic"

definition validate_prefix :: "string \<Rightarrow> bool" where
  "validate_prefix pre \<longleftrightarrow>
     pre = ''*'' \<or> (pre \<noteq> [] \<and> length pre \<le> 200 \<and> list_all name_char pre)"

record api_key =
  ak_key_id :: string
  ak_name :: string
  ak_acls :: "acl_rule list"
  ak_produce_bytes_per_sec :: "nat option"
  ak_consume_bytes_per_sec :: "nat option"
  ak_created_at_ms :: int
  ak_disabled :: bool

definition can :: "api_key \<Rightarrow> acl_action \<Rightarrow> string \<Rightarrow> bool" where
  "can k action topic \<longleftrightarrow> \<not> ak_disabled k \<and> list_ex (\<lambda>r. rule_matches r action topic) (ak_acls k)"

definition is_admin :: "api_key \<Rightarrow> bool" where
  "is_admin k \<longleftrightarrow> \<not> ak_disabled k \<and> list_ex (\<lambda>r. acl_action r = AclAdmin \<and> acl_topic_prefix r = ''*'') (ak_acls k)"

definition ANONYMOUS_ADMIN :: api_key where
  "ANONYMOUS_ADMIN = \<lparr>ak_key_id = ''anonymous'', ak_name = ''anonymous (auth disabled)'',
     ak_acls = [\<lparr>acl_action = AclAdmin, acl_topic_prefix = ''*''\<rparr>],
     ak_produce_bytes_per_sec = None, ak_consume_bytes_per_sec = None, ak_created_at_ms = 0, ak_disabled = False\<rparr>"


section \<open>Rates\<close>

record bucket =
  bk_rate :: real
  bk_tokens :: real
  bk_last :: real

definition bucket_new :: "real \<Rightarrow> nat \<Rightarrow> bucket" where
  "bucket_new now rate = \<lparr>bk_rate = real rate, bk_tokens = real rate, bk_last = now\<rparr>"

definition bucket_refill :: "real \<Rightarrow> bucket \<Rightarrow> bucket" where
  "bucket_refill now b =
     (let elapsed = max 0 (now - bk_last b)
      in b\<lparr>bk_last := now, bk_tokens := min (bk_tokens b + elapsed * bk_rate b) (bk_rate b)\<rparr>)"

definition try_take :: "real \<Rightarrow> nat \<Rightarrow> bucket \<Rightarrow> (real + unit) \<times> bucket" where
  "try_take now n b =
     (let b = bucket_refill now b
      in if real n > bk_rate b then (Inl 1, b)
         else if real n \<le> bk_tokens b then (Inr (), b\<lparr>bk_tokens := bk_tokens b - real n\<rparr>)
         else (Inl ((real n - bk_tokens b) / bk_rate b), b))"

definition check_credit :: "real \<Rightarrow> bucket \<Rightarrow> (real + unit) \<times> bucket" where
  "check_credit now b =
     (let b = bucket_refill now b
      in if bk_tokens b > 0 then (Inr (), b) else (Inl ((- bk_tokens b + 1) / bk_rate b), b))"

definition charge :: "real \<Rightarrow> nat \<Rightarrow> bucket \<Rightarrow> bucket" where
  "charge now n b = (let b = bucket_refill now b in b\<lparr>bk_tokens := max (bk_tokens b - real n) (- 10 * bk_rate b)\<rparr>)"

record key_limiters =
  kl_produce :: "bucket option"
  kl_consume :: "bucket option"

definition make_limiters :: "real \<Rightarrow> api_key \<Rightarrow> key_limiters" where
  "make_limiters now k =
     (let mk = (\<lambda>r. case r of Some n \<Rightarrow> if n > 0 then Some (bucket_new now n) else None | None \<Rightarrow> None)
      in \<lparr>kl_produce = mk (ak_produce_bytes_per_sec k), kl_consume = mk (ak_consume_bytes_per_sec k)\<rparr>)"


section \<open>Hexadecimal text\<close>

definition hex_digit :: "nat \<Rightarrow> char" where
  "hex_digit d = (if d < 10 then char_of (48 + d) else char_of (97 + (d - 10)))"

definition hex_encode :: "u8 list \<Rightarrow> string" where
  "hex_encode bs = concat (map (\<lambda>b. [hex_digit (unat b div 16), hex_digit (unat b mod 16)]) bs)"

definition nyb :: "char \<Rightarrow> nat option" where
  "nyb c =
     (let n = of_char c :: nat
      in if 48 \<le> n \<and> n \<le> 57 then Some (n - 48)
         else if 97 \<le> n \<and> n \<le> 102 then Some (n - 97 + 10)
         else if 65 \<le> n \<and> n \<le> 70 then Some (n - 65 + 10)
         else None)"

fun hex_pairs :: "string \<Rightarrow> u8 list option" where
  "hex_pairs (a # b # rest) =
     (case (nyb a, nyb b) of
        (Some x, Some y) \<Rightarrow> map_option (\<lambda>bs. word_of_nat (x * 16 + y) # bs) (hex_pairs rest)
      | _ \<Rightarrow> None)"
| "hex_pairs _ = Some []"

definition hex_decode_into :: "string \<Rightarrow> nat \<Rightarrow> u8 list option" where
  "hex_decode_into hex n = (if length hex \<noteq> n * 2 then None else hex_pairs hex)"


section \<open>Key store\<close>

record persisted_key =
  pk_key_id :: string
  pk_name :: string
  pk_secret_sha256_hex :: string
  pk_acls :: "(string \<times> string) list"
  pk_produce_bytes_per_sec :: "nat option"
  pk_consume_bytes_per_sec :: "nat option"
  pk_created_at_ms :: int
  pk_disabled :: bool

record key_store =
  ks_keys :: "(string \<times> api_key) list"
  ks_by_hash :: "(u8 list \<times> string) list"
  ks_limiters :: "(string \<times> key_limiters) list"
  ks_revocations :: nat
  ks_file :: "u8 list option"
  ks_bootstrap :: "string option"

record key_env =
  ke_sha256 :: "string \<Rightarrow> u8 list"
  ke_base64 :: "u8 list \<Rightarrow> string"
  ke_to_json :: "persisted_key list \<Rightarrow> u8 list"
  ke_from_json :: "u8 list \<Rightarrow> persisted_key list option"

datatype key_error = KeyFileParse | BadHash | UnknownAction | BadName | TooManyRules | BadPrefix | KeyNotFound | KeyIo

definition persist_key :: "key_store \<Rightarrow> api_key \<Rightarrow> persisted_key" where
  "persist_key s k =
     \<lparr>pk_key_id = ak_key_id k, pk_name = ak_name k,
      pk_secret_sha256_hex =
        (case find (\<lambda>(h, i). i = ak_key_id k) (ks_by_hash s) of Some (h, _) \<Rightarrow> hex_encode h | None \<Rightarrow> []),
      pk_acls = map (\<lambda>a. (action_str (acl_action a), acl_topic_prefix a)) (ak_acls k),
      pk_produce_bytes_per_sec = ak_produce_bytes_per_sec k, pk_consume_bytes_per_sec = ak_consume_bytes_per_sec k,
      pk_created_at_ms = ak_created_at_ms k, pk_disabled = ak_disabled k\<rparr>"

definition persist_keys :: "key_env \<Rightarrow> atomic_io \<Rightarrow> key_store \<Rightarrow> (key_error + unit) \<times> key_store" where
  "persist_keys env io s =
     (let (ok, f) = replace_file io (ke_to_json env (map (\<lambda>(i, k). persist_key s k) (ks_keys s))) (ks_file s)
      in (if ok then Inr () else Inl KeyIo, s\<lparr>ks_file := f\<rparr>))"

definition load_acl :: "string \<times> string \<Rightarrow> acl_rule option" where
  "load_acl a =
     (case a of (action, pre) \<Rightarrow>
        map_option (\<lambda>act. \<lparr>acl_action = act, acl_topic_prefix = (if pre = [] then ''*'' else pre)\<rparr>) (action_from_str action))"

definition load_key :: "real \<Rightarrow> persisted_key \<Rightarrow> key_store \<Rightarrow> key_error + key_store" where
  "load_key now pk s =
     (case hex_decode_into (pk_secret_sha256_hex pk) 32 of
        None \<Rightarrow> Inl BadHash
      | Some hash \<Rightarrow>
          (case those (map load_acl (pk_acls pk)) of
             None \<Rightarrow> Inl UnknownAction
           | Some acls \<Rightarrow>
               let k = \<lparr>ak_key_id = pk_key_id pk, ak_name = pk_name pk, ak_acls = acls,
                        ak_produce_bytes_per_sec = pk_produce_bytes_per_sec pk,
                        ak_consume_bytes_per_sec = pk_consume_bytes_per_sec pk,
                        ak_created_at_ms = pk_created_at_ms pk, ak_disabled = pk_disabled pk\<rparr>
               in Inr (s\<lparr>ks_limiters := AList.update (pk_key_id pk) (make_limiters now k) (ks_limiters s),
                        ks_by_hash := AList.update hash (pk_key_id pk) (ks_by_hash s),
                        ks_keys := AList.update (pk_key_id pk) k (ks_keys s)\<rparr>)))"

fun load_keys :: "real \<Rightarrow> persisted_key list \<Rightarrow> key_store \<Rightarrow> key_error + key_store" where
  "load_keys now [] s = Inr s"
| "load_keys now (pk # pks) s = (case load_key now pk s of Inl e \<Rightarrow> Inl e | Inr s \<Rightarrow> load_keys now pks s)"

record create_request =
  cr_name :: string
  cr_acls :: "acl_rule list"
  cr_produce_bytes_per_sec :: "nat option"
  cr_consume_bytes_per_sec :: "nat option"

definition new_secret :: "key_env \<Rightarrow> u8 list \<Rightarrow> string" where
  "new_secret env random = ''esk_'' @ ke_base64 env random"

definition new_key_id :: "key_env \<Rightarrow> u8 list \<Rightarrow> string" where
  "new_key_id env random = ''key_'' @ hex_encode (take 6 (ke_sha256 env (new_secret env random)))"

definition create_key ::
    "key_env \<Rightarrow> real \<Rightarrow> int \<Rightarrow> u8 list \<Rightarrow> atomic_io \<Rightarrow> create_request \<Rightarrow> key_store \<Rightarrow> (key_error + api_key \<times> string) \<times> key_store" where
  "create_key env now now_ms random io req s =
     (if cr_name req = [] \<or> length (cr_name req) > 200 then (Inl BadName, s)
      else if length (cr_acls req) > 100 then (Inl TooManyRules, s)
      else if \<not> list_all (\<lambda>a. validate_prefix (acl_topic_prefix a)) (cr_acls req) then (Inl BadPrefix, s)
      else
        let secret = new_secret env random;
            hash = ke_sha256 env secret;
            key_id = new_key_id env random;
            k = \<lparr>ak_key_id = key_id, ak_name = cr_name req, ak_acls = cr_acls req,
                 ak_produce_bytes_per_sec = cr_produce_bytes_per_sec req,
                 ak_consume_bytes_per_sec = cr_consume_bytes_per_sec req, ak_created_at_ms = now_ms, ak_disabled = False\<rparr>;
            s = s\<lparr>ks_limiters := AList.update key_id (make_limiters now k) (ks_limiters s),
                  ks_by_hash := AList.update hash key_id (ks_by_hash s),
                  ks_keys := AList.update key_id k (ks_keys s)\<rparr>
        in case persist_keys env io s of
             (Inl e, s) \<Rightarrow> (Inl e, s)
           | (Inr _, s) \<Rightarrow> (Inr (k, secret), s))"

text \<open>Opening: load the file; with authentication required and no keys, create an administrator and write
  its secret to a file of its own.\<close>

definition BOOTSTRAP_REQUEST :: create_request where
  "BOOTSTRAP_REQUEST = \<lparr>cr_name = ''bootstrap-admin'', cr_acls = [\<lparr>acl_action = AclAdmin, acl_topic_prefix = ''*''\<rparr>],
     cr_produce_bytes_per_sec = None, cr_consume_bytes_per_sec = None\<rparr>"

definition keys_open ::
    "key_env \<Rightarrow> real \<Rightarrow> int \<Rightarrow> u8 list \<Rightarrow> atomic_io \<Rightarrow> bool \<Rightarrow> bool \<Rightarrow> u8 list option \<Rightarrow> (key_error + string option) \<times> key_store" where
  "keys_open env now now_ms random io secret_written auth_required f =
     (let s0 = \<lparr>ks_keys = [], ks_by_hash = [], ks_limiters = [], ks_revocations = 0, ks_file = f, ks_bootstrap = None\<rparr>
      in case (case f of None \<Rightarrow> Some [] | Some bs \<Rightarrow> ke_from_json env bs) of
           None \<Rightarrow> (Inl KeyFileParse, s0)
         | Some pks \<Rightarrow>
             (case load_keys now pks s0 of
                Inl e \<Rightarrow> (Inl e, s0)
              | Inr s \<Rightarrow>
                  if auth_required \<and> ks_keys s = [] then
                    (case create_key env now now_ms random io BOOTSTRAP_REQUEST s of
                       (Inl e, s) \<Rightarrow> (Inl e, s)
                     | (Inr (_, secret), s) \<Rightarrow>
                         if secret_written then (Inr (Some secret), s\<lparr>ks_bootstrap := Some secret\<rparr>) else (Inl KeyIo, s))
                  else (Inr None, s)))"

definition key_list :: "key_store \<Rightarrow> api_key list" where
  "key_list s = sort_key ak_created_at_ms (map snd (ks_keys s))"

definition revoke_key :: "key_env \<Rightarrow> atomic_io \<Rightarrow> string \<Rightarrow> key_store \<Rightarrow> (key_error + unit) \<times> key_store" where
  "revoke_key env io key_id s =
     (case map_of (ks_keys s) key_id of
        None \<Rightarrow> (Inl KeyNotFound, s)
      | Some k \<Rightarrow>
          persist_keys env io (s\<lparr>ks_keys := AList.update key_id (k\<lparr>ak_disabled := True\<rparr>) (ks_keys s),
                                ks_revocations := (ks_revocations s + 1) mod 2 ^ 64\<rparr>))"

definition get_enabled :: "key_store \<Rightarrow> string \<Rightarrow> api_key option" where
  "get_enabled s key_id =
     (case map_of (ks_keys s) key_id of None \<Rightarrow> None | Some k \<Rightarrow> if ak_disabled k then None else Some k)"

definition authenticate :: "key_env \<Rightarrow> key_store \<Rightarrow> string \<Rightarrow> api_key option" where
  "authenticate env s secret =
     (case map_of (ks_by_hash s) (ke_sha256 env secret) of
        None \<Rightarrow> None
      | Some key_id \<Rightarrow>
          (case map_of (ks_keys s) key_id of
             None \<Rightarrow> None
           | Some k \<Rightarrow> if ak_disabled k then None else Some k))"

definition check_produce :: "real \<Rightarrow> string \<Rightarrow> nat \<Rightarrow> key_store \<Rightarrow> (real + unit) \<times> key_store" where
  "check_produce now key_id n s =
     (case map_of (ks_limiters s) key_id of
        None \<Rightarrow> (Inr (), s)
      | Some l \<Rightarrow>
          (case kl_produce l of
             None \<Rightarrow> (Inr (), s)
           | Some b \<Rightarrow>
               let (r, b) = try_take now n b
               in (r, s\<lparr>ks_limiters := AList.update key_id (l\<lparr>kl_produce := Some b\<rparr>) (ks_limiters s)\<rparr>)))"

definition check_consume :: "real \<Rightarrow> string \<Rightarrow> key_store \<Rightarrow> (real + unit) \<times> key_store" where
  "check_consume now key_id s =
     (case map_of (ks_limiters s) key_id of
        None \<Rightarrow> (Inr (), s)
      | Some l \<Rightarrow>
          (case kl_consume l of
             None \<Rightarrow> (Inr (), s)
           | Some b \<Rightarrow>
               let (r, b) = check_credit now b
               in (r, s\<lparr>ks_limiters := AList.update key_id (l\<lparr>kl_consume := Some b\<rparr>) (ks_limiters s)\<rparr>)))"

definition charge_consume :: "real \<Rightarrow> string \<Rightarrow> nat \<Rightarrow> key_store \<Rightarrow> key_store" where
  "charge_consume now key_id n s =
     (case map_of (ks_limiters s) key_id of
        None \<Rightarrow> s
      | Some l \<Rightarrow>
          (case kl_consume l of
             None \<Rightarrow> s
           | Some b \<Rightarrow> s\<lparr>ks_limiters := AList.update key_id (l\<lparr>kl_consume := Some (charge now n b)\<rparr>) (ks_limiters s)\<rparr>))"


section \<open>Who a request runs as\<close>

text \<open>A header is absent, or present with a value that is text or not (\<open>http/auth_ext.rs\<close>).\<close>

definition extract_bearer :: "(string \<Rightarrow> string option option) \<Rightarrow> string option" where
  "extract_bearer headers =
     (case headers ''authorization'' of
        Some None \<Rightarrow> None
      | Some (Some s) \<Rightarrow> if starts_with s ''Bearer '' then Some (drop 7 s) else None
      | None \<Rightarrow> (case headers ''x-es-key'' of Some (Some s) \<Rightarrow> Some s | _ \<Rightarrow> None))"

definition authed_key :: "auth_mode \<Rightarrow> key_env \<Rightarrow> key_store \<Rightarrow> (string \<Rightarrow> string option option) \<Rightarrow> api_key option" where
  "authed_key mode env s headers =
     (case mode of
        Disabled \<Rightarrow> Some ANONYMOUS_ADMIN
      | Required \<Rightarrow> Option.bind (extract_bearer headers) (authenticate env s))"

lemma authed_key_enabled: "authed_key mode env s headers = Some k \<Longrightarrow> \<not> ak_disabled k"
  by (auto simp: authed_key_def authenticate_def ANONYMOUS_ADMIN_def bind_eq_Some_conv split: auth_mode.splits option.splits if_splits)


section \<open>Prefixes\<close>

lemma prefix_matches_iff:
  "prefix_matches pre topic \<longleftrightarrow>
     pre = ''*'' \<or> pre \<noteq> [] \<and> (\<exists>rest. topic = pre @ rest \<and> (rest = [] \<or> last pre \<in> set NAME_SEPARATORS \<or> hd rest \<in> set NAME_SEPARATORS))"
  unfolding prefix_matches_def by (auto simp: starts_with_iff split: list.splits)

text \<open>A name as its words and separators: \<open>orders.eu\<close> is \<open>orders\<close>, \<open>.\<close>, \<open>eu\<close>.\<close>

abbreviation name_sep :: "char \<Rightarrow> bool" where "name_sep c \<equiv> c \<in> set NAME_SEPARATORS"

function name_tokens :: "string \<Rightarrow> string list" where
  "name_tokens [] = []"
| "name_tokens (c # cs) =
     (if name_sep c then [c] # name_tokens cs
      else (c # takeWhile (\<lambda>c. \<not> name_sep c) cs) # name_tokens (dropWhile (\<lambda>c. \<not> name_sep c) cs))"
  by pat_completeness auto
termination by (relation "measure length") (auto simp: le_imp_less_Suc length_dropWhile_le)

lemma concat_name_tokens [simp]: "concat (name_tokens s) = s"
  by (induction s rule: name_tokens.induct) auto

lemma word_append:
  assumes "\<exists>c \<in> set cs. name_sep c"
  shows "takeWhile (\<lambda>c. \<not> name_sep c) (cs @ r) = takeWhile (\<lambda>c. \<not> name_sep c) cs"
    "dropWhile (\<lambda>c. \<not> name_sep c) (cs @ r) = dropWhile (\<lambda>c. \<not> name_sep c) cs @ r"
    "dropWhile (\<lambda>c. \<not> name_sep c) cs \<noteq> []" "last (dropWhile (\<lambda>c. \<not> name_sep c) cs) = last cs"
proof -
  show "dropWhile (\<lambda>c. \<not> name_sep c) cs \<noteq> []" using assms by auto
  then show "last (dropWhile (\<lambda>c. \<not> name_sep c) cs) = last cs"
    by (metis last_append takeWhile_dropWhile_id)
qed (use assms in auto)

lemma name_tokens_append:
  "r = [] \<or> name_sep (last p) \<or> name_sep (hd r) \<Longrightarrow> name_tokens (p @ r) = name_tokens p @ name_tokens r"
proof (induction p rule: name_tokens.induct)
  case (2 c cs)
  show ?case
  proof (cases "name_sep c")
    case True
    then show ?thesis using 2 by (cases "cs = []") auto
  next
    case False
    show ?thesis
    proof (cases "\<exists>x \<in> set cs. name_sep x")
      case True
      then have "cs \<noteq> []" by auto
      then show ?thesis using 2(2)[OF False] 2(3) False word_append[OF True] by auto
    next
      case no: False
      have w: "takeWhile (\<lambda>c. \<not> name_sep c) cs = cs" "dropWhile (\<lambda>c. \<not> name_sep c) cs = []"
        using no by (simp_all add: takeWhile_eq_all_conv dropWhile_eq_Nil_conv)
      from no have "r = [] \<or> name_sep (hd r)" using 2(3) False by (auto split: if_splits)
      then show ?thesis using False no by (cases r) (auto simp: takeWhile_append dropWhile_append w)
    qed
  qed
qed simp

lemma name_tokens_merge:
  "p \<noteq> [] \<Longrightarrow> r \<noteq> [] \<Longrightarrow> \<not> name_sep (last p) \<Longrightarrow> \<not> name_sep (hd r) \<Longrightarrow> \<not> prefix (name_tokens p) (name_tokens (p @ r))"
proof (induction p rule: name_tokens.induct)
  case (2 c cs)
  show ?case
  proof (cases "name_sep c")
    case True
    then show ?thesis using 2 by (cases "cs = []") auto
  next
    case False
    show ?thesis
    proof (cases "\<exists>x \<in> set cs. name_sep x")
      case True
      then have "cs \<noteq> []" by auto
      then show ?thesis using 2(2)[OF False] 2(4-) False word_append[OF True] by auto
    next
      case no: False
      have w: "takeWhile (\<lambda>c. \<not> name_sep c) cs = cs" "dropWhile (\<lambda>c. \<not> name_sep c) cs = []"
        using no by (simp_all add: takeWhile_eq_all_conv dropWhile_eq_Nil_conv)
      show ?thesis using False no 2(4,6) by (cases r) (auto simp: takeWhile_append w)
    qed
  qed
qed simp

lemma prefix_matches_tokens:
  assumes "p \<noteq> ''*''"
  shows "prefix_matches p topic \<longleftrightarrow> p \<noteq> [] \<and> prefix (name_tokens p) (name_tokens topic)"
proof
  assume "prefix_matches p topic"
  then obtain rest where r: "p \<noteq> []" "topic = p @ rest" "rest = [] \<or> name_sep (last p) \<or> name_sep (hd rest)"
    using assms by (auto simp: prefix_matches_iff)
  then show "p \<noteq> [] \<and> prefix (name_tokens p) (name_tokens topic)" by (simp add: name_tokens_append)
next
  assume p: "p \<noteq> [] \<and> prefix (name_tokens p) (name_tokens topic)"
  then obtain us where "name_tokens topic = name_tokens p @ us" by (auto simp: prefix_def)
  from arg_cong[OF this, of concat] have t: "topic = p @ concat us" by simp
  then have "concat us = [] \<or> name_sep (last p) \<or> name_sep (hd (concat us))" using name_tokens_merge[of p "concat us"] p by auto
  then show "prefix_matches p topic" using p t by (auto simp: prefix_matches_iff)
qed


section \<open>Hexadecimal round trip\<close>

lemma nyb_hex_digit [simp]: "d < 16 \<Longrightarrow> nyb (hex_digit d) = Some d"
  by (auto simp: nyb_def hex_digit_def)

lemma high_nibble_less [simp]: "unat (b :: u8) div 16 < 16"
  using unat_u8_less[of b] by (simp add: less_mult_imp_div_less)

lemma hex_pairs_encode: "hex_pairs (hex_encode bs) = Some bs"
  by (induction bs) (simp_all add: hex_encode_def)

lemma length_hex_encode: "length (hex_encode bs) = 2 * length bs"
  by (induction bs) (simp_all add: hex_encode_def)

lemma hex_decode_encode: "length bs = n \<Longrightarrow> hex_decode_into (hex_encode bs) n = Some bs"
  by (simp add: hex_decode_into_def length_hex_encode hex_pairs_encode)


section \<open>Rates\<close>

text \<open>What a key is granted by a series of requests at given times.\<close>

fun granted :: "string \<Rightarrow> (real \<times> nat) list \<Rightarrow> key_store \<Rightarrow> nat" where
  "granted key_id [] s = 0"
| "granted key_id ((now, n) # reqs) s =
     (case check_produce now key_id n s of
        (Inr _, s) \<Rightarrow> n + granted key_id reqs s
      | (Inl _, s) \<Rightarrow> granted key_id reqs s)"

lemma try_take_spends:
  assumes "try_take now n b = (r, b')" "bk_last b \<le> now" "0 \<le> bk_rate b"
  shows "bk_last b' = now" "bk_rate b' = bk_rate b"
    "(case r of Inr _ \<Rightarrow> real n | Inl _ \<Rightarrow> 0) + bk_tokens b' \<le> bk_tokens b + bk_rate b * (now - bk_last b)"
    "0 \<le> bk_tokens b \<Longrightarrow> 0 \<le> bk_tokens b'"
  using assms by (auto simp: try_take_def bucket_refill_def Let_def mult.commute max_def min_def split: if_splits)

lemma granted_bound:
  assumes "map_of (ks_limiters s) key_id = Some l" "kl_produce l = Some b" "0 \<le> bk_rate b" "0 \<le> bk_tokens b"
    and "sorted (map fst reqs)" "\<forall>(t, n) \<in> set reqs. bk_last b \<le> t \<and> t \<le> until" "bk_last b \<le> until"
  shows "real (granted key_id reqs s) \<le> bk_tokens b + bk_rate b * (until - bk_last b)"
  using assms
proof (induction reqs arbitrary: s l b)
  case Nil
  then show ?case by (simp add: mult_nonneg_nonneg)
next
  case (Cons x reqs)
  obtain now n where x: "x = (now, n)" by (cases x)
  obtain r b' where t: "try_take now n b = (r, b')" by (cases "try_take now n b")
  define s' where "s' = s\<lparr>ks_limiters := AList.update key_id (l\<lparr>kl_produce := Some b'\<rparr>) (ks_limiters s)\<rparr>"
  have now: "bk_last b \<le> now" "now \<le> until" using Cons.prems(6) x by auto
  note sp = try_take_spends[OF t now(1) Cons.prems(3)]
  have c: "check_produce now key_id n s = (r, s')" using Cons.prems(1,2) t by (simp add: check_produce_def s'_def)
  have "real (granted key_id reqs s') \<le> bk_tokens b' + bk_rate b' * (until - bk_last b')"
  proof (rule Cons.IH[of s' "l\<lparr>kl_produce := Some b'\<rparr>" b'])
    show "map_of (ks_limiters s') key_id = Some (l\<lparr>kl_produce := Some b'\<rparr>)" by (simp add: s'_def update_conv')
    show "\<forall>(t, n) \<in> set reqs. bk_last b' \<le> t \<and> t \<le> until" using Cons.prems(5,6) x sp(1) by auto
  qed (use Cons.prems sp now in auto)
  moreover have "bk_rate b * (until - bk_last b) = bk_rate b * (now - bk_last b) + bk_rate b * (until - now)" by (simp add: algebra_simps)
  ultimately show ?case using sp by (cases r) (simp_all add: x c)
qed


section \<open>Revocation\<close>

definition key_env_ok :: "key_env \<Rightarrow> bool" where
  "key_env_ok env \<longleftrightarrow> (\<forall>pks. ke_from_json env (ke_to_json env pks) = Some pks) \<and> (\<forall>x. length (ke_sha256 env x) = 32)"

text \<open>Every key is filed under its own id, and the file holds such keys.\<close>

definition keys_filed :: "(string \<times> api_key) list \<Rightarrow> bool" where
  "keys_filed ks \<longleftrightarrow> distinct (map fst ks) \<and> (\<forall>(i, k) \<in> set ks. ak_key_id k = i)"

definition file_revoked :: "key_env \<Rightarrow> string \<Rightarrow> u8 list option \<Rightarrow> bool" where
  "file_revoked env key_id f \<longleftrightarrow>
     (\<exists>bs pks pk. f = Some bs \<and> ke_from_json env bs = Some pks \<and> distinct (map pk_key_id pks) \<and>
        pk \<in> set pks \<and> pk_key_id pk = key_id \<and> pk_disabled pk)"

definition revoked :: "key_env \<Rightarrow> string \<Rightarrow> key_store \<Rightarrow> bool" where
  "revoked env key_id s \<longleftrightarrow>
     keys_filed (ks_keys s) \<and> (\<exists>k. map_of (ks_keys s) key_id = Some k \<and> ak_disabled k) \<and> file_revoked env key_id (ks_file s)"

lemma keys_filed_update:
  assumes "keys_filed ks" "ak_key_id k = i"
  shows "keys_filed (AList.update i k ks)"
proof -
  have "set (AList.update i k ks) \<subseteq> insert (i, k) (set ks)" by (induction ks) auto
  then show ?thesis using assms by (auto simp: keys_filed_def distinct_update)
qed

lemma keys_filed_map_of: "keys_filed ks \<Longrightarrow> map_of ks i = Some k \<Longrightarrow> ak_key_id k = i"
  by (auto simp: keys_filed_def dest: map_of_SomeD)

lemma persist_keys_revoked:
  assumes "key_env_ok env" "keys_filed (ks_keys s)" "map_of (ks_keys s) key_id = Some k" "ak_disabled k"
    and "persist_keys env io s = (r, s')" "r = Inr () \<or> file_revoked env key_id (ks_file s)"
  shows "revoked env key_id s'"
proof -
  define pks where "pks = map (\<lambda>(i, k). persist_key s k) (ks_keys s)"
  have ids: "map pk_key_id pks = map fst (ks_keys s)"
    using assms(2) by (auto simp: keys_filed_def persist_key_def pks_def)
  have "persist_key s k \<in> set pks" using map_of_SomeD[OF assms(3)] by (force simp: pks_def)
  moreover have "pk_key_id (persist_key s k) = key_id" "pk_disabled (persist_key s k)"
    using keys_filed_map_of[OF assms(2,3)] assms(4) by (simp_all add: persist_key_def)
  moreover have "distinct (map pk_key_id pks)" unfolding ids using assms(2) by (simp add: keys_filed_def)
  ultimately have "file_revoked env key_id (Some (ke_to_json env pks))"
    using assms(1) unfolding file_revoked_def key_env_ok_def by blast
  moreover have "ks_keys s' = ks_keys s" "ks_file s' = Some (ke_to_json env pks) \<or> ks_file s' = ks_file s \<and> r \<noteq> Inr ()"
    using assms(5) by (auto simp: persist_keys_def replace_file_def pks_def Let_def split: atomic_io.splits)
  ultimately show ?thesis using assms(2,3,4,6) by (auto simp: revoked_def)
qed

text \<open>What happens to a key store after that: keys are created, others revoked, with failures of the
  file; the process starts again from the file. A fresh key does not take the id of an old one: ids
  are 48 bits of a hash, and the code does not look whether an id is taken.\<close>

inductive key_step :: "key_env \<Rightarrow> key_store \<Rightarrow> key_store \<Rightarrow> bool" for env where
  step_create: "map_of (ks_keys s) (new_key_id env random) = None \<Longrightarrow> create_key env now now_ms random io req s = (r, s') \<Longrightarrow> key_step env s s'"
| step_revoke: "revoke_key env io i s = (r, s') \<Longrightarrow> key_step env s s'"
| step_reopen: "keys_open env now now_ms random io w auth (ks_file s) = (Inr b, s') \<Longrightarrow> key_step env s s'"
| step_rate: "s' = s\<lparr>ks_limiters := l\<rparr> \<Longrightarrow> key_step env s s'"

lemma revoked_not_authenticated:
  "revoked env key_id s \<Longrightarrow> authenticate env s secret = Some k \<Longrightarrow> ak_key_id k \<noteq> key_id"
  by (auto simp: revoked_def authenticate_def dest: keys_filed_map_of split: option.splits if_splits)

lemma revoked_create:
  assumes "key_env_ok env" "revoked env key_id s" "map_of (ks_keys s) (new_key_id env random) = None"
    "create_key env now now_ms random io req s = (r, s')"
  shows "revoked env key_id s'"
proof (cases "s' = s")
  case False
  define i where "i = new_key_id env random"
  define k where "k = \<lparr>ak_key_id = i, ak_name = cr_name req, ak_acls = cr_acls req,
                 ak_produce_bytes_per_sec = cr_produce_bytes_per_sec req,
                 ak_consume_bytes_per_sec = cr_consume_bytes_per_sec req, ak_created_at_ms = now_ms, ak_disabled = False\<rparr>"
  define s1 where "s1 = s\<lparr>ks_limiters := AList.update i (make_limiters now k) (ks_limiters s),
                  ks_by_hash := AList.update (ke_sha256 env (new_secret env random)) i (ks_by_hash s),
                  ks_keys := AList.update i k (ks_keys s)\<rparr>"
  obtain r' where p: "persist_keys env io s1 = (r', s')"
    using assms(4) False by (auto simp: create_key_def Let_def s1_def k_def i_def split: if_splits sum.splits prod.splits)
  obtain k0 where k0: "map_of (ks_keys s) key_id = Some k0" "ak_disabled k0" "keys_filed (ks_keys s)" "file_revoked env key_id (ks_file s)"
    using assms(2) by (auto simp: revoked_def)
  have ne: "key_id \<noteq> i" using k0(1) assms(3) by (auto simp: i_def)
  show ?thesis
    by (rule persist_keys_revoked[OF assms(1) _ _ k0(2) p])
      (use k0 ne in \<open>auto simp: s1_def k_def update_conv' intro!: keys_filed_update\<close>)
qed (use assms(2) in simp)

lemma revoked_revoke:
  assumes "key_env_ok env" "revoked env key_id s" "revoke_key env io i s = (r, s')"
  shows "revoked env key_id s'"
proof (cases "map_of (ks_keys s) i")
  case None
  then show ?thesis using assms(2,3) by (simp add: revoke_key_def)
next
  case (Some k)
  define s1 where "s1 = s\<lparr>ks_keys := AList.update i (k\<lparr>ak_disabled := True\<rparr>) (ks_keys s), ks_revocations := (ks_revocations s + 1) mod 2 ^ 64\<rparr>"
  have p: "persist_keys env io s1 = (r, s')" using assms(3) Some by (simp add: revoke_key_def s1_def)
  obtain k0 where k0: "map_of (ks_keys s) key_id = Some k0" "ak_disabled k0" "keys_filed (ks_keys s)" "file_revoked env key_id (ks_file s)"
    using assms(2) by (auto simp: revoked_def)
  have "keys_filed (ks_keys s1)"
    using keys_filed_update[OF k0(3), of "k\<lparr>ak_disabled := True\<rparr>" i] keys_filed_map_of[OF k0(3) Some] by (simp add: s1_def)
  moreover obtain k1 where "map_of (ks_keys s1) key_id = Some k1" "ak_disabled k1"
    using k0(1,2) by (cases "key_id = i") (auto simp: s1_def update_conv')
  ultimately show ?thesis using persist_keys_revoked[OF assms(1) _ _ _ p] k0(4) by (simp add: s1_def)
qed

lemma load_key_facts:
  assumes "load_key now pk s = Inr s'"
  shows "\<exists>k. ks_keys s' = AList.update (pk_key_id pk) k (ks_keys s) \<and> ak_key_id k = pk_key_id pk \<and> ak_disabled k = pk_disabled pk"
    "ks_file s' = ks_file s"
  using assms by (auto simp: load_key_def Let_def split: option.splits)

lemma load_keys_facts:
  assumes "load_keys now pks s = Inr s'" "keys_filed (ks_keys s)" "distinct (map pk_key_id pks)"
  shows "keys_filed (ks_keys s')" "ks_file s' = ks_file s"
    "pk \<in> set pks \<Longrightarrow> \<exists>k. map_of (ks_keys s') (pk_key_id pk) = Some k \<and> ak_disabled k = pk_disabled pk"
    "i \<notin> pk_key_id ` set pks \<Longrightarrow> map_of (ks_keys s') i = map_of (ks_keys s) i"
proof -
  have "keys_filed (ks_keys s') \<and> ks_file s' = ks_file s \<and>
      (\<forall>pk \<in> set pks. \<exists>k. map_of (ks_keys s') (pk_key_id pk) = Some k \<and> ak_disabled k = pk_disabled pk) \<and>
      (\<forall>i. i \<notin> pk_key_id ` set pks \<longrightarrow> map_of (ks_keys s') i = map_of (ks_keys s) i)"
    using assms
  proof (induction pks arbitrary: s)
    case (Cons q pks)
    obtain s1 where s1: "load_key now q s = Inr s1" "load_keys now pks s1 = Inr s'"
      using Cons.prems(1) by (auto split: sum.splits)
    obtain k where k: "ks_keys s1 = AList.update (pk_key_id q) k (ks_keys s)" "ak_key_id k = pk_key_id q" "ak_disabled k = pk_disabled q"
      "ks_file s1 = ks_file s" using load_key_facts[OF s1(1)] by blast
    have "keys_filed (ks_keys s1)" using keys_filed_update[OF Cons.prems(2) k(2)] k(1) by simp
    from Cons.IH[OF s1(2) this] Cons.prems(3) show ?case by (auto simp: k update_conv')
  qed simp
  then show "keys_filed (ks_keys s')" "ks_file s' = ks_file s"
    "pk \<in> set pks \<Longrightarrow> \<exists>k. map_of (ks_keys s') (pk_key_id pk) = Some k \<and> ak_disabled k = pk_disabled pk"
    "i \<notin> pk_key_id ` set pks \<Longrightarrow> map_of (ks_keys s') i = map_of (ks_keys s) i" by blast+
qed

lemma revoked_reopen:
  assumes "revoked env key_id s" "keys_open env now now_ms random io w auth (ks_file s) = (Inr b, s')"
  shows "revoked env key_id s'"
proof -
  obtain bs pks pk where f: "ks_file s = Some bs" "ke_from_json env bs = Some pks" "distinct (map pk_key_id pks)"
    "pk \<in> set pks" "pk_key_id pk = key_id" "pk_disabled pk" and fr: "file_revoked env key_id (Some bs)"
    using assms(1) unfolding revoked_def file_revoked_def by blast
  define s0 where "s0 = \<lparr>ks_keys = [], ks_by_hash = [], ks_limiters = [], ks_revocations = 0, ks_file = Some bs, ks_bootstrap = None\<rparr>"
  obtain s1 where s1: "load_keys now pks s0 = Inr s1"
    using assms(2) f(1,2) by (cases "load_keys now pks s0") (auto simp: keys_open_def s0_def Let_def)
  have "keys_filed (ks_keys s0)" by (simp add: s0_def keys_filed_def)
  note l = load_keys_facts[OF s1 this f(3)]
  obtain k where k: "map_of (ks_keys s1) key_id = Some k" "ak_disabled k" using l(3)[OF f(4)] f(5,6) by auto
  then have "ks_keys s1 \<noteq> []" by auto
  then have "s' = s1" using assms(2) f(1,2) s1 by (simp add: keys_open_def s0_def[symmetric] Let_def)
  then show ?thesis using k l(1,2) fr by (auto simp: revoked_def s0_def)
qed

lemma revoked_limiters [simp]: "revoked env key_id (s\<lparr>ks_limiters := l\<rparr>) = revoked env key_id s"
  by (simp add: revoked_def)

lemma revoked_step: "key_env_ok env \<Longrightarrow> revoked env key_id s \<Longrightarrow> key_step env s s' \<Longrightarrow> revoked env key_id s'"
  by (erule key_step.cases) (auto intro: revoked_create revoked_revoke revoked_reopen)

lemma revoked_run:
  assumes "key_env_ok env" "(key_step env)\<^sup>*\<^sup>* s s'" "revoked env key_id s"
  shows "revoked env key_id s'"
  using assms(2) by induction (use assms(1,3) revoked_step in blast)+

lemma load_keys_filed: "load_keys now pks s = Inr s' \<Longrightarrow> keys_filed (ks_keys s) \<Longrightarrow> keys_filed (ks_keys s')"
proof (induction pks arbitrary: s)
  case (Cons pk pks)
  obtain s1 where s1: "load_key now pk s = Inr s1" "load_keys now pks s1 = Inr s'" using Cons.prems(1) by (auto split: sum.splits)
  then show ?case using Cons load_key_facts(1)[OF s1(1)] keys_filed_update by auto
qed simp

lemma persist_keys_keys: "persist_keys env io s = (r, s') \<Longrightarrow> ks_keys s' = ks_keys s \<and> ks_by_hash s' = ks_by_hash s"
  by (auto simp: persist_keys_def Let_def split: prod.splits)

lemma create_keys_filed:
  assumes "create_key env now now_ms random io req s = (r, s')" "keys_filed (ks_keys s)"
  shows "keys_filed (ks_keys s')"
  using assms persist_keys_keys
  by (fastforce simp: create_key_def Let_def split: if_splits sum.splits prod.splits intro!: keys_filed_update)

lemma open_keys_filed: "keys_open env now now_ms random io w auth f = (Inr b, s) \<Longrightarrow> keys_filed (ks_keys s)"
  by (auto simp: keys_open_def Let_def keys_filed_def[of "[]"] dest!: load_keys_filed create_keys_filed
      split: option.splits sum.splits if_splits prod.splits)

lemma keys_filed_step: "key_step env s s' \<Longrightarrow> keys_filed (ks_keys s) \<Longrightarrow> keys_filed (ks_keys s')"
proof (induction rule: key_step.induct)
  case (step_revoke io i s r s')
  show ?case
  proof (cases "map_of (ks_keys s) i")
    case None
    then show ?thesis using step_revoke by (simp add: revoke_key_def)
  next
    case (Some k)
    then have "ks_keys s' = AList.update i (k\<lparr>ak_disabled := True\<rparr>) (ks_keys s)"
      using step_revoke(1) by (auto simp: revoke_key_def dest!: persist_keys_keys)
    then show ?thesis using keys_filed_update[OF step_revoke(2), of "k\<lparr>ak_disabled := True\<rparr>" i] keys_filed_map_of[OF step_revoke(2) Some] by simp
  qed
qed (auto dest: create_keys_filed open_keys_filed)

lemma keys_filed_run: "(key_step env)\<^sup>*\<^sup>* s s' \<Longrightarrow> keys_filed (ks_keys s) \<Longrightarrow> keys_filed (ks_keys s')"
  by (induction rule: rtranclp_induct) (auto intro: keys_filed_step)


section \<open>The key file\<close>

text \<open>Every key has one hash, every hash a key.\<close>

definition store_ok :: "key_store \<Rightarrow> bool" where
  "store_ok s \<longleftrightarrow> keys_filed (ks_keys s) \<and> distinct (map fst (ks_by_hash s)) \<and> distinct (map snd (ks_by_hash s)) \<and>
     snd ` set (ks_by_hash s) = fst ` set (ks_keys s) \<and> (\<forall>(h, i) \<in> set (ks_by_hash s). length h = 32) \<and>
     (\<forall>(i, k) \<in> set (ks_keys s). \<forall>a \<in> set (ak_acls k). acl_topic_prefix a \<noteq> [])"

lemma load_acl_persisted: "acl_topic_prefix a \<noteq> [] \<Longrightarrow> load_acl (action_str (acl_action a), acl_topic_prefix a) = Some a"
  by (cases "acl_action a") (simp_all add: load_acl_def action_from_str_def)

lemma those_load_acls:
  "\<forall>a \<in> set as. acl_topic_prefix a \<noteq> [] \<Longrightarrow> those (map load_acl (map (\<lambda>a. (action_str (acl_action a), acl_topic_prefix a)) as)) = Some as"
  by (induction as) (simp_all add: load_acl_persisted)

lemma load_persisted_key:
  assumes "store_ok s" "(i, k) \<in> set (ks_keys s)"
  obtains h q' where "(h, i) \<in> set (ks_by_hash s)" "load_key now (persist_key s k) q = Inr q'"
    "ks_keys q' = AList.update i k (ks_keys q)" "ks_by_hash q' = AList.update h i (ks_by_hash q)"
proof -
  have i: "ak_key_id k = i" using assms by (auto simp: store_ok_def keys_filed_def)
  have "i \<in> fst ` set (ks_keys s)" using imageI[OF assms(2), of fst] by simp
  then have "i \<in> snd ` set (ks_by_hash s)" using assms(1) by (simp add: store_ok_def)
  then obtain h where h: "(h, i) \<in> set (ks_by_hash s)" by auto
  then obtain h' i' where f: "find (\<lambda>(h, j). j = i) (ks_by_hash s) = Some (h', i')"
    by (cases "find (\<lambda>(h, j). j = i) (ks_by_hash s)") (auto simp: find_None_iff)
  then have h': "(h', i) \<in> set (ks_by_hash s)" by (auto dest: find_in_set)
  have l: "hex_decode_into (hex_encode h') 32 = Some h'" using h' assms(1) by (intro hex_decode_encode) (auto simp: store_ok_def)
  have a: "those (map load_acl (pk_acls (persist_key s k))) = Some (ak_acls k)"
    using assms those_load_acls[of "ak_acls k"] unfolding persist_key_def by (auto simp: store_ok_def)
  let ?k = "\<lparr>ak_key_id = i, ak_name = ak_name k, ak_acls = ak_acls k, ak_produce_bytes_per_sec = ak_produce_bytes_per_sec k,
      ak_consume_bytes_per_sec = ak_consume_bytes_per_sec k, ak_created_at_ms = ak_created_at_ms k, ak_disabled = ak_disabled k\<rparr>"
  have "pk_secret_sha256_hex (persist_key s k) = hex_encode h'" by (simp add: persist_key_def i f)
  then have "load_key now (persist_key s k) q = Inr (q\<lparr>ks_limiters := AList.update i (make_limiters now ?k) (ks_limiters q),
      ks_by_hash := AList.update h' i (ks_by_hash q), ks_keys := AList.update i ?k (ks_keys q)\<rparr>)"
    unfolding load_key_def a by (simp add: l i persist_key_def Let_def)
  moreover have "?k = k" using i by (cases k) simp
  ultimately show ?thesis using that[OF h'] by (simp only:) simp
qed

lemma load_persisted_keys:
  assumes "store_ok s" "set xs \<subseteq> set (ks_keys s)" "distinct (map fst xs)"
  shows "\<exists>q'. load_keys now (map (\<lambda>(i, k). persist_key s k) xs) q = Inr q' \<and>
    (\<forall>i. map_of (ks_keys q') i = (case map_of xs i of Some k \<Rightarrow> Some k | None \<Rightarrow> map_of (ks_keys q) i)) \<and>
    (\<forall>h. map_of (ks_by_hash q') h = (case map_of (ks_by_hash s) h of
        Some i \<Rightarrow> if i \<in> fst ` set xs then Some i else map_of (ks_by_hash q) h | None \<Rightarrow> map_of (ks_by_hash q) h))"
  using assms(2,3)
proof (induction xs arbitrary: q)
  case (Cons x xs)
  obtain i k where x: "x = (i, k)" by (cases x)
  obtain h q1 where q1: "(h, i) \<in> set (ks_by_hash s)" "load_key now (persist_key s k) q = Inr q1"
    "ks_keys q1 = AList.update i k (ks_keys q)" "ks_by_hash q1 = AList.update h i (ks_by_hash q)"
    using load_persisted_key[OF assms(1), of i k now q] Cons.prems(1) x by auto
  have "set xs \<subseteq> set (ks_keys s)" "distinct (map fst xs)" using Cons.prems by auto
  from Cons.IH[OF this, of q1] obtain q' where q': "load_keys now (map (\<lambda>(i, k). persist_key s k) xs) q1 = Inr q'"
    "\<forall>i. map_of (ks_keys q') i = (case map_of xs i of Some k \<Rightarrow> Some k | None \<Rightarrow> map_of (ks_keys q1) i)"
    "\<forall>h. map_of (ks_by_hash q') h = (case map_of (ks_by_hash s) h of
        Some i \<Rightarrow> if i \<in> fst ` set xs then Some i else map_of (ks_by_hash q1) h | None \<Rightarrow> map_of (ks_by_hash q1) h)"
    by blast
  have hi: "map_of (ks_by_hash s) h = Some i" using q1(1) assms(1) by (simp add: store_ok_def)
  have uniq: "h' = h" if "map_of (ks_by_hash s) h' = Some i" for h'
  proof -
    have "inj_on snd (set (ks_by_hash s))" using assms(1) by (simp add: store_ok_def distinct_map)
    from inj_onD[OF this _ map_of_SomeD[OF that] q1(1)] show ?thesis by simp
  qed
  have ni: "map_of xs i = None" "i \<notin> fst ` set xs" using Cons.prems(2) x by (auto simp: map_of_eq_None_iff)
  have "load_keys now (map (\<lambda>(i, k). persist_key s k) (x # xs)) q = Inr q'" using q1(2) q'(1) by (simp add: x)
  moreover have "map_of (ks_keys q') j = (case map_of (x # xs) j of Some k \<Rightarrow> Some k | None \<Rightarrow> map_of (ks_keys q) j)" for j
    using q'(2)[rule_format, of j] ni(1) by (cases "j = i") (auto simp: x q1(3) update_conv' split: option.split)
  moreover have "map_of (ks_by_hash q') g = (case map_of (ks_by_hash s) g of
        Some i \<Rightarrow> if i \<in> fst ` set (x # xs) then Some i else map_of (ks_by_hash q) g | None \<Rightarrow> map_of (ks_by_hash q) g)" for g
  proof (cases "g = h")
    case True
    then show ?thesis using q'(3)[rule_format, of g] hi ni(2) by (simp add: x q1(4) update_conv')
  next
    case False
    then have "map_of (ks_by_hash s) g \<noteq> Some i" using uniq by blast
    then show ?thesis using q'(3)[rule_format, of g] False by (auto simp: x q1(4) update_conv' split: option.split)
  qed
  ultimately show ?case by blast
qed (auto split: option.split)


section \<open>Properties\<close>

text \<open>C35: a revoked key stays revoked. Once a revocation is reported as done, no secret is ever
  authenticated as that key again: not after any keys are created or revoked, with failures of the key
  file, and not after the broker is started again. The steps in between leave out one case: that a new
  key happens to be given the 48-bit id of an old one.\<close>

theorem revocation_is_permanent:
  assumes "key_env_ok env" "keys_open env now now_ms random io w auth f = (Inr b, s0)" "(key_step env)\<^sup>*\<^sup>* s0 s"
    and "revoke_key env io' key_id s = (Inr (), s1)" "(key_step env)\<^sup>*\<^sup>* s1 s2"
  shows "get_enabled s2 key_id = None \<and> (\<forall>secret k. authenticate env s2 secret = Some k \<longrightarrow> ak_key_id k \<noteq> key_id)"
proof -
  have filed: "keys_filed (ks_keys s)" using keys_filed_run[OF assms(3) open_keys_filed[OF assms(2)]] .
  obtain k where k: "map_of (ks_keys s) key_id = Some k" using assms(4) by (auto simp: revoke_key_def split: option.splits)
  define s' where "s' = s\<lparr>ks_keys := AList.update key_id (k\<lparr>ak_disabled := True\<rparr>) (ks_keys s), ks_revocations := (ks_revocations s + 1) mod 2 ^ 64\<rparr>"
  have p: "persist_keys env io' s' = (Inr (), s1)" using assms(4) k by (simp add: revoke_key_def s'_def)
  have "revoked env key_id s1"
    by (rule persist_keys_revoked[OF assms(1) _ _ _ p, of _ "k\<lparr>ak_disabled := True\<rparr>"])
      (use filed keys_filed_map_of[OF filed k] in \<open>simp_all add: s'_def update_conv' keys_filed_update\<close>)
  then have r: "revoked env key_id s2" using revoked_run[OF assms(1,5)] by blast
  then have "get_enabled s2 key_id = None" by (auto simp: revoked_def get_enabled_def)
  then show ?thesis using revoked_not_authenticated[OF r] by blast
qed

text \<open>C36: what a grant covers. Apart from \<open>*\<close>, a non-empty prefix covers exactly the topics whose name, as
  words and separators, begins with those of the prefix. So a grant never ends inside a word: it
  covers no topic whose first word is another one, as that of another tenant that merely begins
  with the same letters.\<close>

theorem acl_covers_whole_words:
  "(prefix_matches p topic \<longleftrightarrow> p = ''*'' \<or> p \<noteq> [] \<and> prefix (name_tokens p) (name_tokens topic)) \<and>
   (p \<noteq> ''*'' \<and> prefix_matches p topic \<longrightarrow> hd (name_tokens topic) = hd (name_tokens p))"
proof (cases "p = ''*''")
  case True
  then show ?thesis by (simp add: prefix_matches_def)
next
  case False
  have "hd (name_tokens topic) = hd (name_tokens p)" if "p \<noteq> []" "prefix (name_tokens p) (name_tokens topic)"
    using that by (cases p) (auto simp: prefix_def)
  then show ?thesis using prefix_matches_tokens[OF False] False by blast
qed

theorem acl_covers_whole_words_witness:
  "prefix_matches ''orders'' ''orders.eu'' \<and> hd (name_tokens ''orders.eu'') = ''orders'' \<and> \<not> prefix_matches ''orders'' ''ordersarchive''"
proof -
  have m: "prefix_matches ''orders'' ''orders.eu''" "name_tokens ''orders'' = [''orders'']" "name_tokens ''ordersarchive'' = [''ordersarchive'']"
    by code_simp+
  then have "\<not> prefix_matches ''orders'' ''ordersarchive''" using acl_covers_whole_words[of "''orders''" "''ordersarchive''"] by simp
  then show ?thesis using acl_covers_whole_words[of "''orders''" "''orders.eu''"] m by auto
qed

text \<open>C38: the produce rate is kept. Whatever requests a key makes from the moment its bucket starts
  full, the bytes it is granted up to any later time are at most one second's budget plus the rate times
  the time passed.\<close>

theorem produce_rate_bounded:
  assumes "map_of (ks_limiters s) key_id = Some (make_limiters start k)" "ak_produce_bytes_per_sec k = Some rate" "0 < rate"
    and "sorted (map fst reqs)" "\<forall>(t, n) \<in> set reqs. start \<le> t \<and> t \<le> until" "start \<le> until"
  shows "real (granted key_id reqs s) \<le> real rate * (1 + (until - start))"
proof -
  let ?b = "bucket_new start rate"
  have b: "bk_rate ?b = real rate" "bk_tokens ?b = real rate" "bk_last ?b = start" by (simp_all add: bucket_new_def)
  have "kl_produce (make_limiters start k) = Some ?b" using assms(2,3) by (simp add: make_limiters_def)
  from granted_bound[OF assms(1) this _ _ assms(4), of until] show ?thesis
    using assms(5,6) unfolding b by (simp add: algebra_simps)
qed

theorem produce_rate_bounded_witness:
  "let k = ANONYMOUS_ADMIN\<lparr>ak_produce_bytes_per_sec := Some 100\<rparr>;
       s = \<lparr>ks_keys = [], ks_by_hash = [], ks_limiters = [(''k'', make_limiters 0 k)], ks_revocations = 0, ks_file = None, ks_bootstrap = None\<rparr>
   in real (granted ''k'' [(0, 100), (0, 1), (1, 100)] s) \<le> real 100 * (1 + (1 - 0))"
proof -
  define k where "k = ANONYMOUS_ADMIN\<lparr>ak_produce_bytes_per_sec := Some 100\<rparr>"
  define s where "s = \<lparr>ks_keys = [], ks_by_hash = [], ks_limiters = [(''k'', make_limiters 0 k)], ks_revocations = 0, ks_file = None, ks_bootstrap = None\<rparr>"
  have "map_of (ks_limiters s) ''k'' = Some (make_limiters 0 k)" "ak_produce_bytes_per_sec k = Some 100" by (simp_all add: s_def k_def)
  from produce_rate_bounded[OF this, of "[(0, 100), (0, 1), (1, 100)]" 1] show ?thesis by (simp add: s_def k_def Let_def)
qed

text \<open>A JSON library that numbers the values, and a store that starts with one administrator.\<close>

definition key_tuple :: "persisted_key \<Rightarrow> string \<times> string \<times> string \<times> (string \<times> string) list \<times> nat option \<times> nat option \<times> int \<times> bool" where
  "key_tuple k = (pk_key_id k, pk_name k, pk_secret_sha256_hex k, pk_acls k, pk_produce_bytes_per_sec k, pk_consume_bytes_per_sec k,
     pk_created_at_ms k, pk_disabled k)"

definition tuple_key :: "string \<times> string \<times> string \<times> (string \<times> string) list \<times> nat option \<times> nat option \<times> int \<times> bool \<Rightarrow> persisted_key" where
  "tuple_key x = (case x of (i, n, h, a, p, c, t, d) \<Rightarrow>
     \<lparr>pk_key_id = i, pk_name = n, pk_secret_sha256_hex = h, pk_acls = a, pk_produce_bytes_per_sec = p, pk_consume_bytes_per_sec = c,
      pk_created_at_ms = t, pk_disabled = d\<rparr>)"

definition sample_key_env :: key_env where
  "sample_key_env = \<lparr>ke_sha256 = (\<lambda>x. replicate 32 (word_of_nat (length x))), ke_base64 = (\<lambda>bs. map (\<lambda>b. char_of (unat b)) bs),
     ke_to_json = (\<lambda>ks. replicate (to_nat (map key_tuple ks)) 0), ke_from_json = (\<lambda>bs. Some (map tuple_key (from_nat (length bs))))\<rparr>"

lemma sample_key_env_ok: "key_env_ok sample_key_env"
proof -
  have "tuple_key (key_tuple k) = k" for k by (simp add: tuple_key_def key_tuple_def)
  then show ?thesis by (simp add: key_env_ok_def sample_key_env_def comp_def)
qed

lemma bootstrap_open:
  "\<exists>s k. keys_open env now now_ms random AtomicDone True True None = (Inr (Some (new_secret env random)), s) \<and>
     map_of (ks_keys s) (new_key_id env random) = Some k"
  by (simp add: keys_open_def create_key_def BOOTSTRAP_REQUEST_def validate_prefix_def persist_keys_def replace_file_def Let_def)

theorem revocation_is_permanent_witness:
  "\<exists>s0 s1 i. key_env_ok sample_key_env \<and>
     keys_open sample_key_env 0 0 [7] AtomicDone True True None = (Inr (Some (new_secret sample_key_env [7])), s0) \<and>
     revoke_key sample_key_env AtomicDone i s0 = (Inr (), s1) \<and> get_enabled s1 i = None"
proof -
  define i where "i = new_key_id sample_key_env [7]"
  obtain s0 k where s0: "keys_open sample_key_env 0 0 [7] AtomicDone True True None = (Inr (Some (new_secret sample_key_env [7])), s0)"
    "map_of (ks_keys s0) i = Some k" using bootstrap_open[of sample_key_env 0 0 "[7]"] unfolding i_def by blast
  define s1 where "s1 = snd (revoke_key sample_key_env AtomicDone i s0)"
  have r: "revoke_key sample_key_env AtomicDone i s0 = (Inr (), s1)"
    by (simp add: s1_def revoke_key_def s0(2) persist_keys_def replace_file_def Let_def)
  show ?thesis
    using revocation_is_permanent[OF sample_key_env_ok s0(1) rtranclp.rtrancl_refl r rtranclp.rtrancl_refl] s0(1) r sample_key_env_ok
    by blast
qed

text \<open>The ids of keys are 48 bits of a hash, and a new key is filed without looking whether its id is
  taken: if it is, secrets of the old key, revoked or not, are then authenticated as the new one.\<close>

lemma key_id_collision_revives:
  assumes "map_of (ks_by_hash s) (ke_sha256 env old) = Some (new_key_id env random)" "ke_sha256 env old \<noteq> ke_sha256 env (new_secret env random)"
    and "create_key env now now_ms random io req s = (Inr (k, secret), s')"
  shows "authenticate env s' old = Some k"
proof -
  have "ks_keys s' = AList.update (new_key_id env random) k (ks_keys s)" "\<not> ak_disabled k"
    "ks_by_hash s' = AList.update (ke_sha256 env (new_secret env random)) (new_key_id env random) (ks_by_hash s)"
    using assms(3) by (auto simp: create_key_def persist_keys_def Let_def split: if_splits prod.splits sum.splits)
  then show ?thesis using assms(1,2) by (simp add: authenticate_def update_conv')
qed

text \<open>C37: keys survive a restart. The file written by the last successful change, loaded again, gives a
  store that authenticates the same secrets as the same keys, with the same rules.\<close>

theorem keys_survive_restart:
  assumes "key_env_ok env" "store_ok s" "ks_keys s \<noteq> []" "persist_keys env io s = (Inr (), s1)"
  shows "\<exists>s2. keys_open env now now_ms random io' w auth (ks_file s1) = (Inr None, s2) \<and>
    (\<forall>secret. authenticate env s2 secret = authenticate env s secret) \<and> (\<forall>i. map_of (ks_keys s2) i = map_of (ks_keys s) i)"
proof -
  let ?pks = "map (\<lambda>(i, k). persist_key s k) (ks_keys s)"
  have f: "ks_file s1 = Some (ke_to_json env ?pks)"
    using assms(4) by (auto simp: persist_keys_def replace_file_def Let_def split: atomic_io.splits)
  define q where "q = \<lparr>ks_keys = [], ks_by_hash = [], ks_limiters = [], ks_revocations = 0, ks_file = ks_file s1, ks_bootstrap = None\<rparr>"
  have "distinct (map fst (ks_keys s))" using assms(2) by (simp add: store_ok_def keys_filed_def)
  then obtain s2 where s2: "load_keys now ?pks q = Inr s2"
    "\<forall>i. map_of (ks_keys s2) i = (case map_of (ks_keys s) i of Some k \<Rightarrow> Some k | None \<Rightarrow> map_of (ks_keys q) i)"
    "\<forall>h. map_of (ks_by_hash s2) h = (case map_of (ks_by_hash s) h of
        Some i \<Rightarrow> if i \<in> fst ` set (ks_keys s) then Some i else map_of (ks_by_hash q) h | None \<Rightarrow> map_of (ks_by_hash q) h)"
    using load_persisted_keys[OF assms(2) order_refl, of now q] by blast
  have keys: "map_of (ks_keys s2) i = map_of (ks_keys s) i" for i
    using s2(2)[rule_format, of i] by (simp add: q_def split: option.split)
  have "i \<in> fst ` set (ks_keys s)" if "map_of (ks_by_hash s) h = Some i" for h i
    using imageI[OF map_of_SomeD[OF that], of snd] assms(2) by (simp add: store_ok_def)
  then have hash: "map_of (ks_by_hash s2) h = map_of (ks_by_hash s) h" for h
    using s2(3)[rule_format, of h] by (auto simp: q_def split: option.split)
  have "map_of (ks_keys s) (fst (hd (ks_keys s))) \<noteq> None" using assms(3) by (cases "ks_keys s") auto
  then have "ks_keys s2 \<noteq> []" unfolding keys[symmetric] by auto
  then have "keys_open env now now_ms random io' w auth (ks_file s1) = (Inr None, s2)"
    using assms(1) s2(1) unfolding keys_open_def Let_def q_def[symmetric] by (simp add: f key_env_ok_def)
  moreover have "authenticate env s2 secret = authenticate env s secret" for secret unfolding authenticate_def keys hash ..
  ultimately show ?thesis using keys by blast
qed

theorem keys_survive_restart_witness:
  "\<exists>s1 s2. let k = ANONYMOUS_ADMIN\<lparr>ak_disabled := True\<rparr>;
     s = \<lparr>ks_keys = [(''anonymous'', k)], ks_by_hash = [(replicate 32 1, ''anonymous'')], ks_limiters = [], ks_revocations = 0, ks_file = None, ks_bootstrap = None\<rparr>
   in store_ok s \<and> persist_keys sample_key_env AtomicDone s = (Inr (), s1) \<and>
      keys_open sample_key_env 0 0 [] AtomicDone True True (ks_file s1) = (Inr None, s2) \<and> map_of (ks_keys s2) ''anonymous'' = Some k"
proof -
  define k where "k = ANONYMOUS_ADMIN\<lparr>ak_disabled := True\<rparr>"
  define s where "s = \<lparr>ks_keys = [(''anonymous'', k)], ks_by_hash = [(replicate 32 1, ''anonymous'')], ks_limiters = [], ks_revocations = 0, ks_file = None, ks_bootstrap = None\<rparr>"
  define s1 where "s1 = snd (persist_keys sample_key_env AtomicDone s)"
  have ok: "store_ok s" "ks_keys s \<noteq> []" "map_of (ks_keys s) ''anonymous'' = Some k"
    by (simp_all add: store_ok_def s_def keys_filed_def k_def ANONYMOUS_ADMIN_def)
  have p: "persist_keys sample_key_env AtomicDone s = (Inr (), s1)" by (simp add: s1_def persist_keys_def replace_file_def Let_def)
  obtain s2 where "keys_open sample_key_env 0 0 [] AtomicDone True True (ks_file s1) = (Inr None, s2)" "map_of (ks_keys s2) ''anonymous'' = Some k"
    using keys_survive_restart[OF sample_key_env_ok ok(1,2) p, of 0 0 "[]" AtomicDone True True] ok(3) by metis
  then show ?thesis using ok(1) p unfolding Let_def s_def k_def by blast
qed

end
