(* ===== verification/Topics.thy ===== *)
theory Topics
  imports Access_Keys Raft_Local "HOL-Library.Word" "HOL-Library.List_Lexorder" "HOL-Library.Char_ord"
begin

text \<open>
  Configuration (\<open>config.rs\<close>), topics (\<open>topic.rs\<close>) and what the broker does with their directories
  (\<open>broker.rs\<close>): validation, the resolution of a topic's settings, routing of records to partitions, and
  the creation and removal of topic directories, which a crash may interrupt at any step, losing
  what was not synced.

  Partitions are handles of a type \<open>'p\<close>; opening one is a parameter. Paths are names below the topics
  directory. Durations and ports that no code here looks at are left out.
\<close>

unbundle bit_operations_syntax

section \<open>Settings\<close>

datatype cleanup_policy = CpDelete | CpCompact | CpCompactDelete

definition includes_delete :: "cleanup_policy \<Rightarrow> bool" where
  "includes_delete p \<longleftrightarrow> p = CpDelete \<or> p = CpCompactDelete"

definition includes_compact :: "cleanup_policy \<Rightarrow> bool" where
  "includes_compact p \<longleftrightarrow> p = CpCompact \<or> p = CpCompactDelete"

fun policy_str :: "cleanup_policy \<Rightarrow> string" where
  "policy_str CpDelete = ''delete''"
| "policy_str CpCompact = ''compact''"
| "policy_str CpCompactDelete = ''compact,delete''"

definition policy_from_str :: "string \<Rightarrow> cleanup_policy option" where
  "policy_from_str s =
     (if s = ''delete'' then Some CpDelete else if s = ''compact'' then Some CpCompact
      else if s = ''compact,delete'' then Some CpCompactDelete else None)"

type_synonym socket_addr = "string \<times> nat"

record config =
  cf_bind :: socket_addr
  cf_segment_bytes :: nat
  cf_default_tombstone_retention_ms :: nat
  cf_default_retention_ms :: "nat option"
  cf_default_retention_bytes :: "nat option"
  cf_default_cleanup_policy :: cleanup_policy
  cf_auth_mode :: auth_mode
  cf_flush_every_records :: nat
  cf_max_record_bytes :: nat
  cf_max_fetch_bytes :: nat
  cf_max_fetch_records :: nat
  cf_allowed_hosts :: "string list"
  cf_allow_remote_unauthenticated :: bool
  cf_raft_node_id :: "nat option"
  cf_raft_bind :: "socket_addr option"
  cf_raft_peer_addrs :: "(nat \<times> socket_addr) list"
  cf_raft_shared_secret :: "string option"

definition config_new :: "socket_addr \<Rightarrow> nat \<Rightarrow> config" where
  "config_new bind segment_bytes =
     \<lparr>cf_bind = bind, cf_segment_bytes = segment_bytes, cf_default_tombstone_retention_ms = 24 * 60 * 60 * 1000,
      cf_default_retention_ms = None, cf_default_retention_bytes = None, cf_default_cleanup_policy = CpDelete,
      cf_auth_mode = Disabled, cf_flush_every_records = 1, cf_max_record_bytes = 8 * 1024 * 1024,
      cf_max_fetch_bytes = 8 * 1024 * 1024, cf_max_fetch_records = 10000, cf_allowed_hosts = [],
      cf_allow_remote_unauthenticated = False, cf_raft_node_id = None, cf_raft_bind = None, cf_raft_peer_addrs = [],
      cf_raft_shared_secret = None\<rparr>"

definition validate_limits :: "config \<Rightarrow> bool" where
  "validate_limits c \<longleftrightarrow>
     (let cap = 32 * 1024 * 1024
      in cf_max_record_bytes c \<noteq> 0 \<and> cf_max_record_bytes c \<le> cap \<and> cf_max_fetch_bytes c \<noteq> 0 \<and> cf_max_fetch_bytes c \<le> cap)"

datatype raft_config_error = NoRaftBind | NoRaftNodeId | PeersWithoutNodeId | NodeIdZero | OwnPeer | PeerAtBind | PeersShareAddress

definition validate_raft :: "config \<Rightarrow> raft_config_error option" where
  "validate_raft c =
     (case (cf_raft_node_id c, cf_raft_bind c) of
        (Some _, None) \<Rightarrow> Some NoRaftBind
      | (None, Some _) \<Rightarrow> Some NoRaftNodeId
      | (None, None) \<Rightarrow> if cf_raft_peer_addrs c \<noteq> [] then Some PeersWithoutNodeId else None
      | (Some node_id, Some bind) \<Rightarrow>
          if node_id = 0 then Some NodeIdZero
          else if node_id \<in> fst ` set (cf_raft_peer_addrs c) then Some OwnPeer
          else if list_ex (\<lambda>(peer, addr). addr = bind) (cf_raft_peer_addrs c) then Some PeerAtBind
          else if \<not> distinct (map snd (cf_raft_peer_addrs c)) then Some PeersShareAddress
          else None)"


section \<open>Settings of a topic\<close>

record topic_config =
  tc_retention_ms :: "nat option"
  tc_retention_bytes :: "nat option"
  tc_cleanup_policy :: cleanup_policy
  tc_segment_bytes :: nat
  tc_tombstone_retention_ms :: nat

record topic_patch =
  tp_retention_ms :: "nat option"
  tp_retention_bytes :: "nat option"
  tp_cleanup_policy :: "cleanup_policy option"
  tp_segment_bytes :: "nat option"
  tp_tombstone_retention_ms :: "nat option"

record persisted_raft_config =
  rc_node_id :: nat
  rc_peers :: "nat list"
  rc_snapshot_after_applies :: nat

record persisted_topic_config =
  pc_retention_ms :: "nat option"
  pc_retention_bytes :: "nat option"
  pc_cleanup_policy :: "string option"
  pc_segment_bytes :: "nat option"
  pc_tombstone_retention_ms :: "nat option"
  pc_raft :: "persisted_raft_config option"

definition empty_topic_config :: persisted_topic_config where
  "empty_topic_config = \<lparr>pc_retention_ms = None, pc_retention_bytes = None, pc_cleanup_policy = None, pc_segment_bytes = None,
     pc_tombstone_retention_ms = None, pc_raft = None\<rparr>"

definition from_patch :: "topic_patch \<Rightarrow> persisted_topic_config" where
  "from_patch p = \<lparr>pc_retention_ms = tp_retention_ms p, pc_retention_bytes = tp_retention_bytes p,
     pc_cleanup_policy = map_option policy_str (tp_cleanup_policy p), pc_segment_bytes = tp_segment_bytes p,
     pc_tombstone_retention_ms = tp_tombstone_retention_ms p, pc_raft = None\<rparr>"

definition or_else :: "'a option \<Rightarrow> 'a option \<Rightarrow> 'a option" where
  "or_else a b = (case a of Some _ \<Rightarrow> a | None \<Rightarrow> b)"

definition merge_patch :: "topic_patch \<Rightarrow> persisted_topic_config \<Rightarrow> persisted_topic_config" where
  "merge_patch p c =
     c\<lparr>pc_retention_ms := or_else (tp_retention_ms p) (pc_retention_ms c),
       pc_retention_bytes := or_else (tp_retention_bytes p) (pc_retention_bytes c),
       pc_cleanup_policy := or_else (map_option policy_str (tp_cleanup_policy p)) (pc_cleanup_policy c),
       pc_segment_bytes := or_else (tp_segment_bytes p) (pc_segment_bytes c),
       pc_tombstone_retention_ms := or_else (tp_tombstone_retention_ms p) (pc_tombstone_retention_ms c)\<rparr>"

definition DEFAULT_SNAPSHOT_AFTER_APPLIES :: nat where "DEFAULT_SNAPSHOT_AFTER_APPLIES = 1024"

record raft_config =
  rf_node_id :: nat
  rf_peers :: "nat list"
  rf_store_dir :: string
  rf_snapshot_after_applies :: nat
  rf_bind :: "socket_addr option"
  rf_peer_addrs :: "(nat \<times> socket_addr) list"
  rf_shared_secret :: "string option"

definition resolve_raft :: "config \<Rightarrow> string \<Rightarrow> persisted_topic_config \<Rightarrow> raft_config option" where
  "resolve_raft broker topic_name c =
     (case cf_raft_node_id broker of
        Some node_id \<Rightarrow>
          Some \<lparr>rf_node_id = node_id, rf_peers = map fst (cf_raft_peer_addrs broker), rf_store_dir = topic_name,
            rf_snapshot_after_applies =
              (case pc_raft c of
                 Some rc \<Rightarrow> if rc_snapshot_after_applies rc > 0 then rc_snapshot_after_applies rc else DEFAULT_SNAPSHOT_AFTER_APPLIES
               | None \<Rightarrow> DEFAULT_SNAPSHOT_AFTER_APPLIES),
            rf_bind = cf_raft_bind broker, rf_peer_addrs = cf_raft_peer_addrs broker, rf_shared_secret = cf_raft_shared_secret broker\<rparr>
      | None \<Rightarrow>
          map_option (\<lambda>rc.
            \<lparr>rf_node_id = rc_node_id rc, rf_peers = rc_peers rc, rf_store_dir = topic_name,
             rf_snapshot_after_applies = max (rc_snapshot_after_applies rc) 1, rf_bind = None, rf_peer_addrs = [],
             rf_shared_secret = cf_raft_shared_secret broker\<rparr>) (pc_raft c))"

definition resolve :: "config \<Rightarrow> persisted_topic_config \<Rightarrow> topic_config option" where
  "resolve broker c =
     (case (case pc_cleanup_policy c of None \<Rightarrow> Some (cf_default_cleanup_policy broker) | Some s \<Rightarrow> policy_from_str s) of
        None \<Rightarrow> None
      | Some pol \<Rightarrow>
          Some \<lparr>tc_retention_ms = or_else (pc_retention_ms c) (cf_default_retention_ms broker),
            tc_retention_bytes = or_else (pc_retention_bytes c) (cf_default_retention_bytes broker),
            tc_cleanup_policy = pol,
            tc_segment_bytes = (case pc_segment_bytes c of Some n \<Rightarrow> n | None \<Rightarrow> cf_segment_bytes broker),
            tc_tombstone_retention_ms =
              (case pc_tombstone_retention_ms c of Some n \<Rightarrow> n | None \<Rightarrow> cf_default_tombstone_retention_ms broker)\<rparr>)"

definition validate_patch :: "topic_patch \<Rightarrow> bool" where
  "validate_patch p \<longleftrightarrow> (case tp_segment_bytes p of None \<Rightarrow> True | Some sb \<Rightarrow> 128 \<le> sb \<and> sb \<le> 2 ^ 40)"

definition validate_topic_name :: "string \<Rightarrow> bool" where
  "validate_topic_name name \<longleftrightarrow>
     name \<noteq> [] \<and> length name \<le> 200 \<and> list_all name_char name \<and> name \<noteq> ''.'' \<and> name \<noteq> ''..''"


section \<open>Topics\<close>

record 'p topic =
  tp_name :: string
  tp_partitions :: "'p list"
  tp_rr_counter :: nat
  tp_config :: topic_config
  tp_persisted :: persisted_topic_config
  tp_records_produced :: nat
  tp_bytes_produced :: nat
  tp_records_consumed :: nat
  tp_bytes_consumed :: nat

definition fnv1a64 :: "u8 list \<Rightarrow> 64 word" where
  "fnv1a64 bs = fold (\<lambda>b h. (h XOR ucast b) * 0x100000001b3) bs 0xcbf29ce484222325"

datatype route_error = PartitionOutOfRange

definition route :: "u8 list option \<Rightarrow> nat option \<Rightarrow> 'p topic \<Rightarrow> (route_error + nat) \<times> 'p topic" where
  "route key hint t =
     (let n = length (tp_partitions t)
      in case hint of
           Some h \<Rightarrow> if h \<ge> n then (Inl PartitionOutOfRange, t) else (Inr h, t)
         | None \<Rightarrow>
             (case key of
                Some k \<Rightarrow> (Inr (unat (fnv1a64 k) mod n), t)
              | None \<Rightarrow> (Inr (tp_rr_counter t mod n), t\<lparr>tp_rr_counter := (tp_rr_counter t + 1) mod 2 ^ 64\<rparr>)))"

text \<open>The directory of the topics: each topic has one directory per partition and its metadata file.\<close>

record topic_dir =
  td_partitions :: "nat list"
  td_meta :: "u8 list option"

type_synonym topics_root = "(string \<times> topic_dir) list"

record topic_meta =
  tm_partitions :: nat
  tm_config :: persisted_topic_config

record 'p topic_env =
  te_to_json :: "topic_meta \<Rightarrow> u8 list"
  te_from_json :: "u8 list \<Rightarrow> topic_meta option"
  te_open :: "string \<Rightarrow> nat \<Rightarrow> nat \<Rightarrow> nat \<Rightarrow> raft_config option \<Rightarrow> 'p option"
  te_set_segment_bytes :: "nat \<Rightarrow> 'p \<Rightarrow> 'p"

definition MAX_PARTITIONS :: nat where "MAX_PARTITIONS = 10000"
definition CREATING_PREFIX :: string where "CREATING_PREFIX = ''~creating-''"
definition DELETING_PREFIX :: string where "DELETING_PREFIX = ''~deleting-''"

definition hex8 :: "nat \<Rightarrow> string" where
  "hex8 n = hex_encode (be_bytes 4 n)"

definition staging_name :: "string \<Rightarrow> nat \<Rightarrow> string" where
  "staging_name name random = CREATING_PREFIX @ name @ ''-'' @ hex8 random"

definition doomed_name :: "string \<Rightarrow> nat \<Rightarrow> string" where
  "doomed_name name random = DELETING_PREFIX @ name @ ''-'' @ hex8 random"

definition dir_of :: "topics_root \<Rightarrow> string \<Rightarrow> topic_dir" where
  "dir_of dirs name = (case map_of dirs name of Some d \<Rightarrow> d | None \<Rightarrow> \<lparr>td_partitions = [], td_meta = None\<rparr>)"

text \<open>The topics directory as the process sees it, as it was when it was last synced, and the names
  whose contents or removal are not known to be on disk. After a crash such a name may be there with
  anything in it or be gone, and any other name is as the process saw it or as it was synced.\<close>

record topics_fs =
  fs_cur :: topics_root
  fs_stable :: topics_root
  fs_dirty :: "string list"

definition clean_fs :: "topics_root \<Rightarrow> topics_fs" where
  "clean_fs dirs = \<lparr>fs_cur = dirs, fs_stable = dirs, fs_dirty = []\<rparr>"

definition crash_image :: "topics_fs \<Rightarrow> topics_root \<Rightarrow> bool" where
  "crash_image fs d \<longleftrightarrow> distinct (map fst d) \<and>
     (\<forall>x. x \<notin> set (fs_dirty fs) \<longrightarrow> map_of d x = map_of (fs_cur fs) x \<or> map_of d x = map_of (fs_stable fs) x)"

definition change_dir :: "string \<Rightarrow> (topic_dir \<Rightarrow> topic_dir) \<Rightarrow> topics_fs \<Rightarrow> topics_fs" where
  "change_dir x f fs = fs\<lparr>fs_cur := AList.update x (f (dir_of (fs_cur fs) x)) (fs_cur fs), fs_dirty := x # fs_dirty fs\<rparr>"

definition remove_dir_all :: "string \<Rightarrow> topics_fs \<Rightarrow> topics_fs" where
  "remove_dir_all x fs = fs\<lparr>fs_cur := AList.delete x (fs_cur fs), fs_dirty := x # fs_dirty fs\<rparr>"

text \<open>A directory is not renamed over one that is there.\<close>

definition rename_dir :: "string \<Rightarrow> string \<Rightarrow> topics_fs \<Rightarrow> bool \<times> topics_fs" where
  "rename_dir src dst fs =
     (case map_of (fs_cur fs) src of
        None \<Rightarrow> (False, fs)
      | Some d \<Rightarrow>
          if map_of (fs_cur fs) dst \<noteq> None then (False, fs)
          else (True, fs\<lparr>fs_cur := AList.update dst d (AList.delete src (fs_cur fs)),
                         fs_dirty := src # (if src \<in> set (fs_dirty fs) then dst # fs_dirty fs else fs_dirty fs)\<rparr>))"

definition fsync_dir :: "string \<Rightarrow> topics_fs \<Rightarrow> topics_fs" where
  "fsync_dir x fs = fs\<lparr>fs_dirty := removeAll x (fs_dirty fs)\<rparr>"

definition fsync_root :: "topics_fs \<Rightarrow> topics_fs" where
  "fsync_root fs = fs\<lparr>fs_stable := fs_cur fs, fs_dirty := filter (\<lambda>x. map_of (fs_cur fs) x \<noteq> None) (fs_dirty fs)\<rparr>"

datatype topic_error =
  NoPartitions | TooManyPartitions | BadTopicName | BadPatch | TopicExists | UnknownPolicy | TopicIo | MetaParse | PartitionOpen | TopicNotFound | Stopped

text \<open>The calls of \<open>build\<close> on the file system. Between the first check for the topic and the second another
  request may have created it: \<open>rival\<close> is the directory it put there, if any.\<close>

datatype build_step = MakePartition nat | WriteMeta | SyncStaging | CheckExists | RenameStaging | SyncRoot

definition build_steps :: "nat \<Rightarrow> build_step list" where
  "build_steps n = map MakePartition [0..<n] @ [WriteMeta, SyncStaging, CheckExists, RenameStaging, SyncRoot]"

fun run_step :: "topic_dir option \<Rightarrow> string \<Rightarrow> string \<Rightarrow> u8 list \<Rightarrow> build_step \<Rightarrow> topics_fs \<Rightarrow> (topic_error + unit) \<times> topics_fs" where
  "run_step rival staging name meta (MakePartition i) fs = (Inr (), change_dir staging (\<lambda>d. d\<lparr>td_partitions := td_partitions d @ [i]\<rparr>) fs)"
| "run_step rival staging name meta WriteMeta fs = (Inr (), change_dir staging (\<lambda>d. d\<lparr>td_meta := Some meta\<rparr>) fs)"
| "run_step rival staging name meta SyncStaging fs = (Inr (), fsync_dir staging fs)"
| "run_step rival staging name meta CheckExists fs =
     (let fs = (case rival of None \<Rightarrow> fs | Some d \<Rightarrow> fs\<lparr>fs_cur := AList.update name d (fs_cur fs)\<rparr>)
      in if map_of (fs_cur fs) name \<noteq> None then (Inl TopicExists, fs) else (Inr (), fs))"
| "run_step rival staging name meta RenameStaging fs =
     (case rename_dir staging name fs of (ok, fs) \<Rightarrow> if ok then (Inr (), fs) else (Inl TopicIo, fs))"
| "run_step rival staging name meta SyncRoot fs = (Inr (), fsync_root fs)"

fun run_build :: "topic_dir option \<Rightarrow> string \<Rightarrow> string \<Rightarrow> u8 list \<Rightarrow> build_step list \<Rightarrow> topics_fs \<Rightarrow> (topic_error + unit) \<times> topics_fs" where
  "run_build rival staging name meta [] fs = (Inr (), fs)"
| "run_build rival staging name meta (x # xs) fs =
     (case run_step rival staging name meta x fs of
        (Inl e, fs) \<Rightarrow> (Inl e, fs)
      | (Inr _, fs) \<Rightarrow> run_build rival staging name meta xs fs)"

text \<open>What may go wrong: the process stops after so many calls, or the next call fails, and the removal of
  the staging directory that follows may fail too.\<close>

datatype build_io = BuildDone | BuildStops nat | BuildFails nat bool

definition build_topic ::
    "build_io \<Rightarrow> topic_dir option \<Rightarrow> string \<Rightarrow> string \<Rightarrow> nat \<Rightarrow> u8 list \<Rightarrow> topics_fs \<Rightarrow> (topic_error + unit) \<times> topics_fs" where
  "build_topic io rival staging name n meta fs =
     (case io of
        BuildStops k \<Rightarrow> (Inl Stopped, snd (run_build rival staging name meta (take k (build_steps n)) fs))
      | BuildFails k remove_ok \<Rightarrow>
          (case run_build rival staging name meta (take k (build_steps n)) fs of
             (r, fs) \<Rightarrow> ((case r of Inl e \<Rightarrow> Inl e | Inr _ \<Rightarrow> Inl TopicIo), if remove_ok then remove_dir_all staging fs else fs))
      | BuildDone \<Rightarrow>
          (case run_build rival staging name meta (build_steps n) fs of
             (Inl e, fs) \<Rightarrow> (Inl e, remove_dir_all staging fs)
           | (Inr u, fs) \<Rightarrow> (Inr u, fs)))"

definition open_partitions :: "'p topic_env \<Rightarrow> config \<Rightarrow> string \<Rightarrow> nat \<Rightarrow> topic_config \<Rightarrow> raft_config option \<Rightarrow> 'p list option" where
  "open_partitions env broker name n resolved raft_cfg =
     those (map (\<lambda>i. te_open env name i (tc_segment_bytes resolved) (cf_flush_every_records broker) raft_cfg) [0..<n])"

definition new_topic :: "string \<Rightarrow> 'p list \<Rightarrow> topic_config \<Rightarrow> persisted_topic_config \<Rightarrow> 'p topic" where
  "new_topic name parts resolved persisted =
     \<lparr>tp_name = name, tp_partitions = parts, tp_rr_counter = 0, tp_config = resolved, tp_persisted = persisted,
      tp_records_produced = 0, tp_bytes_produced = 0, tp_records_consumed = 0, tp_bytes_consumed = 0\<rparr>"

definition topic_create ::
    "'p topic_env \<Rightarrow> config \<Rightarrow> nat \<Rightarrow> build_io \<Rightarrow> topic_dir option \<Rightarrow> string \<Rightarrow> nat \<Rightarrow> topic_patch option \<Rightarrow> topics_fs \<Rightarrow>
     (topic_error + 'p topic) \<times> topics_fs" where
  "topic_create env broker random io rival name n patch fs =
     (if n = 0 then (Inl NoPartitions, fs)
      else if n > MAX_PARTITIONS then (Inl TooManyPartitions, fs)
      else if \<not> validate_topic_name name then (Inl BadTopicName, fs)
      else if \<not> (case patch of None \<Rightarrow> True | Some p \<Rightarrow> validate_patch p) then (Inl BadPatch, fs)
      else if map_of (fs_cur fs) name \<noteq> None then (Inl TopicExists, fs)
      else
        let persisted = (case patch of None \<Rightarrow> empty_topic_config | Some p \<Rightarrow> from_patch p)
        in case resolve broker persisted of
             None \<Rightarrow> (Inl UnknownPolicy, fs)
           | Some resolved \<Rightarrow>
               let raft_cfg = resolve_raft broker name persisted;
                   meta = te_to_json env \<lparr>tm_partitions = n, tm_config = persisted\<rparr>
               in case build_topic io rival (staging_name name random) name n meta fs of
                    (Inl e, fs) \<Rightarrow> (Inl e, fs)
                  | (Inr _, fs) \<Rightarrow>
                      (case open_partitions env broker name n resolved raft_cfg of
                         None \<Rightarrow> (Inl PartitionOpen, fs)
                       | Some parts \<Rightarrow> (Inr (new_topic name parts resolved persisted), fs)))"

definition topic_open :: "'p topic_env \<Rightarrow> config \<Rightarrow> string \<Rightarrow> topic_dir \<Rightarrow> topic_error + 'p topic" where
  "topic_open env broker name d =
     (case td_meta d of
        None \<Rightarrow> Inl TopicIo
      | Some bs \<Rightarrow>
          (case te_from_json env bs of
             None \<Rightarrow> Inl MetaParse
           | Some meta \<Rightarrow>
               (case resolve broker (tm_config meta) of
                  None \<Rightarrow> Inl UnknownPolicy
                | Some resolved \<Rightarrow>
                    (case open_partitions env broker name (tm_partitions meta) resolved (resolve_raft broker name (tm_config meta)) of
                       None \<Rightarrow> Inl PartitionOpen
                     | Some parts \<Rightarrow> Inr (new_topic name parts resolved (tm_config meta))))))"

definition update_config ::
    "'p topic_env \<Rightarrow> config \<Rightarrow> atomic_io \<Rightarrow> topic_patch \<Rightarrow> topics_root \<Rightarrow> 'p topic \<Rightarrow>
     (topic_error + topic_config) \<times> topics_root \<times> 'p topic" where
  "update_config env broker io patch dirs t =
     (if \<not> validate_patch patch then (Inl BadPatch, dirs, t)
      else
        let persisted = merge_patch patch (tp_persisted t)
        in case resolve broker persisted of
             None \<Rightarrow> (Inl UnknownPolicy, dirs, t)
           | Some resolved \<Rightarrow>
               let meta = te_to_json env \<lparr>tm_partitions = length (tp_partitions t), tm_config = persisted\<rparr>;
                   d = dir_of dirs (tp_name t);
                   (ok, f) = replace_file io meta (td_meta d);
                   dirs = AList.update (tp_name t) (d\<lparr>td_meta := f\<rparr>) dirs
               in if \<not> ok then (Inl TopicIo, dirs, t)
                  else (Inr resolved, dirs,
                    t\<lparr>tp_persisted := persisted, tp_config := resolved,
                      tp_partitions := map (te_set_segment_bytes env (tc_segment_bytes resolved)) (tp_partitions t)\<rparr>))"


section \<open>The broker's topics\<close>

text \<open>The removal of a directory may fail, which is ignored.\<close>

definition sweep_leftover_dirs :: "(string \<Rightarrow> bool) \<Rightarrow> topics_root \<Rightarrow> topics_root" where
  "sweep_leftover_dirs remove_ok dirs =
     filter (\<lambda>(name, _). \<not> ((starts_with name CREATING_PREFIX \<or> starts_with name DELETING_PREFIX) \<and> remove_ok name)) dirs"

text \<open>At startup every directory with a valid name and a metadata file is opened, and a topic that
  does not open stops the start.\<close>

fun open_topics :: "'p topic_env \<Rightarrow> config \<Rightarrow> topics_root \<Rightarrow> (string \<times> 'p topic) list \<Rightarrow> topic_error + (string \<times> 'p topic) list" where
  "open_topics env broker [] acc = Inr acc"
| "open_topics env broker ((name, d) # rest) acc =
     (if \<not> validate_topic_name name \<or> td_meta d = None then open_topics env broker rest acc
      else case topic_open env broker name d of
             Inl e \<Rightarrow> Inl e
           | Inr t \<Rightarrow> open_topics env broker rest (AList.update name t acc))"

definition boot_topics ::
    "'p topic_env \<Rightarrow> config \<Rightarrow> (string \<Rightarrow> bool) \<Rightarrow> topics_root \<Rightarrow> (topic_error + (string \<times> 'p topic) list) \<times> topics_root" where
  "boot_topics env broker remove_ok dirs =
     (let dirs = sweep_leftover_dirs remove_ok dirs in (open_topics env broker dirs [], dirs))"

definition create_topic ::
    "'p topic_env \<Rightarrow> config \<Rightarrow> nat \<Rightarrow> build_io \<Rightarrow> topic_dir option \<Rightarrow> ('p topic \<Rightarrow> bool) \<Rightarrow> bool \<Rightarrow> string \<Rightarrow> nat \<Rightarrow> topic_patch option \<Rightarrow>
     (string \<times> 'p topic) list \<Rightarrow> topics_fs \<Rightarrow> (topic_error + 'p topic) \<times> (string \<times> 'p topic) list \<times> topics_fs" where
  "create_topic env broker random io rival attach remove_ok name n patch topics fs =
     (if map_of topics name \<noteq> None then (Inl TopicExists, topics, fs)
      else case topic_create env broker random io rival name n patch fs of
             (Inl e, fs) \<Rightarrow> (Inl e, topics, fs)
           | (Inr t, fs) \<Rightarrow>
               if \<not> attach t then (Inl TopicIo, topics, if remove_ok then remove_dir_all name fs else fs)
               else (Inr t, AList.update name t topics, fs))"

text \<open>Removal, in the topics directory and in that of the Raft logs: the directory is renamed away, the
  rename synced, then the directory deleted; whether each of the three works is an input.\<close>

definition delete_dir :: "nat \<Rightarrow> bool \<times> bool \<times> bool \<Rightarrow> string \<Rightarrow> topics_fs \<Rightarrow> topics_fs" where
  "delete_dir random io name fs =
     (case io of (rename_ok, sync_ok, remove_ok) \<Rightarrow>
        if map_of (fs_cur fs) name = None \<or> \<not> rename_ok then fs
        else let doomed = doomed_name name random
             in case rename_dir name doomed fs of
                  (False, fs) \<Rightarrow> fs
                | (True, fs) \<Rightarrow>
                    let fs = (if sync_ok then fsync_root fs else fs)
                    in if remove_ok then remove_dir_all doomed fs else fs)"

definition delete_topic ::
    "nat \<times> nat \<Rightarrow> (bool \<times> bool \<times> bool) \<times> (bool \<times> bool \<times> bool) \<Rightarrow> string \<Rightarrow> (string \<times> 'p topic) list \<Rightarrow> topics_fs \<times> topics_fs \<Rightarrow>
     (topic_error + 'p topic) \<times> (string \<times> 'p topic) list \<times> topics_fs \<times> topics_fs" where
  "delete_topic random io name topics roots =
     (case map_of topics name of
        None \<Rightarrow> (Inl TopicNotFound, topics, roots)
      | Some t \<Rightarrow>
          (Inr t, AList.delete name topics,
           delete_dir (fst random) (fst io) name (fst roots), delete_dir (snd random) (snd io) name (snd roots)))"

definition list_topics :: "(string \<times> 'p topic) list \<Rightarrow> string list" where
  "list_topics topics = sort (map fst topics)"


section \<open>Names\<close>

lemma valid_name_chars:
  "validate_topic_name name \<Longrightarrow> CHR ''/'' \<notin> set name \<and> CHR 0x00 \<notin> set name \<and> CHR ''~'' \<notin> set name"
  by (auto simp: validate_topic_name_def list_all_iff name_char_def ascii_alphanumeric_def)

lemma valid_name_not_swept: "validate_topic_name name \<Longrightarrow> \<not> starts_with name CREATING_PREFIX \<and> \<not> starts_with name DELETING_PREFIX"
  using valid_name_chars[of name] by (auto simp: starts_with_iff CREATING_PREFIX_def DELETING_PREFIX_def)

lemma temporary_names_swept: "starts_with (staging_name name r) CREATING_PREFIX" "starts_with (doomed_name name r) DELETING_PREFIX"
  by (auto simp: starts_with_iff staging_name_def doomed_name_def)

lemma staging_name_not_valid: "validate_topic_name name \<Longrightarrow> staging_name x r \<noteq> name \<and> doomed_name x r \<noteq> name"
  using valid_name_not_swept[of name] temporary_names_swept by blast

lemma validate_raft_members:
  assumes "validate_raft c = None" "cf_raft_node_id c = Some me" "me < 2 ^ 32" "distinct (map fst (cf_raft_peer_addrs c))"
    and "\<forall>p \<in> fst ` set (cf_raft_peer_addrs c). p < 2 ^ 32" "resolve_raft c name pc = Some rc"
  shows "members_ok (rf_node_id rc) (rf_peers rc) \<and> rf_node_id rc \<noteq> 0 \<and> rf_peers rc = map fst (rf_peer_addrs rc)"
  using assms by (auto simp: validate_raft_def resolve_raft_def members_ok_def split: option.splits if_splits)


section \<open>Routing\<close>

lemma route_range: "tp_partitions t \<noteq> [] \<Longrightarrow> route key hint t = (Inr p, t') \<Longrightarrow> p < length (tp_partitions t)"
  by (auto simp: route_def Let_def split: option.splits if_splits)

lemma route_partitions: "route key hint t = (r, t') \<Longrightarrow> tp_partitions t' = tp_partitions t \<and> tp_name t' = tp_name t"
  by (auto simp: route_def Let_def split: option.splits if_splits)

text \<open>The hash over natural numbers, reduced modulo \<open>2\<^sup>6\<^sup>4\<close> at each byte.\<close>

fun fnv1a_nat :: "nat \<Rightarrow> u8 list \<Rightarrow> nat" where
  "fnv1a_nat h [] = h"
| "fnv1a_nat h (b # bs) = fnv1a_nat ((h XOR unat b) * 1099511628211 mod 2 ^ 64) bs"

lemma fnv1a_step: "unat ((h XOR ucast (b :: u8)) * 0x100000001b3 :: 64 word) = (unat h XOR unat b) * 1099511628211 mod 2 ^ 64"
proof -
  have "unat (ucast b :: 64 word) = unat b" using less_trans[OF unat_u8_less[of b], of "2 ^ 64"] by (simp add: unsigned_ucast_eq take_bit_nat_def mod_less)
  then show ?thesis by (simp add: unat_word_ariths(2) unsigned_xor_eq)
qed

lemma fnv1a64_nat: "unat (fnv1a64 bs) = fnv1a_nat 14695981039346656037 bs"
proof -
  have "unat (fold (\<lambda>b h. (h XOR ucast b) * 0x100000001b3) bs (h :: 64 word)) = fnv1a_nat (unat h) bs" for h
  proof (induction bs arbitrary: h)
    case (Cons b bs)
    show ?case using Cons.IH[of "(h XOR ucast b) * 0x100000001b3"] unfolding fnv1a_step by simp
  qed simp
  then show ?thesis by (simp add: fnv1a64_def)
qed

lemma fnv1a_vectors:
  "fnv1a64 [] = 0xcbf29ce484222325" "fnv1a64 [0x61] = 0xaf63dc4c8601ec8c" "fnv1a64 [0x66, 0x6f, 0x6f, 0x62, 0x61, 0x72] = 0x85944171f73967e8"
  by (simp_all add: fnv1a64_def)

fun route_all :: "nat \<Rightarrow> 'p topic \<Rightarrow> nat list" where
  "route_all 0 t = []"
| "route_all (Suc k) t = (case route None None t of (Inr p, t') \<Rightarrow> p # route_all k t' | (Inl _, t') \<Rightarrow> route_all k t')"

lemma route_all_eq:
  "tp_rr_counter t + k < 2 ^ 64 \<Longrightarrow> route_all k t = map (\<lambda>i. i mod length (tp_partitions t)) [tp_rr_counter t..<tp_rr_counter t + k]"
proof (induction k arbitrary: t)
  case (Suc k)
  let ?t = "t\<lparr>tp_rr_counter := (tp_rr_counter t + 1) mod 2 ^ 64\<rparr>"
  have c: "tp_rr_counter ?t = Suc (tp_rr_counter t)" using Suc.prems by simp
  have "route_all k ?t = map (\<lambda>i. i mod length (tp_partitions t)) [Suc (tp_rr_counter t)..<Suc (tp_rr_counter t) + k]"
    using Suc.IH[of ?t] Suc.prems unfolding c by simp
  moreover have "[tp_rr_counter t..<tp_rr_counter t + Suc k] = tp_rr_counter t # [Suc (tp_rr_counter t)..<Suc (tp_rr_counter t) + k]"
    by (subst upt_conv_Cons) simp_all
  ultimately show ?case by (simp add: route_def Let_def del: upt_Suc)
qed simp

lemma mod_window: "0 < n \<Longrightarrow> (\<lambda>i. i mod n) ` {c..<c + n} = {0..<n :: nat}"
proof (intro set_eqI iffI)
  fix x assume n: "0 < n" and x: "x \<in> {0..<n}"
  define d where "d = (x + n - c mod n) mod n"
  have "(c + d) mod n = (c mod n + (x + n - c mod n)) mod n" unfolding d_def by (simp add: mod_simps)
  also have "c mod n + (x + n - c mod n) = x + n" using mod_less_divisor[OF n, of c] by linarith
  also have "(x + n) mod n = x" using x by simp
  finally show "x \<in> (\<lambda>i. i mod n) ` {c..<c + n}" using n by (intro image_eqI[of _ _ "c + d"]) (auto simp: d_def)
qed auto


section \<open>Directories\<close>

lemma map_of_filter_key: "map_of (filter (\<lambda>(k, _). P k) xs) x = (if P x then map_of xs x else None)"
  by (induction xs) auto

text \<open>What \<open>open_topics\<close> finds under a name.\<close>

definition opened :: "'p topic_env \<Rightarrow> config \<Rightarrow> topics_root \<Rightarrow> string \<Rightarrow> (topic_error + 'p topic) option" where
  "opened env broker dirs x =
     (case map_of dirs x of
        None \<Rightarrow> None
      | Some d \<Rightarrow> if validate_topic_name x \<and> td_meta d \<noteq> None then Some (topic_open env broker x d) else None)"

lemma opened_Cons:
  "opened env broker ((k, d) # dirs) x =
     (if x = k then (if validate_topic_name k \<and> td_meta d \<noteq> None then Some (topic_open env broker k d) else None)
      else opened env broker dirs x)"
  by (auto simp: opened_def)

lemma open_topics_ok:
  "distinct (map fst dirs) \<Longrightarrow> (\<forall>x e. opened env broker dirs x \<noteq> Some (Inl e)) \<Longrightarrow>
   \<exists>ts. open_topics env broker dirs acc = Inr ts \<and>
     (\<forall>x. map_of ts x = (case opened env broker dirs x of Some (Inr t) \<Rightarrow> Some t | _ \<Rightarrow> map_of acc x))"
proof (induction dirs arbitrary: acc)
  case Nil
  then show ?case by (simp add: opened_def)
next
  case (Cons kd dirs)
  obtain k d where kd: "kd = (k, d)" by (cases kd)
  have k: "opened env broker dirs k = None" using Cons.prems(1) map_of_eq_None_iff[of dirs k] by (auto simp: kd opened_def split: option.splits)
  have ok: "\<forall>x e. opened env broker dirs x \<noteq> Some (Inl e)"
    using Cons.prems(2) k unfolding kd opened_Cons by (metis option.distinct(1))
  show ?case
  proof (cases "validate_topic_name k \<and> td_meta d \<noteq> None")
    case True
    then obtain t where t: "topic_open env broker k d = Inr t"
      using Cons.prems(2)[rule_format, of k] by (cases "topic_open env broker k d") (auto simp: kd opened_Cons)
    obtain ts where "open_topics env broker dirs (AList.update k t acc) = Inr ts"
      "\<forall>x. map_of ts x = (case opened env broker dirs x of Some (Inr t) \<Rightarrow> Some t | _ \<Rightarrow> map_of (AList.update k t acc) x)"
      using Cons.IH[OF _ ok, of "AList.update k t acc"] Cons.prems(1) by auto
    then show ?thesis using True t k by (auto simp: kd opened_Cons update_conv' split: option.splits sum.splits)
  next
    case False
    then have "opened env broker (kd # dirs) = opened env broker dirs" "open_topics env broker (kd # dirs) acc = open_topics env broker dirs acc"
      using k by (auto simp: kd opened_Cons fun_eq_iff)
    then show ?thesis using Cons.IH[OF _ ok, of acc] Cons.prems(1) by simp
  qed
qed

lemma open_topics_opens: "open_topics env broker dirs acc = Inr ts \<Longrightarrow> distinct (map fst dirs) \<Longrightarrow> opened env broker dirs x \<noteq> Some (Inl e)"
proof (induction dirs arbitrary: acc)
  case (Cons kd dirs)
  then show ?case by (cases kd) (auto simp: opened_Cons split: if_splits sum.splits)
qed (simp add: opened_def)

lemma opened_sweep: "opened env broker (sweep_leftover_dirs remove_ok dirs) = opened env broker dirs"
proof
  fix x
  show "opened env broker (sweep_leftover_dirs remove_ok dirs) x = opened env broker dirs x"
    using valid_name_not_swept[of x] by (auto simp: opened_def sweep_leftover_dirs_def map_of_filter_key split: option.splits)
qed

lemma distinct_sweep: "distinct (map fst dirs) \<Longrightarrow> distinct (map fst (sweep_leftover_dirs remove_ok dirs))"
  unfolding sweep_leftover_dirs_def by (induction dirs) auto

lemma boot_topics_ok:
  assumes "distinct (map fst dirs)" "\<forall>x e. opened env broker dirs x \<noteq> Some (Inl e)"
  shows "\<exists>ts. fst (boot_topics env broker remove_ok dirs) = Inr ts \<and>
    (\<forall>x. map_of ts x = (case opened env broker dirs x of Some (Inr t) \<Rightarrow> Some t | _ \<Rightarrow> None))"
  using open_topics_ok[OF distinct_sweep[OF assms(1)], of env broker remove_ok "[]"] assms(2)
  by (simp add: boot_topics_def Let_def opened_sweep cong: option.case_cong sum.case_cong)

lemma boot_topics_opens:
  assumes "fst (boot_topics env broker remove_ok dirs) = Inr ts" "distinct (map fst dirs)"
  shows "opened env broker dirs x \<noteq> Some (Inl e)" "map_of ts x = (case opened env broker dirs x of Some (Inr t) \<Rightarrow> Some t | _ \<Rightarrow> None)"
proof -
  have o': "\<forall>x e. opened env broker dirs x \<noteq> Some (Inl e)"
    using open_topics_opens[of env broker "sweep_leftover_dirs remove_ok dirs" "[]" ts] assms distinct_sweep[OF assms(2)]
    by (simp add: boot_topics_def Let_def opened_sweep)
  then show "opened env broker dirs x \<noteq> Some (Inl e)" by blast
  show "map_of ts x = (case opened env broker dirs x of Some (Inr t) \<Rightarrow> Some t | _ \<Rightarrow> None)"
    using boot_topics_ok[OF assms(2) o', of remove_ok] assms(1) by auto
qed

text \<open>The state of the directory after each call of the creation.\<close>

definition building :: "topics_root \<Rightarrow> string \<Rightarrow> string \<Rightarrow> nat \<Rightarrow> u8 list \<Rightarrow> nat \<Rightarrow> topics_fs \<Rightarrow> bool" where
  "building dirs staging name n meta k fs \<longleftrightarrow>
     map_of (fs_cur fs) =
       (if k < n + 4 then (map_of dirs)(staging := if k = 0 then None
            else Some \<lparr>td_partitions = [0..<min k n], td_meta = (if k \<le> n then None else Some meta)\<rparr>)
        else (map_of dirs)(name := Some \<lparr>td_partitions = [0..<n], td_meta = Some meta\<rparr>)) \<and>
     map_of (fs_stable fs) = (if k < n + 5 then map_of dirs else map_of (fs_cur fs)) \<and>
     set (fs_dirty fs) \<subseteq> (if k = n + 2 \<or> k = n + 3 then {} else {staging})"

lemma building_step:
  assumes "building dirs staging name n meta k fs" "k < n + 5" "map_of dirs staging = None" "map_of dirs name = None" "staging \<noteq> name" "0 < n"
  shows "\<exists>fs'. run_step None staging name meta (build_steps n ! k) fs = (Inr (), fs') \<and> building dirs staging name n meta (Suc k) fs'"
proof -
  note b = assms(1)[unfolded building_def]
  consider "k < n" | "k = n" | "k = n + 1" | "k = n + 2" | "k = n + 3" | "k = n + 4" using assms(2) by linarith
  then show ?thesis
  proof cases
    case 1
    then have d: "dir_of (fs_cur fs) staging = \<lparr>td_partitions = [0..<k], td_meta = None\<rparr>" using b by (simp add: dir_of_def)
    show ?thesis using 1 b by (simp add: build_steps_def nth_append change_dir_def building_def update_conv' d)
  next
    case 2
    then have d: "dir_of (fs_cur fs) staging = \<lparr>td_partitions = [0..<n], td_meta = None\<rparr>" using b assms(6) by (simp add: dir_of_def)
    show ?thesis using 2 b assms(6) by (simp add: build_steps_def nth_append change_dir_def building_def update_conv' d)
  next
    case 3
    then show ?thesis using b assms(6) by (auto simp: build_steps_def nth_append fsync_dir_def building_def removeAll_filter_not_eq filter_empty_conv)
  next
    case 4
    then show ?thesis using b assms(4-6) by (auto simp: build_steps_def nth_append building_def)
  next
    case 5
    then show ?thesis using b assms(3-6)
      by (auto simp: build_steps_def nth_append building_def rename_dir_def update_conv' delete_conv' fun_eq_iff)
  next
    case 6
    then show ?thesis using b assms(5,6) by (auto simp: build_steps_def nth_append building_def fsync_root_def)
  qed
qed

lemma run_build_append:
  "run_build rival staging name meta (xs @ ys) fs =
     (case run_build rival staging name meta xs fs of (Inl e, fs) \<Rightarrow> (Inl e, fs) | (Inr _, fs) \<Rightarrow> run_build rival staging name meta ys fs)"
  by (induction xs arbitrary: fs) (auto split: prod.splits sum.splits)

lemma length_build_steps: "length (build_steps n) = n + 5"
  by (simp add: build_steps_def)

lemma building_run:
  assumes "map_of dirs staging = None" "map_of dirs name = None" "staging \<noteq> name" "0 < n" "k \<le> n + 5"
  shows "\<exists>fs. run_build None staging name meta (take k (build_steps n)) (clean_fs dirs) = (Inr (), fs) \<and> building dirs staging name n meta k fs"
  using assms(5)
proof (induction k)
  case 0
  then show ?case using assms(1) by (simp add: building_def clean_fs_def fun_upd_idem)
next
  case (Suc k)
  then obtain fs where fs: "run_build None staging name meta (take k (build_steps n)) (clean_fs dirs) = (Inr (), fs)" "building dirs staging name n meta k fs"
    by auto
  obtain fs' where "run_step None staging name meta (build_steps n ! k) fs = (Inr (), fs')" "building dirs staging name n meta (Suc k) fs'"
    using building_step[OF fs(2) _ assms(1-4)] Suc.prems by auto
  then show ?case using Suc.prems fs by (simp add: take_Suc_conv_app_nth length_build_steps run_build_append)
qed

text \<open>What a crash may leave of an unfinished creation, with the staging directory there or not.\<close>

lemma building_crash:
  assumes "building dirs staging name n meta k fs" "fs' = fs \<or> fs' = remove_dir_all staging fs" "crash_image fs' d" "x \<noteq> staging" "k \<le> n + 5"
  shows "map_of d x = map_of dirs x \<or> x = name \<and> map_of d x = Some \<lparr>td_partitions = [0..<n], td_meta = Some meta\<rparr>"
    "k = n + 5 \<Longrightarrow> map_of d name = Some \<lparr>td_partitions = [0..<n], td_meta = Some meta\<rparr> \<or> name = staging"
proof -
  note b = assms(1)[unfolded building_def]
  have c: "map_of d y = map_of (fs_cur fs) y \<or> map_of d y = map_of (fs_stable fs) y" if y: "y \<noteq> staging" for y
  proof -
    have "y \<notin> set (fs_dirty fs')" using b assms(2) y by (auto simp: remove_dir_all_def split: if_splits)
    then show ?thesis using assms(2,3) y by (auto simp: crash_image_def remove_dir_all_def delete_conv')
  qed
  show "map_of d x = map_of dirs x \<or> x = name \<and> map_of d x = Some \<lparr>td_partitions = [0..<n], td_meta = Some meta\<rparr>"
    using c[OF assms(4)] b assms(4) by (auto split: if_splits)
  show "map_of d name = Some \<lparr>td_partitions = [0..<n], td_meta = Some meta\<rparr> \<or> name = staging" if "k = n + 5"
    using c[of name] b that by auto
qed

lemma build_topic_states:
  assumes "map_of dirs staging = None" "map_of dirs name = None" "staging \<noteq> name" "0 < n"
    and "build_topic io None staging name n meta (clean_fs dirs) = (res, fs')"
  obtains k fs where "k \<le> n + 5" "building dirs staging name n meta k fs" "fs' = fs \<or> fs' = remove_dir_all staging fs" "res = Inr () \<longrightarrow> k = n + 5"
proof -
  have R: "\<exists>fs. run_build None staging name meta (take k (build_steps n)) (clean_fs dirs) = (Inr (), fs) \<and> building dirs staging name n meta (min k (n + 5)) fs" for k
  proof -
    have "take (min k (n + 5)) (build_steps n) = take k (build_steps n)" by (simp add: length_build_steps min_def)
    then show ?thesis using building_run[OF assms(1-4), of "min k (n + 5)" meta] by simp
  qed
  show thesis
  proof (cases io)
    case BuildDone
    then show thesis using R[of "n + 5"] assms(5) by (auto simp: build_topic_def length_build_steps[of n, symmetric] intro!: that[of "n + 5"])
  next
    case (BuildStops k)
    then show thesis using R[of k] assms(5) by (auto simp: build_topic_def intro!: that[of "min k (n + 5)"])
  next
    case (BuildFails k remove_ok)
    then show thesis using R[of k] assms(5) by (auto simp: build_topic_def split: if_splits intro!: that[of "min k (n + 5)"])
  qed
qed


section \<open>Properties\<close>

text \<open>C39: creating a topic is atomic under crashes. The broker starts from topic directories that are on
  disk and boot. It creates a topic; the process may stop after any call, or any call may fail. Then
  the machine crashes, losing what was not synced, and the broker starts again: it starts, all other
  topics are as before, and the new one is there complete, with the settings asked for and all its
  partitions, or there is no trace of it. If the creation had returned the topic, it is there. This holds
  provided the metadata text can be read back, the partitions can be opened, and the random
  staging name is not in use.\<close>

theorem topic_creation_crash_atomic:
  fixes env :: "'p topic_env"
  defines "persisted \<equiv> \<lambda>patch. case patch of None \<Rightarrow> empty_topic_config | Some p \<Rightarrow> from_patch p"
  assumes "te_from_json env (te_to_json env \<lparr>tm_partitions = n, tm_config = persisted patch\<rparr>) = Some \<lparr>tm_partitions = n, tm_config = persisted patch\<rparr>"
    and "distinct (map fst dirs)" "map_of dirs (staging_name name random) = None"
    and "\<And>resolved. open_partitions env broker name n resolved (resolve_raft broker name (persisted patch)) \<noteq> None"
    and "fst (boot_topics env broker remove_ok dirs) = Inr ts0"
    and "topic_create env broker random io None name n patch (clean_fs dirs) = (res, fs)" "crash_image fs d"
  shows "\<exists>ts. fst (boot_topics env broker remove_ok d) = Inr ts \<and> (\<forall>x. x \<noteq> name \<longrightarrow> map_of ts x = map_of ts0 x) \<and>
    (case res of
       Inr t \<Rightarrow> map_of ts name = Some t
     | Inl e \<Rightarrow> map_of ts name = map_of ts0 name \<or>
         (\<exists>resolved parts. resolve broker (persisted patch) = Some resolved \<and>
            open_partitions env broker name n resolved (resolve_raft broker name (persisted patch)) = Some parts \<and>
            map_of ts name = Some (new_topic name parts resolved (persisted patch))))"
proof -
  let ?c = "persisted patch" and ?meta = "te_to_json env \<lparr>tm_partitions = n, tm_config = persisted patch\<rparr>"
  let ?D = "\<lparr>td_partitions = [0..<n], td_meta = Some ?meta\<rparr>"
  have dd: "distinct (map fst d)" using assms(8) by (simp add: crash_image_def)
  note old = boot_topics_opens[OF assms(6,3)]
  have boot: "\<exists>ts. fst (boot_topics env broker remove_ok d) = Inr ts \<and> (\<forall>x. map_of ts x = (case opened env broker d x of Some (Inr t) \<Rightarrow> Some t | _ \<Rightarrow> None))"
    if "\<And>x e. opened env broker d x \<noteq> Some (Inl e)" using boot_topics_ok[OF dd, of env broker remove_ok] that by blast
  show ?thesis
  proof (cases "fs = clean_fs dirs \<and> (\<exists>e. res = Inl e)")
    case True
    then have "map_of d = map_of dirs" using assms(8) by (auto simp: crash_image_def clean_fs_def fun_eq_iff)
    then have "opened env broker d = opened env broker dirs" by (simp add: opened_def fun_eq_iff)
    then show ?thesis using boot old True by auto
  next
    case False
    obtain resolved where v: "validate_topic_name name" "map_of dirs name = None" "0 < n" "resolve broker ?c = Some resolved"
      using assms(7) False unfolding persisted_def by (auto simp: topic_create_def clean_fs_def Let_def split: if_splits option.splits)
    obtain parts where parts: "open_partitions env broker name n resolved (resolve_raft broker name ?c) = Some parts" using assms(5) by blast
    let ?t = "new_topic name parts resolved ?c" and ?s = "staging_name name random"
    obtain b fs' where b: "build_topic io None ?s name n ?meta (clean_fs dirs) = (b, fs')" by (cases "build_topic io None ?s name n ?meta (clean_fs dirs)")
    have r: "fs = fs'" "res = (case b of Inl e \<Rightarrow> Inl e | Inr _ \<Rightarrow> Inr ?t)"
      using assms(7) False v b parts unfolding persisted_def
      by (auto simp: topic_create_def clean_fs_def Let_def split: if_splits option.splits sum.splits)
    have ne: "?s \<noteq> name" using staging_name_not_valid[OF v(1)] by blast
    obtain k fs0 where k: "k \<le> n + 5" "building dirs ?s name n ?meta k fs0" "fs' = fs0 \<or> fs' = remove_dir_all ?s fs0" "b = Inr () \<longrightarrow> k = n + 5"
      using build_topic_states[OF assms(4) v(2) ne v(3) b] by blast
    note crash = building_crash[OF k(2,3) assms(8)[unfolded r(1)] _ k(1)]
    have s: "opened env broker D ?s = None" for D using staging_name_not_valid[of ?s name random] by (auto simp: opened_def split: option.splits)
    have t: "opened env broker d name = Some (Inr ?t)" if "map_of d name = Some ?D"
      using that v(1,4) parts assms(2) by (simp add: opened_def topic_open_def)
    have o': "opened env broker d x = opened env broker dirs x \<or> x = name \<and> opened env broker d x = Some (Inr ?t)" for x
    proof (cases "x = ?s")
      case False
      then show ?thesis using crash(1)[OF False] t by (auto simp: opened_def)
    qed (simp add: s)
    then obtain ts where ts: "fst (boot_topics env broker remove_ok d) = Inr ts"
      "\<forall>x. map_of ts x = (case opened env broker d x of Some (Inr t) \<Rightarrow> Some t | _ \<Rightarrow> None)"
      using boot old(1) by (metis option.inject sum.distinct(1))
    have "map_of ts x = map_of ts0 x" if "x \<noteq> name" for x using ts(2) old(2)[of x] o'[of x] that by simp
    moreover have "map_of ts name = map_of ts0 name \<or> map_of ts name = Some ?t" using ts(2) old(2)[of name] o'[of name] by auto
    moreover have "map_of ts name = Some ?t" if "b = Inr u" for u
      using crash(2)[of name] ne k(4) that t ts(2) by auto
    ultimately show ?thesis using ts(1) r(2) v(4) parts by (cases b) auto
  qed
qed

text \<open>One topic is there, another is created and returned.\<close>

definition sample_env :: "nat topic_env" where
  "sample_env = \<lparr>te_to_json = (\<lambda>_. [1]), te_from_json = (\<lambda>_. Some \<lparr>tm_partitions = 1, tm_config = empty_topic_config\<rparr>),
     te_open = (\<lambda>_ i _ _ _. Some i), te_set_segment_bytes = (\<lambda>_ p. p)\<rparr>"

definition sample_dirs :: topics_root where
  "sample_dirs = [(''old'', \<lparr>td_partitions = [0], td_meta = Some [1]\<rparr>)]"

definition sample_config :: config where "sample_config = config_new (''127.0.0.1'', 4000) 1024"

definition sample_creation :: "(topic_error + nat topic) \<times> topics_fs" where
  "sample_creation = topic_create sample_env sample_config 7 BuildDone None ''orders'' 1 None (clean_fs sample_dirs)"

lemma sample_names: "validate_topic_name ''orders''" "validate_topic_name ''old''"
  by code_simp+

lemma sample_opens: "open_partitions sample_env sample_config name 1 resolved raft = Some [0]"
  by (simp add: open_partitions_def sample_env_def)

lemma sample_boot:
  "\<exists>ts. fst (boot_topics sample_env sample_config remove_ok sample_dirs) = Inr ts \<and> map_of ts ''old'' \<noteq> None"
proof -
  have o': "topic_open sample_env sample_config ''old'' \<lparr>td_partitions = [0], td_meta = Some [1]\<rparr> =
      Inr (new_topic ''old'' [0] (the (resolve sample_config empty_topic_config)) empty_topic_config)"
    using sample_opens by (simp add: topic_open_def sample_env_def resolve_def empty_topic_config_def)
  have o2: "opened sample_env sample_config sample_dirs x =
      (if x = ''old'' then Some (Inr (new_topic ''old'' [0] (the (resolve sample_config empty_topic_config)) empty_topic_config)) else None)" for x
    using sample_names(2) by (simp add: opened_def sample_dirs_def o')
  then have "\<forall>x e. opened sample_env sample_config sample_dirs x \<noteq> Some (Inl e)" by simp
  moreover have "distinct (map fst sample_dirs)" by (simp add: sample_dirs_def)
  ultimately obtain ts where "fst (boot_topics sample_env sample_config remove_ok sample_dirs) = Inr ts"
    "\<forall>x. map_of ts x = (case opened sample_env sample_config sample_dirs x of Some (Inr t) \<Rightarrow> Some t | _ \<Rightarrow> None)"
    using boot_topics_ok by blast
  then show ?thesis using o2[of "''old''"] by simp
qed

text \<open>The directory after the crash.\<close>

definition sample_image :: topics_root where
  "sample_image = (''orders'', \<lparr>td_partitions = [0], td_meta = Some [1]\<rparr>) # sample_dirs"

lemma sample_created: "\<exists>t. fst sample_creation = Inr t" "crash_image (snd sample_creation) sample_image"
proof -
  have ne: "staging_name ''orders'' 7 \<noteq> ''orders''" "staging_name ''orders'' 7 \<noteq> ''old''"
    using staging_name_not_valid sample_names by blast+
  obtain fs where fs: "run_build None (staging_name ''orders'' 7) ''orders'' [1] (build_steps 1) (clean_fs sample_dirs) = (Inr (), fs)"
    "building sample_dirs (staging_name ''orders'' 7) ''orders'' 1 [1] 6 fs"
    using building_run[of sample_dirs "staging_name ''orders'' 7" "''orders''" 1 6 "[1]"] ne by (auto simp: sample_dirs_def length_build_steps)
  have c: "sample_creation = (Inr (new_topic ''orders'' [0] (the (resolve sample_config empty_topic_config)) empty_topic_config), fs)"
    unfolding sample_creation_def topic_create_def
    using sample_names(1) sample_opens[of "''orders''"] fs(1)
    by (simp add: MAX_PARTITIONS_def clean_fs_def sample_dirs_def Let_def resolve_def empty_topic_config_def build_topic_def
        sample_env_def[THEN arg_cong, of te_to_json])
  show "\<exists>t. fst sample_creation = Inr t" unfolding c by simp
  have "map_of sample_image = map_of (fs_cur fs)" using fs(2) by (simp add: building_def sample_image_def)
  then show "crash_image (snd sample_creation) sample_image" by (simp add: c crash_image_def sample_image_def sample_dirs_def)
qed

theorem topic_creation_crash_atomic_witness:
  "\<exists>t ts. fst sample_creation = Inr t \<and> fst (boot_topics sample_env sample_config (\<lambda>_. False) sample_image) = Inr ts \<and>
     map_of ts ''orders'' = Some t \<and> map_of ts ''old'' \<noteq> None"
proof -
  obtain ts0 where ts0: "fst (boot_topics sample_env sample_config (\<lambda>_. False) sample_dirs) = Inr ts0" "map_of ts0 ''old'' \<noteq> None"
    using sample_boot by blast
  obtain t where t: "fst sample_creation = Inr t" using sample_created(1) by blast
  have c: "topic_create sample_env sample_config 7 BuildDone None ''orders'' 1 None (clean_fs sample_dirs) = (Inr t, snd sample_creation)"
    using t by (metis prod.collapse sample_creation_def)
  have s: "map_of sample_dirs (staging_name ''orders'' 7) = None" using staging_name_not_valid[OF sample_names(2)] by (auto simp: sample_dirs_def)
  have "\<exists>ts. fst (boot_topics sample_env sample_config (\<lambda>_. False) sample_image) = Inr ts \<and>
      (\<forall>x. x \<noteq> ''orders'' \<longrightarrow> map_of ts x = map_of ts0 x) \<and> map_of ts ''orders'' = Some t"
    using topic_creation_crash_atomic[OF _ _ s _ ts0(1) c sample_created(2)] sample_opens
    by (simp add: sample_dirs_def) (simp add: sample_env_def)
  then show ?thesis using t ts0(2) by auto
qed

text \<open>A topic that another request has put in place meanwhile is not touched.\<close>

lemma rename_refused:
  "run_step (Some d) staging name meta CheckExists fs = (Inl TopicExists, fs\<lparr>fs_cur := AList.update name d (fs_cur fs)\<rparr>)"
  "map_of (fs_cur fs) dst \<noteq> None \<Longrightarrow> rename_dir src dst fs = (False, fs)"
  by (auto simp: update_conv' rename_dir_def split: option.splits)

text \<open>C40: routing. A record goes to an existing partition: the one named, which is refused only when it is
  out of range; else the one given by the 64-bit FNV-1a hash of its key modulo their number, so the
  same for every record with that key; else the next in turn, so that any run of as many records
  as there are partitions reaches each of them. The hash is fixed by its recursion over the
  natural numbers and by published test values.\<close>

theorem route_correct:
  fixes t :: "'p topic"
  assumes "tp_partitions t \<noteq> []"
  shows "(\<forall>p t'. route key hint t = (Inr p, t') \<longrightarrow> p < length (tp_partitions t) \<and> (\<forall>h. hint = Some h \<longrightarrow> p = h)) \<and>
    (fst (route key hint t) = Inl PartitionOutOfRange \<longleftrightarrow> (\<exists>h. hint = Some h \<and> h \<ge> length (tp_partitions t))) \<and>
    route (Some k) None t = (Inr (fnv1a_nat 14695981039346656037 k mod length (tp_partitions t)), t) \<and>
    fnv1a64 [] = 0xcbf29ce484222325 \<and> fnv1a64 [0x61] = 0xaf63dc4c8601ec8c \<and> fnv1a64 [0x66, 0x6f, 0x6f, 0x62, 0x61, 0x72] = 0x85944171f73967e8 \<and>
    (tp_rr_counter t + length (tp_partitions t) < 2 ^ 64 \<longrightarrow>
       set (route_all (length (tp_partitions t)) t) = {0..<length (tp_partitions t)})"
proof -
  have n: "0 < length (tp_partitions t)" using assms by simp
  have "set (route_all (length (tp_partitions t)) t) = {0..<length (tp_partitions t)}" if "tp_rr_counter t + length (tp_partitions t) < 2 ^ 64"
    using route_all_eq[OF that] mod_window[OF n, of "tp_rr_counter t"] by simp
  moreover have "p < length (tp_partitions t) \<and> (\<forall>h. hint = Some h \<longrightarrow> p = h)" if "route key hint t = (Inr p, t')" for p t'
    using route_range[OF assms that] that by (auto simp: route_def Let_def split: if_splits)
  moreover have "fst (route key hint t) = Inl PartitionOutOfRange \<longleftrightarrow> (\<exists>h. hint = Some h \<and> h \<ge> length (tp_partitions t))"
    by (auto simp: route_def Let_def split: option.splits)
  moreover have "route (Some k) None t = (Inr (fnv1a_nat 14695981039346656037 k mod length (tp_partitions t)), t)"
    by (simp add: route_def Let_def fnv1a64_nat)
  ultimately show ?thesis using fnv1a_vectors by blast
qed

definition sample_topic :: "nat topic" where
  "sample_topic = new_topic ''orders'' [0, 1, 2] \<lparr>tc_retention_ms = None, tc_retention_bytes = None, tc_cleanup_policy = CpDelete,
     tc_segment_bytes = 1024, tc_tombstone_retention_ms = 0\<rparr> empty_topic_config"

theorem route_correct_witness:
  "tp_partitions sample_topic \<noteq> [] \<and> fst (route (Some [0x61]) None sample_topic) = Inr 1 \<and>
   set (route_all 3 sample_topic) = {0, 1, 2}"
proof -
  have s: "tp_partitions sample_topic \<noteq> []" "length (tp_partitions sample_topic) = 3" "tp_rr_counter sample_topic = 0"
    by (simp_all add: sample_topic_def new_topic_def)
  have "set (route_all 3 sample_topic) = {0..<3}" using route_correct[OF s(1), of None None "[]"] s by simp
  moreover have "{0..<3 :: nat} = {0, 1, 2}" by auto
  moreover have "fst (route (Some [0x61]) None sample_topic) = Inr (fnv1a_nat 14695981039346656037 [0x61] mod 3)"
    using route_correct[OF s(1), of None None "[0x61]"] s by simp
  moreover have "fnv1a_nat 14695981039346656037 [0x61] mod 3 = 1"
    unfolding fnv1a64_nat[symmetric] fnv1a_vectors by simp
  ultimately show ?thesis using s by simp
qed

end
