(* ===== verification/Dataplane.thy ===== *)
theory Dataplane
  imports Producers Topics Partition_Crash
begin

text \<open>
  Produce and consume (\<open>dataplane.rs\<close>), over the broker's topics, keys and producers. The partition
  behind a topic is reached through \<open>part_ops\<close>, the operations of \<open>PartitionHandle\<close> that requests use;
  \<open>plain_ops\<close> are those of a partition without Raft.

  The writes to the partitions of one request run side by side on different partitions, so their order
  does not matter; when one fails, any of the others may be dropped before it has begun. A request is one
  step of the broker: other requests do not run between its parts. Error texts are left out.
\<close>

section \<open>Requests\<close>

record incoming_record =
  ir_key :: "u8 list option"
  ir_value :: "u8 list"
  ir_partition :: "nat option"
  ir_sequence :: "int option"

record produced =
  pu_partition :: nat
  pu_offset :: nat
  pu_duplicate :: bool

datatype data_error =
  DataForbidden | DataNotFound | DataBadRequest | DataRateLimited real | DataInternal | DataPanic

record 'p part_ops =
  po_append :: "append_record list \<Rightarrow> 'p \<Rightarrow> (append_error + nat list) \<times> 'p"
  po_read :: "nat \<Rightarrow> nat \<Rightarrow> nat \<Rightarrow> 'p \<Rightarrow> es_record list \<times> nat \<times> nat"

definition plain_ops :: "(u8 list \<Rightarrow> 32 word) \<Rightarrow> int \<Rightarrow> partition part_ops" where
  "plain_ops crc now =
     \<lparr>po_append = (\<lambda>rs p. if rs = [] then (Inr [], p) else append_batch crc now rs Policy p),
      po_read = (\<lambda>target max_records max_bytes p. read_records_raw crc p target max_records max_bytes)\<rparr>"

record 'p broker =
  br_config :: config
  br_topics :: "(string \<times> 'p topic) list"
  br_keys :: key_store
  br_producers :: registry

definition MAX_RECORDS_PER_REQUEST :: nat where "MAX_RECORDS_PER_REQUEST = 100000"

definition record_bytes :: "u8 list option \<Rightarrow> u8 list \<Rightarrow> nat" where
  "record_bytes key value = (case key of Some k \<Rightarrow> length k | None \<Rightarrow> 0) + length value"

definition put_topic :: "'p topic \<Rightarrow> 'p broker \<Rightarrow> 'p broker" where
  "put_topic t b = b\<lparr>br_topics := AList.update (tp_name t) t (br_topics b)\<rparr>"

fun route_records :: "incoming_record list \<Rightarrow> 'p topic \<Rightarrow> (route_error + nat list) \<times> 'p topic" where
  "route_records [] t = (Inr [], t)"
| "route_records (r # rs) t =
     (case route (ir_key r) (ir_partition r) t of
        (Inl e, t) \<Rightarrow> (Inl e, t)
      | (Inr p, t) \<Rightarrow>
          (case route_records rs t of
             (Inl e, t) \<Rightarrow> (Inl e, t)
           | (Inr ps, t) \<Rightarrow> (Inr (p # ps), t)))"

text \<open>Deciding every record of an idempotent request before any is written: the first record of a
  partition is checked against the producer's state, the following ones against the one before. The
  addition on \<open>i64\<close> wraps.\<close>

definition wrap_i64 :: "int \<Rightarrow> int" where
  "wrap_i64 x = i64_of (u64_of x)"

fun decide :: "producer_state \<Rightarrow> string \<Rightarrow> (nat \<times> int) list \<Rightarrow> (nat \<rightharpoonup> int) \<Rightarrow> data_error + produced option list" where
  "decide st topic [] tentative = Inr []"
| "decide st topic ((p, seq) # rs) tentative =
     (let outcome = (case tentative p of
                       Some prev \<Rightarrow> if seq = wrap_i64 (prev + 1) then Inr Accept else Inl DataBadRequest
                     | None \<Rightarrow> Inr (check st topic p seq))
      in case outcome of
           Inl e \<Rightarrow> Inl e
         | Inr Accept \<Rightarrow> map_sum id ((#) None) (decide st topic rs (tentative(p \<mapsto> seq)))
         | Inr (Duplicate off) \<Rightarrow>
             map_sum id ((#) (Some \<lparr>pu_partition = p, pu_offset = off, pu_duplicate = True\<rparr>)) (decide st topic rs tentative)
         | Inr (SequenceTooLow _) \<Rightarrow> Inl DataBadRequest
         | Inr (Gap _ _) \<Rightarrow> Inl DataBadRequest)"

text \<open>The records to be written to partition \<open>p\<close>, by position in the request.\<close>

definition group_of :: "nat list \<Rightarrow> produced option list \<Rightarrow> nat \<Rightarrow> nat list" where
  "group_of routed decided p = filter (\<lambda>i. decided ! i = None \<and> routed ! i = p) [0..<length routed]"

definition group_partitions :: "nat list \<Rightarrow> produced option list \<Rightarrow> nat list" where
  "group_partitions routed decided =
     sort (remdups (map ((!) routed) (filter (\<lambda>i. decided ! i = None) [0..<length routed])))"

definition to_append :: "incoming_record \<Rightarrow> append_record" where
  "to_append r = \<lparr>ar_key = ir_key r, ar_value = ir_value r, ar_timestamp_ms = None, ar_offset = None\<rparr>"

fun write_groups ::
    "'p part_ops \<Rightarrow> incoming_record list \<Rightarrow> (nat \<Rightarrow> nat list) \<Rightarrow> nat list \<Rightarrow> 'p list \<Rightarrow>
     (nat \<times> nat list \<times> (append_error + nat list)) list \<times> 'p list" where
  "write_groups ops recs grp [] parts = ([], parts)"
| "write_groups ops recs grp (p # ps) parts =
     (let (r, part) = po_append ops (map (\<lambda>i. to_append (recs ! i)) (grp p)) (parts ! p);
          (rest, parts) = write_groups ops recs grp ps (parts[p := part])
      in ((p, grp p, r) # rest, parts))"

definition all_written :: "(nat \<times> nat list \<times> (append_error + nat list)) list \<Rightarrow> (nat \<times> nat list \<times> nat list) list option" where
  "all_written ws = those (map (\<lambda>(p, idxs, r). case r of Inl _ \<Rightarrow> None | Inr offs \<Rightarrow> Some (p, idxs, offs)) ws)"

definition set_results :: "(nat \<times> nat list \<times> nat list) list \<Rightarrow> produced option list \<Rightarrow> produced option list" where
  "set_results written results =
     fold (\<lambda>(p, idxs, offs) res.
       fold (\<lambda>(i, off) res. res[i := Some \<lparr>pu_partition = p, pu_offset = off, pu_duplicate = False\<rparr>]) (zip idxs offs) res)
       written results"

definition journal_of :: "string \<Rightarrow> incoming_record list \<Rightarrow> (nat \<times> nat list \<times> nat list) list \<Rightarrow> (string \<times> nat \<times> int \<times> nat) list" where
  "journal_of topic recs written =
     concat (map (\<lambda>(p, idxs, offs).
       concat (map (\<lambda>(i, off). case ir_sequence (recs ! i) of Some s \<Rightarrow> [(topic, p, s, off)] | None \<Rightarrow> []) (zip idxs offs))) written)"

text \<open>When the write of one partition fails, \<open>try_join_all\<close> drops the others; those not yet begun then
  leave their partitions as they were.\<close>

definition keep_dropped :: "(nat \<Rightarrow> bool) \<Rightarrow> 'p list \<Rightarrow> 'p list \<Rightarrow> 'p list" where
  "keep_dropped dropped old new = map (\<lambda>p. if dropped p then old ! p else new ! p) [0..<length new]"

text \<open>Environment of a request: the partition operations, the JSON library, the writes dropped when another
  one fails, the outcome of the journal write, the clocks.\<close>

record 'p request_env =
  en_ops :: "'p part_ops"
  en_json :: producer_json
  en_dropped :: "nat \<Rightarrow> bool"
  en_journal_io :: journal_io
  en_now_s :: real
  en_now_ms :: int

text \<open>From the write on: \<open>guard\<close> is the producer admitted to the request, if it has one.\<close>

definition write_records ::
    "'p request_env \<Rightarrow> api_key \<Rightarrow> string \<Rightarrow> incoming_record list \<Rightarrow> nat list \<Rightarrow> produced option list \<Rightarrow> (string \<times> producer_state) option \<Rightarrow>
     'p topic \<Rightarrow> 'p broker \<Rightarrow> (data_error + produced list) \<times> 'p broker" where
  "write_records en key topic_name recs routed decided guard t b =
     (let (ws, parts) = write_groups (en_ops en) recs (group_of routed decided) (group_partitions routed decided) (tp_partitions t)
      in case all_written ws of
           None \<Rightarrow> (Inl DataInternal, put_topic (t\<lparr>tp_partitions := keep_dropped (en_dropped en) (tp_partitions t) parts\<rparr>) b)
         | Some written \<Rightarrow>
             let t = t\<lparr>tp_partitions := parts\<rparr>; b = put_topic t b;
                 results = set_results written decided;
                 es = journal_of topic_name recs written;
                 (r, b) = (case guard of
                    None \<Rightarrow> (Inr (), b)
                  | Some (pid, st) \<Rightarrow>
                      let (r, reg) = journal (en_json en) (en_journal_io en) pid (ak_key_id key) es
                                       (put_producer pid (record_all (en_now_ms en) es st) (br_producers b))
                      in (r, b\<lparr>br_producers := reg\<rparr>));
                 appended = filter (\<lambda>i. decided ! i = None) [0..<length recs]
             in case r of
                  Inl _ \<Rightarrow> (Inl DataInternal, b)
                | Inr _ \<Rightarrow>
                    let t = t\<lparr>tp_records_produced := (tp_records_produced t + sum_list (map (\<lambda>(p, idxs, offs). length (zip idxs offs)) written)) mod 2 ^ 64,
                              tp_bytes_produced := (tp_bytes_produced t +
                                sum_list (map (\<lambda>i. record_bytes (ir_key (recs ! i)) (ir_value (recs ! i))) appended)) mod 2 ^ 64\<rparr>;
                        b = put_topic t b
                    in if list_all (\<lambda>x. x \<noteq> None) results then (Inr (map the results), b) else (Inl DataPanic, b))"

definition produce ::
    "'p request_env \<Rightarrow> api_key \<Rightarrow> string \<Rightarrow> incoming_record list \<Rightarrow> string option \<Rightarrow> 'p broker \<Rightarrow>
     (data_error + produced list) \<times> 'p broker" where
  "produce en key topic_name recs producer_id b =
     (if \<not> can key AclWrite topic_name then (Inl DataForbidden, b)
      else case map_of (br_topics b) topic_name of
        None \<Rightarrow> (Inl DataNotFound, b)
      | Some t \<Rightarrow>
          if recs = [] then (Inr [], b)
          else if length recs > MAX_RECORDS_PER_REQUEST then (Inl DataBadRequest, b)
          else if list_ex (\<lambda>r. record_bytes (ir_key r) (ir_value r) > cf_max_record_bytes (br_config b)) recs then (Inl DataBadRequest, b)
          else
            let request_bytes = sum_list (map (\<lambda>r. record_bytes (ir_key r) (ir_value r)) recs);
                (rate, ks) = check_produce (en_now_s en) (ak_key_id key) request_bytes (br_keys b);
                b = b\<lparr>br_keys := ks\<rparr>
            in case rate of
                 Inl retry_after \<Rightarrow> (Inl (DataRateLimited retry_after), b)
               | Inr _ \<Rightarrow>
                   if producer_id \<noteq> None \<and> list_ex (\<lambda>r. case ir_sequence r of None \<Rightarrow> True | Some s \<Rightarrow> s < 0) recs
                   then (Inl DataBadRequest, b)
                   else
                     (case route_records recs t of
                        (Inl _, t) \<Rightarrow> (Inl DataBadRequest, put_topic t b)
                      | (Inr routed, t) \<Rightarrow>
                          let b = put_topic t b
                          in case producer_id of
                               None \<Rightarrow> write_records en key topic_name recs routed (replicate (length recs) None) None t b
                             | Some pid \<Rightarrow>
                                 (case admit (en_now_ms en) pid (ak_key_id key) (br_producers b) of
                                    (Inl AdmitForbidden, reg) \<Rightarrow> (Inl DataForbidden, b\<lparr>br_producers := reg\<rparr>)
                                  | (Inl _, reg) \<Rightarrow> (Inl DataBadRequest, b\<lparr>br_producers := reg\<rparr>)
                                  | (Inr st, reg) \<Rightarrow>
                                      let b = b\<lparr>br_producers := reg\<rparr>;
                                          seqs = zip routed (map (\<lambda>r. case ir_sequence r of Some s \<Rightarrow> s | None \<Rightarrow> 0) recs)
                                      in case decide st topic_name seqs Map.empty of
                                           Inl e \<Rightarrow> (Inl e, b)
                                         | Inr decided \<Rightarrow> write_records en key topic_name recs routed decided (Some (pid, st)) t b)))"

text \<open>\<open>usize::clamp\<close> panics when the bounds are the wrong way round.\<close>

definition clamp_size :: "nat \<Rightarrow> nat \<Rightarrow> nat \<Rightarrow> nat option" where
  "clamp_size lo hi x = (if hi < lo then None else Some (max lo (min hi x)))"

record fetched =
  fe_records :: "es_record list"
  fe_next_offset :: nat
  fe_high_watermark :: nat

definition consume ::
    "'p request_env \<Rightarrow> api_key \<Rightarrow> string \<Rightarrow> nat \<Rightarrow> nat \<Rightarrow> nat \<Rightarrow> nat \<Rightarrow> 'p broker \<Rightarrow> (data_error + fetched) \<times> 'p broker" where
  "consume en key topic_name part offset max_records max_bytes b =
     (if \<not> can key AclRead topic_name then (Inl DataForbidden, b)
      else case map_of (br_topics b) topic_name of
        None \<Rightarrow> (Inl DataNotFound, b)
      | Some t \<Rightarrow>
          if part \<ge> length (tp_partitions t) then (Inl DataBadRequest, b)
          else
            let (rate, ks) = check_consume (en_now_s en) (ak_key_id key) (br_keys b); b = b\<lparr>br_keys := ks\<rparr>
            in case rate of
                 Inl retry_after \<Rightarrow> (Inl (DataRateLimited retry_after), b)
               | Inr _ \<Rightarrow>
                   (case (clamp_size 1 (cf_max_fetch_records (br_config b)) max_records, clamp_size 1 (cf_max_fetch_bytes (br_config b)) max_bytes) of
                      (Some mr, Some mb) \<Rightarrow>
                        let (records, nxt, hwm) = po_read (en_ops en) offset mr mb (tp_partitions t ! part);
                            consumed = sum_list (map (\<lambda>r. record_bytes (r_key r) (r_value r)) records);
                            t = t\<lparr>tp_records_consumed := (tp_records_consumed t + length records) mod 2 ^ 64,
                                  tp_bytes_consumed := (tp_bytes_consumed t + consumed) mod 2 ^ 64\<rparr>;
                            b = put_topic t (b\<lparr>br_keys := charge_consume (en_now_s en) (ak_key_id key) consumed (br_keys b)\<rparr>)
                        in (Inr \<lparr>fe_records = records, fe_next_offset = nxt, fe_high_watermark = hwm\<rparr>, b)
                    | _ \<Rightarrow> (Inl DataPanic, b)))"


section \<open>Deciding an idempotent request\<close>

text \<open>The sequences accepted for one partition: the first is accepted by the producer's state, each of the
  others follows the one before.\<close>

fun chain :: "producer_state \<Rightarrow> string \<Rightarrow> nat \<Rightarrow> int option \<Rightarrow> int list \<Rightarrow> bool" where
  "chain st topic p prev [] \<longleftrightarrow> True"
| "chain st topic p prev (s # ss) \<longleftrightarrow>
     (case prev of None \<Rightarrow> check st topic p s = Accept | Some q \<Rightarrow> s = wrap_i64 (q + 1)) \<and> chain st topic p (Some s) ss"

definition accepted_for :: "nat \<Rightarrow> (nat \<times> int) list \<Rightarrow> produced option list \<Rightarrow> int list" where
  "accepted_for p rs ds = map (\<lambda>((_, s), _). s) (filter (\<lambda>((q, _), d). d = None \<and> q = p) (zip rs ds))"

lemma accepted_for_simps [simp]:
  "accepted_for p [] ds = []" "accepted_for p rs [] = []"
  "accepted_for p ((q, s) # rs) (d # ds) = (if d = None \<and> q = p then [s] else []) @ accepted_for p rs ds"
  by (simp_all add: accepted_for_def)

lemma decide_Cons:
  assumes "decide st topic ((q, s) # rs) tentative = Inr ds"
  obtains (accept) ds' where "decide st topic rs (tentative(q \<mapsto> s)) = Inr ds'" "ds = None # ds'"
      "case tentative q of None \<Rightarrow> check st topic q s = Accept | Some prev \<Rightarrow> s = wrap_i64 (prev + 1)"
  | (duplicate) off ds' where "decide st topic rs tentative = Inr ds'"
      "ds = Some \<lparr>pu_partition = q, pu_offset = off, pu_duplicate = True\<rparr> # ds'" "check st topic q s = Duplicate off"
proof (cases "tentative q")
  case None
  then show thesis using assms that
    by (cases "check st topic q s"; cases "decide st topic rs (tentative(q \<mapsto> s))"; cases "decide st topic rs tentative") auto
next
  case (Some prev)
  then show thesis using assms accept
    by (cases "s = wrap_i64 (prev + 1)"; cases "decide st topic rs (tentative(q \<mapsto> s))") auto
qed

lemma decide_error: "decide st topic rs tentative = Inl e \<Longrightarrow> e = DataBadRequest"
proof (induction rs arbitrary: tentative)
  case (Cons r rs)
  obtain q s where r: "r = (q, s)" by (cases r)
  show ?case
  proof (cases "tentative q")
    case None
    then show ?thesis using Cons
      by (cases "check st topic q s"; cases "decide st topic rs (tentative(q \<mapsto> s))"; cases "decide st topic rs tentative") (auto simp: r)
  next
    case (Some prev)
    then show ?thesis using Cons by (cases "s = wrap_i64 (prev + 1)"; cases "decide st topic rs (tentative(q \<mapsto> s))") (auto simp: r)
  qed
qed simp

lemma decide_chain:
  "decide st topic rs tentative = Inr ds \<Longrightarrow> length ds = length rs \<and> chain st topic p (tentative p) (accepted_for p rs ds)"
proof (induction rs arbitrary: ds tentative)
  case (Cons r rs)
  obtain q s where r: "r = (q, s)" by (cases r)
  from Cons.prems[unfolded r] show ?case
  proof (cases rule: decide_Cons)
    case (accept ds')
    then show ?thesis using Cons.IH[OF accept(1)] by (cases "q = p") (auto simp: r)
  next
    case (duplicate off ds')
    then show ?thesis using Cons.IH[OF duplicate(1)] by (auto simp: r)
  qed
qed auto

lemma decide_duplicates:
  "decide st topic rs tentative = Inr ds \<Longrightarrow> i < length rs \<Longrightarrow> ds ! i = Some r \<Longrightarrow>
   pu_duplicate r \<and> pu_partition r = fst (rs ! i) \<and> check st topic (fst (rs ! i)) (snd (rs ! i)) = Duplicate (pu_offset r)"
proof (induction rs arbitrary: ds i tentative)
  case (Cons x rs)
  obtain q s where x: "x = (q, s)" by (cases x)
  from Cons.prems(1)[unfolded x] show ?case
  proof (cases rule: decide_Cons)
    case (accept ds')
    then show ?thesis using Cons.IH[OF accept(1), of "i - 1"] Cons.prems(2,3) by (cases i) (auto simp: x)
  next
    case (duplicate off ds')
    then show ?thesis using Cons.IH[OF duplicate(1), of "i - 1"] Cons.prems(2,3) by (cases i) (auto simp: x)
  qed
qed simp

lemma filter_by_index: "filter P xs = map ((!) xs) (filter (\<lambda>i. P (xs ! i)) [0..<length xs])"
proof -
  have "filter P xs = filter P (map ((!) xs) [0..<length xs])" by (simp only: map_nth)
  then show ?thesis by (simp only: filter_map comp_def)
qed

lemma accepted_for_index:
  assumes "length ds = length rs"
  shows "accepted_for p rs ds = map (\<lambda>i. snd (rs ! i)) (filter (\<lambda>i. ds ! i = None \<and> fst (rs ! i) = p) [0..<length rs])"
proof -
  have n: "length (zip rs ds) = length rs" using assms by simp
  have f: "filter (\<lambda>i. (\<lambda>((q, _), d). d = None \<and> q = p) (zip rs ds ! i)) [0..<length rs] =
      filter (\<lambda>i. ds ! i = None \<and> fst (rs ! i) = p) [0..<length rs]"
    by (rule filter_cong) (use assms in \<open>auto simp: case_prod_beta\<close>)
  show ?thesis
    unfolding accepted_for_def by (subst filter_by_index, unfold n f map_map) (use assms in \<open>auto simp: case_prod_beta\<close>)
qed

lemma chain_take: "chain st topic p prev ss \<Longrightarrow> chain st topic p prev (take n ss)"
proof (induction ss arbitrary: prev n)
  case (Cons s ss)
  then show ?case by (cases n) auto
qed simp


section \<open>Recording an idempotent request\<close>

lemma accepted_append:
  "accepted now st (xs @ ys) \<longleftrightarrow> accepted now st xs \<and> accepted now (record_all now xs st) ys"
  by (induction xs arbitrary: st) (auto simp: record_all_def)

lemma record_all_append: "record_all now (xs @ ys) st = record_all now ys (record_all now xs st)"
  by (simp add: record_all_def)

lemma record_all_other:
  "(\<forall>(t, n, s, f) \<in> set xs. (t, n) \<noteq> key) \<Longrightarrow> map_of (pr_partitions (record_all now xs st)) key = map_of (pr_partitions st) key"
proof (induction xs arbitrary: st)
  case (Cons x xs)
  obtain t n s f where x: "x = (t, n, s, f)" by (cases x)
  have "map_of (pr_partitions (record_all now xs (record_seq now t n s f st))) key = map_of (pr_partitions (record_seq now t n s f st)) key"
    using Cons by simp
  then show ?case using Cons.prems by (auto simp: record_all_def x record_seq_partitions)
qed (simp add: record_all_def)

lemma accept_advances:
  assumes "check st t n s = Accept" "s < i64_max" "0 \<le> s"
  shows "\<exists>w. map_of (pr_partitions (record_seq now t n s f st)) (t, n) = Some w \<and> pw_last_seen w = s"
  using assms
  by (auto simp: check_def window_check_def record_seq_partitions window_record_fields sat_add_i64_def clamp_i64_def empty_window_def
      split: option.splits if_splits)

lemma wrap_i64_next: "0 \<le> q \<Longrightarrow> q < i64_max \<Longrightarrow> wrap_i64 (q + 1) = q + 1"
  unfolding wrap_i64_def by (intro i64_of_u64_of) auto

lemma next_accepted:
  assumes "map_of (pr_partitions st) (t, n) = Some w" "pw_last_seen w = q" "0 \<le> q" "q < i64_max"
  shows "check st t n (wrap_i64 (q + 1)) = Accept"
proof -
  have "sat_add_i64 q 1 = q + 1" using assms(3,4) by (simp add: sat_add_i64_def clamp_i64_def)
  then show ?thesis using assms wrap_i64_next[OF assms(3,4)] by (simp add: check_def window_check_def)
qed

lemma group_accepted:
  assumes "chain st0 topic p prev (map fst es)" "\<forall>(s, f) \<in> set es. 0 \<le> s \<and> s < i64_max"
    and "prev = None \<Longrightarrow> map_of (pr_partitions st) (topic, p) = map_of (pr_partitions st0) (topic, p)"
    and "\<And>q. prev = Some q \<Longrightarrow> 0 \<le> q \<and> q < i64_max \<and> (\<exists>w. map_of (pr_partitions st) (topic, p) = Some w \<and> pw_last_seen w = q)"
  shows "accepted now st (map (\<lambda>e. (topic, p, e)) es)"
  using assms
proof (induction es arbitrary: prev st)
  case (Cons x es)
  obtain s f where x: "x = (s, f)" by (cases x)
  have s: "0 \<le> s" "s < i64_max" using Cons.prems(2) x by auto
  have c: "check st topic p s = Accept"
  proof (cases prev)
    case None
    then show ?thesis using Cons.prems(1,3) by (simp add: x check_def)
  next
    case (Some q)
    then show ?thesis using Cons.prems(1) Cons.prems(4)[OF Some] next_accepted by (auto simp: x)
  qed
  have "accepted now (record_seq now topic p s f st) (map (\<lambda>e. (topic, p, e)) es)"
    using Cons.prems(1,2) s accept_advances[OF c s(2,1)] by (intro Cons.IH[of "Some s"]) (auto simp: x)
  then show ?case using c s by (simp add: x)
qed simp

lemma groups_accepted:
  assumes "distinct (map fst gs)"
    and "\<And>p es. (p, es) \<in> set gs \<Longrightarrow> chain st0 topic p None (map fst es) \<and> (\<forall>(s, f) \<in> set es. 0 \<le> s \<and> s < i64_max)"
    and "\<And>p. p \<in> fst ` set gs \<Longrightarrow> map_of (pr_partitions st) (topic, p) = map_of (pr_partitions st0) (topic, p)"
  shows "accepted now st (concat (map (\<lambda>(p, es). map (\<lambda>e. (topic, p, e)) es) gs))"
  using assms
proof (induction gs arbitrary: st)
  case (Cons g gs)
  obtain p es where g: "g = (p, es)" by (cases g)
  let ?xs = "map (\<lambda>e. (topic, p, e)) es"
  have "accepted now st ?xs" using Cons.prems(2)[of p es] Cons.prems(3)[of p] g by (intro group_accepted[of st0 topic p None]) auto
  moreover have "accepted now (record_all now ?xs st) (concat (map (\<lambda>(p, es). map (\<lambda>e. (topic, p, e)) es) gs))"
  proof (rule Cons.IH)
    show "distinct (map fst gs)" using Cons.prems(1) by simp
  next
    fix q es' assume "(q, es') \<in> set gs"
    then show "chain st0 topic q None (map fst es') \<and> (\<forall>(s, f) \<in> set es'. 0 \<le> s \<and> s < i64_max)"
      using Cons.prems(2)[of q es'] by simp
  next
    fix q assume q: "q \<in> fst ` set gs"
    then have "q \<noteq> p" using Cons.prems(1) g by auto
    then have "map_of (pr_partitions (record_all now ?xs st)) (topic, q) = map_of (pr_partitions st) (topic, q)"
      by (intro record_all_other) auto
    then show "map_of (pr_partitions (record_all now ?xs st)) (topic, q) = map_of (pr_partitions st0) (topic, q)"
      using Cons.prems(3)[of q] q by simp
  qed
  ultimately show ?case by (simp add: g accepted_append)
qed simp


section \<open>The results of the writes\<close>

lemma fold_updates:
  assumes "distinct (map fst xs)" "i < length res"
  shows "fold (\<lambda>(i, x) res. res[i := Some x]) xs res ! i = (case map_of xs i of Some x \<Rightarrow> Some x | None \<Rightarrow> res ! i)"
  using assms
proof (induction xs arbitrary: res)
  case (Cons y xs)
  obtain j x where y: "y = (j, x)" by (cases y)
  have "map_of xs j = None" using Cons.prems(1) y by (simp add: map_of_eq_None_iff)
  then show ?case using Cons.IH[of "res[j := Some x]"] Cons.prems by (auto simp: y split: option.split)
qed simp

lemma fold_updates_length: "length (fold (\<lambda>(i, x) res. res[i := Some x]) xs res) = length res"
  by (induction xs arbitrary: res) (auto split: prod.splits)

definition writes_of :: "(nat \<times> nat list \<times> nat list) list \<Rightarrow> (nat \<times> produced) list" where
  "writes_of written = concat (map (\<lambda>(p, idxs, offs).
     map (\<lambda>(i, off). (i, \<lparr>pu_partition = p, pu_offset = off, pu_duplicate = False\<rparr>)) (zip idxs offs)) written)"

lemma set_results_eq: "set_results written res = fold (\<lambda>(i, x) res. res[i := Some x]) (writes_of written) res"
proof (induction written arbitrary: res)
  case (Cons w written)
  obtain p idxs offs where w: "w = (p, idxs, offs)" by (cases w)
  have "fold (\<lambda>(i, off) res. res[i := Some \<lparr>pu_partition = p, pu_offset = off, pu_duplicate = False\<rparr>]) xs r =
      fold (\<lambda>(i, x) res. res[i := Some x]) (map (\<lambda>(i, off). (i, \<lparr>pu_partition = p, pu_offset = off, pu_duplicate = False\<rparr>)) xs) r" for xs r
    by (induction xs arbitrary: r) auto
  then show ?case using Cons by (simp add: w set_results_def writes_of_def)
qed (simp add: set_results_def writes_of_def)

text \<open>The groups that were written are those of the request.\<close>

definition written_groups :: "nat list \<Rightarrow> produced option list \<Rightarrow> (nat \<times> nat list \<times> nat list) list \<Rightarrow> bool" where
  "written_groups routed decided written \<longleftrightarrow>
     map (\<lambda>w. (fst w, fst (snd w))) written = map (\<lambda>p. (p, group_of routed decided p)) (group_partitions routed decided)"

definition sized :: "(nat \<times> nat list \<times> nat list) list \<Rightarrow> bool" where
  "sized written \<longleftrightarrow> (\<forall>(p, idxs, offs) \<in> set written. length offs = length idxs)"

lemma group_partitions_iff:
  "p \<in> set (group_partitions routed decided) \<longleftrightarrow> (\<exists>i < length routed. decided ! i = None \<and> routed ! i = p)"
  by (auto simp: group_partitions_def)

lemma group_of_empty: "p \<notin> set (group_partitions routed decided) \<Longrightarrow> group_of routed decided p = []"
  by (auto simp: group_partitions_iff group_of_def filter_empty_conv)

lemma group_partitions_distinct: "distinct (group_partitions routed decided)"
  by (simp add: group_partitions_def)

lemma writes_of_fst:
  assumes "sized written"
  shows "map fst (writes_of written) = concat (map (\<lambda>w. fst (snd w)) written)"
  using assms
proof (induction written)
  case (Cons w written)
  obtain p idxs offs where w: "w = (p, idxs, offs)" by (cases w)
  have "map fst (map (\<lambda>(i, off). (i, \<lparr>pu_partition = p, pu_offset = off, pu_duplicate = False\<rparr>)) (zip idxs offs)) = map fst (zip idxs offs)"
    by (simp add: case_prod_beta)
  moreover have "map fst (zip idxs offs) = idxs" using Cons.prems w by (simp add: sized_def)
  ultimately show ?case using Cons by (simp add: w writes_of_def sized_def)
qed (simp add: writes_of_def)

lemma groups_distinct:
  "distinct ps \<Longrightarrow> distinct (concat (map (group_of routed decided) ps))"
proof (induction ps)
  case (Cons p ps)
  then show ?case by (auto simp: group_of_def)
qed simp

lemma written_idxs:
  assumes "written_groups routed decided written"
  shows "concat (map (\<lambda>w. fst (snd w)) written) = concat (map (group_of routed decided) (group_partitions routed decided))"
proof -
  have "map snd (map (\<lambda>w. (fst w, fst (snd w))) written) = map (group_of routed decided) (group_partitions routed decided)"
    using assms by (simp add: written_groups_def comp_def)
  then show ?thesis by (simp add: case_prod_beta comp_def)
qed

lemma writes_of_distinct: "written_groups routed decided written \<Longrightarrow> sized written \<Longrightarrow> distinct (map fst (writes_of written))"
  using writes_of_fst[of written] written_idxs[of routed decided written] groups_distinct[OF group_partitions_distinct]
  by simp

lemma written_group:
  assumes "written_groups routed decided written" "(p, idxs, offs) \<in> set written"
  shows "p \<in> set (group_partitions routed decided) \<and> idxs = group_of routed decided p"
proof -
  have "(p, idxs) \<in> set (map (\<lambda>w. (fst w, fst (snd w))) written)" using assms(2) by force
  then show ?thesis using assms(1) unfolding written_groups_def by auto
qed

lemma set_results_written:
  assumes "written_groups routed decided written" "(p, idxs, offs) \<in> set written" "k < length idxs" "length decided = length routed" "sized written"
  shows "set_results written decided ! (idxs ! k) = Some \<lparr>pu_partition = p, pu_offset = offs ! k, pu_duplicate = False\<rparr>"
proof -
  have n: "length offs = length idxs" using assms(2,5) by (auto simp: sized_def)
  have g: "idxs = group_of routed decided p" using written_group[OF assms(1,2)] by simp
  have "idxs ! k < length decided" using nth_mem[OF assms(3)] assms(4) by (auto simp: g group_of_def)
  moreover have "(idxs ! k, \<lparr>pu_partition = p, pu_offset = offs ! k, pu_duplicate = False\<rparr>) \<in> set (writes_of written)"
    unfolding writes_of_def using assms(2,3) n by (fastforce simp: in_set_zip)
  then have "map_of (writes_of written) (idxs ! k) = Some \<lparr>pu_partition = p, pu_offset = offs ! k, pu_duplicate = False\<rparr>"
    using writes_of_distinct[OF assms(1,5)] by (simp add: map_of_eq_Some_iff)
  ultimately show ?thesis
    using fold_updates[OF writes_of_distinct[OF assms(1,5)]] by (simp add: set_results_eq)
qed

lemma set_results_decided:
  assumes "written_groups routed decided written" "i < length decided" "decided ! i = Some x" "sized written"
  shows "set_results written decided ! i = Some x"
proof -
  have "i \<notin> set (map fst (writes_of written))"
    using writes_of_fst[of written] written_idxs[OF assms(1)] assms by (auto simp: group_of_def)
  then have "map_of (writes_of written) i = None" by (simp add: map_of_eq_None_iff)
  then show ?thesis using fold_updates[OF writes_of_distinct[OF assms(1,4)] assms(2)] assms(3) by (simp add: set_results_eq)
qed

lemma set_results_length [simp]: "length (set_results written res) = length res"
  by (simp add: set_results_eq fold_updates_length)


section \<open>The course of a request\<close>

lemma route_keeps: "snd (route key hint t) = t\<lparr>tp_rr_counter := tp_rr_counter (snd (route key hint t))\<rparr>"
  by (cases t) (simp add: route_def Let_def split: option.split)

lemma route_records_keeps:
  "tp_partitions (snd (route_records rs t)) = tp_partitions t \<and> tp_name (snd (route_records rs t)) = tp_name t"
proof (induction rs t rule: route_records.induct)
  case (2 r rs t)
  obtain x t' where r: "route (ir_key r) (ir_partition r) t = (x, t')" by (cases "route (ir_key r) (ir_partition r) t")
  have t': "tp_partitions t' = tp_partitions t" "tp_name t' = tp_name t"
    using arg_cong[OF route_keeps[of "ir_key r" "ir_partition r" t], of tp_partitions] arg_cong[OF route_keeps[of "ir_key r" "ir_partition r" t], of tp_name]
    unfolding r by simp_all
  show ?case
  proof (cases x)
    case (Inr p)
    then show ?thesis using "2.IH"[OF r[symmetric] Inr] t'
      by (cases "route_records rs t'") (auto simp: r split: sum.splits)
  qed (simp add: r t')
qed simp

lemma route_records_range:
  assumes "route_records rs t = (Inr ps, t')" "tp_partitions t \<noteq> []"
  shows "length ps = length rs \<and> (\<forall>p \<in> set ps. p < length (tp_partitions t))"
  using assms
proof (induction rs t arbitrary: ps t' rule: route_records.induct)
  case (2 r rs t)
  from "2.prems"(1) obtain p u qs where r: "route (ir_key r) (ir_partition r) t = (Inr p, u)"
    and rs: "route_records rs u = (Inr qs, t')" and ps: "ps = p # qs"
    by (auto split: prod.splits sum.splits)
  have u: "tp_partitions u = tp_partitions t"
    using arg_cong[OF route_keeps[of "ir_key r" "ir_partition r" t], of tp_partitions] unfolding r by simp
  show ?case using "2.IH"[OF r[symmetric] refl rs] route_range[OF "2.prems"(2) r] "2.prems"(2) by (simp add: u ps)
qed simp

text \<open>What the producer of a request was admitted with.\<close>

definition seq_of :: "incoming_record \<Rightarrow> int" where
  "seq_of r = (case ir_sequence r of Some s \<Rightarrow> s | None \<Rightarrow> 0)"

definition guarded ::
    "'p request_env \<Rightarrow> api_key \<Rightarrow> string \<Rightarrow> incoming_record list \<Rightarrow> string option \<Rightarrow> nat list \<Rightarrow> produced option list \<Rightarrow>
     (string \<times> producer_state) option \<Rightarrow> registry \<Rightarrow> registry \<Rightarrow> bool" where
  "guarded en key topic_name recs producer_id routed decided guard reg reg' \<longleftrightarrow>
     (case producer_id of
        None \<Rightarrow> guard = None \<and> decided = replicate (length recs) None \<and> reg' = reg
      | Some pid \<Rightarrow> \<exists>st. guard = Some (pid, st) \<and> admit (en_now_ms en) pid (ak_key_id key) reg = (Inr st, reg') \<and>
          decide st topic_name (zip routed (map seq_of recs)) Map.empty = Inr decided \<and>
          (\<forall>r \<in> set recs. ir_sequence r = Some (seq_of r) \<and> 0 \<le> seq_of r))"

lemma produce_course:
  assumes "produce en key topic_name recs producer_id b = (res, b')" "map_of (br_topics b) topic_name = Some t"
  obtains (stop) t' where "br_topics b' = br_topics b \<or> br_topics b' = AList.update (tp_name t) t' (br_topics b)"
      "tp_partitions t' = tp_partitions t" "tp_name t' = tp_name t"
      "(recs = [] \<and> res = Inr []) \<or> (\<exists>e. res = Inl e \<and> e \<noteq> DataPanic)"
  | (writes) t' routed decided guard b1 where "write_records en key topic_name recs routed decided guard t' b1 = (res, b')"
      "tp_partitions t' = tp_partitions t" "tp_name t' = tp_name t" "br_topics b1 = AList.update (tp_name t) t' (br_topics b)"
      "route_records recs t = (Inr routed, t')" "length recs \<le> MAX_RECORDS_PER_REQUEST"
      "\<forall>r \<in> set recs. record_bytes (ir_key r) (ir_value r) \<le> cf_max_record_bytes (br_config b)"
      "guarded en key topic_name recs producer_id routed decided guard (br_producers b) (br_producers b1)"
proof -
  note P = assms(1)[unfolded produce_def assms(2) option.case Let_def]
  obtain rate ks where k: "check_produce (en_now_s en) (ak_key_id key) (sum_list (map (\<lambda>r. record_bytes (ir_key r) (ir_value r)) recs)) (br_keys b) = (rate, ks)"
    by (cases "check_produce (en_now_s en) (ak_key_id key) (sum_list (map (\<lambda>r. record_bytes (ir_key r) (ir_value r)) recs)) (br_keys b)")
  obtain rt t' where rt: "route_records recs t = (rt, t')" by (cases "route_records recs t")
  have t': "tp_partitions t' = tp_partitions t" "tp_name t' = tp_name t" using route_records_keeps[of recs t] by (simp_all add: rt)
  define b1 where "b1 = put_topic t' (b\<lparr>br_keys := ks\<rparr>)"
  have b1: "br_topics b1 = AList.update (tp_name t) t' (br_topics b)" "br_producers b1 = br_producers b" "br_config b1 = br_config b"
    by (simp_all add: b1_def put_topic_def t')
  let ?early = "\<not> can key AclWrite topic_name \<or> recs = [] \<or> length recs > MAX_RECORDS_PER_REQUEST \<or>
      list_ex (\<lambda>r. record_bytes (ir_key r) (ir_value r) > cf_max_record_bytes (br_config b)) recs \<or> (\<exists>e. rate = Inl e) \<or>
      (producer_id \<noteq> None \<and> list_ex (\<lambda>r. case ir_sequence r of None \<Rightarrow> True | Some s \<Rightarrow> s < 0) recs)"
  show thesis
  proof (cases "?early \<or> (\<exists>e. rt = Inl e)")
    case True
    then have "(br_topics b' = br_topics b \<or> br_topics b' = AList.update (tp_name t) t' (br_topics b)) \<and>
        ((recs = [] \<and> res = Inr []) \<or> (\<exists>e. res = Inl e \<and> e \<noteq> DataPanic))"
      using P b1(1) unfolding k rt prod.case b1_def[symmetric] by (auto split: if_splits sum.splits)
    then show thesis using t' by (intro stop[of t']) auto
  next
    case False
    then obtain routed where rt': "rt = Inr routed" by (cases rt) auto
    obtain u where u: "rate = Inr u" using False by (cases rate) auto
    have size: "length recs \<le> MAX_RECORDS_PER_REQUEST" "\<forall>r \<in> set recs. record_bytes (ir_key r) (ir_value r) \<le> cf_max_record_bytes (br_config b)"
      using False by (auto simp: list_ex_iff not_less)
    show thesis
    proof (cases producer_id)
      case None
      then have "write_records en key topic_name recs routed (replicate (length recs) None) None t' b1 = (res, b')"
        using P False unfolding k rt rt' u prod.case sum.case b1_def by simp
      then show thesis by (rule writes) (use t' b1 size rt rt' None in \<open>auto simp: guarded_def\<close>)
    next
      case (Some pid)
      have seqs: "\<forall>r \<in> set recs. ir_sequence r = Some (seq_of r) \<and> 0 \<le> seq_of r"
        using False Some by (auto simp: list_ex_iff seq_of_def split: option.splits)
      have so: "(\<lambda>r. case ir_sequence r of Some s \<Rightarrow> s | None \<Rightarrow> 0) = seq_of" by (simp add: seq_of_def fun_eq_iff)
      obtain ad reg where ad: "admit (en_now_ms en) pid (ak_key_id key) (br_producers b) = (ad, reg)"
        by (cases "admit (en_now_ms en) pid (ak_key_id key) (br_producers b)")
      have P': "(case ad of Inl AdmitForbidden \<Rightarrow> (Inl DataForbidden, b1\<lparr>br_producers := reg\<rparr>)
          | Inl _ \<Rightarrow> (Inl DataBadRequest, b1\<lparr>br_producers := reg\<rparr>)
          | Inr st \<Rightarrow> (case decide st topic_name (zip routed (map seq_of recs)) Map.empty of
               Inl e \<Rightarrow> (Inl e, b1\<lparr>br_producers := reg\<rparr>)
             | Inr decided \<Rightarrow> write_records en key topic_name recs routed decided (Some (pid, st)) t' (b1\<lparr>br_producers := reg\<rparr>))) = (res, b')"
        using P False Some unfolding k rt rt' u prod.case sum.case b1_def[symmetric] option.case so b1(2) ad
        by (auto simp: ad split: sum.splits admit_error.splits)
      show thesis
      proof (cases "\<exists>st decided. ad = Inr st \<and> decide st topic_name (zip routed (map seq_of recs)) Map.empty = Inr decided")
        case True
        then obtain st decided where d: "ad = Inr st" "decide st topic_name (zip routed (map seq_of recs)) Map.empty = Inr decided" by blast
        then have "write_records en key topic_name recs routed decided (Some (pid, st)) t' (b1\<lparr>br_producers := reg\<rparr>) = (res, b')"
          using P' by simp
        then show thesis by (rule writes) (use t' b1 size rt rt' Some d ad seqs in \<open>auto simp: guarded_def\<close>)
      next
        case f: False
        then have "\<exists>e. res = Inl e \<and> e \<noteq> DataPanic" "b' = b1\<lparr>br_producers := reg\<rparr>"
          using P' by (auto dest: decide_error split: sum.splits admit_error.splits)
        then show thesis using t' b1 by (intro stop[of t']) auto
      qed
    qed
  qed
qed


lemma write_groups_shape:
  assumes "write_groups ops recs grp ps parts = (ws, parts')"
  shows "map (\<lambda>w. (fst w, fst (snd w))) ws = map (\<lambda>p. (p, grp p)) ps \<and> length parts' = length parts \<and> (\<forall>p. p \<notin> set ps \<longrightarrow> parts' ! p = parts ! p)"
  using assms
proof (induction ps arbitrary: parts ws parts')
  case (Cons p ps)
  obtain r part where r: "po_append ops (map (\<lambda>i. to_append (recs ! i)) (grp p)) (parts ! p) = (r, part)"
    by (cases "po_append ops (map (\<lambda>i. to_append (recs ! i)) (grp p)) (parts ! p)")
  obtain rest parts1 where w: "write_groups ops recs grp ps (parts[p := part]) = (rest, parts1)"
    by (cases "write_groups ops recs grp ps (parts[p := part])")
  show ?case using Cons.IH[OF w] Cons.prems by (auto simp: r w)
qed simp

lemma all_written_Some:
  "all_written ws = Some written \<Longrightarrow> ws = map (\<lambda>(p, idxs, offs). (p, idxs, Inr offs)) written"
proof (induction ws arbitrary: written)
  case (Cons w ws)
  obtain p idxs r where w: "w = (p, idxs, r)" by (cases w)
  have "all_written (w # ws) = (case r of Inl _ \<Rightarrow> None | Inr offs \<Rightarrow> map_option ((#) (p, idxs, offs)) (all_written ws))"
    by (simp add: all_written_def w split: sum.split)
  then show ?case using Cons by (auto simp: w split: sum.splits)
qed (simp add: all_written_def)

lemma written_groups_of:
  assumes "write_groups ops recs (group_of routed decided) (group_partitions routed decided) parts = (ws, parts')" "all_written ws = Some written"
  shows "written_groups routed decided written"
  using write_groups_shape[OF assms(1)] all_written_Some[OF assms(2)]
  by (simp add: written_groups_def comp_def case_prod_beta)

text \<open>The sequences of an idempotent request, in the order in which they are recorded, are each accepted
  by the producer's state at that point.\<close>

lemma request_accepted:
  assumes d: "decide st topic (zip routed (map seq_of recs)) Map.empty = Inr decided" and n: "length routed = length recs"
    and s: "\<forall>r \<in> set recs. ir_sequence r = Some (seq_of r) \<and> 0 \<le> seq_of r \<and> seq_of r < i64_max"
    and w: "written_groups routed decided written"
  shows "accepted now st (journal_of topic recs written)"
proof -
  let ?rs = "zip routed (map seq_of recs)"
  define entries where "entries = (\<lambda>(p :: nat, idxs, offs :: nat list). (p, map (\<lambda>(i, off). (seq_of (recs ! i), off)) (zip idxs offs)))"
  have in_range: "i < length recs" if "(p, idxs, offs) \<in> set written" "i \<in> set idxs" for p idxs offs i
    using written_group[OF w that(1)] that(2) n by (auto simp: group_of_def)
  have j: "journal_of topic recs written = concat (map (\<lambda>(p, es). map (\<lambda>e. (topic, p, e)) es) (map entries written))"
    unfolding journal_of_def map_map
  proof (intro arg_cong[where f = concat] map_cong refl)
    fix x assume x: "x \<in> set written"
    obtain p idxs offs where e: "x = (p, idxs, offs)" by (cases x)
    have "concat (map (\<lambda>(i, off). case ir_sequence (recs ! i) of Some s \<Rightarrow> [(topic, p, s, off)] | None \<Rightarrow> []) (zip idxs offs)) =
        concat (map (\<lambda>x. [(topic, p, seq_of (recs ! fst x), snd x)]) (zip idxs offs))"
      using in_range[of p idxs offs] s x e by (intro arg_cong[where f = concat] map_cong refl) (auto dest!: set_zip_leftD)
    then show "(case x of (p, idxs, offs) \<Rightarrow> concat (map (\<lambda>(i, off). case ir_sequence (recs ! i) of Some s \<Rightarrow> [(topic, p, s, off)] | None \<Rightarrow> []) (zip idxs offs))) =
        ((\<lambda>(p, es). map (\<lambda>e. (topic, p, e)) es) \<circ> entries) x"
      unfolding e entries_def prod.case comp_def by (simp add: case_prod_beta comp_def)
  qed
  show ?thesis unfolding j
  proof (rule groups_accepted)
    have "map fst (map entries written) = group_partitions routed decided"
      using arg_cong[OF w[unfolded written_groups_def], of "map fst"] by (simp add: entries_def comp_def case_prod_beta)
    then show "distinct (map fst (map entries written))" by (simp add: group_partitions_distinct)
  next
    fix p es assume "(p, es) \<in> set (map entries written)"
    then obtain idxs offs where e: "(p, idxs, offs) \<in> set written" "es = map (\<lambda>(i, off). (seq_of (recs ! i), off)) (zip idxs offs)"
      by (auto simp: entries_def)
    have c: "chain st topic p None (accepted_for p ?rs decided)" and l: "length decided = length ?rs" using decide_chain[OF d, of p] by auto
    have "accepted_for p ?rs decided = map (\<lambda>i. seq_of (recs ! i)) idxs"
      using written_group[OF w e(1)] l n by (auto simp: accepted_for_index group_of_def intro!: map_cong filter_cong)
    moreover have "map fst es = take (length offs) (map (\<lambda>i. seq_of (recs ! i)) idxs)"
      using arg_cong[OF map_fst_zip_take[of idxs offs], of "map (\<lambda>i. seq_of (recs ! i))"]
      by (simp add: e(2) case_prod_beta comp_def take_map min_def split: if_splits)
    ultimately have "chain st topic p None (map fst es)" using chain_take[OF c] by simp
    moreover have "\<forall>(s, f) \<in> set es. 0 \<le> s \<and> s < i64_max"
      using in_range[OF e(1)] s by (auto simp: e(2) dest!: set_zip_leftD)
    ultimately show "chain st topic p None (map fst es) \<and> (\<forall>(s, f) \<in> set es. 0 \<le> s \<and> s < i64_max)" by blast
  qed simp
qed


lemma put_topic_lookup: "map_of (br_topics (put_topic t b)) = (map_of (br_topics b))(tp_name t \<mapsto> t)"
  by (simp add: put_topic_def update_conv')

lemma put_topic_fields [simp]:
  "br_producers (put_topic t b) = br_producers b" "br_keys (put_topic t b) = br_keys b" "br_config (put_topic t b) = br_config b"
  by (simp_all add: put_topic_def)

lemma keep_dropped_none: "keep_dropped (\<lambda>_. False) old new = new"
  by (simp add: keep_dropped_def map_nth)

lemma write_records_course:
  assumes "write_records en key topic recs routed decided guard t b = (res, b')"
    and "write_groups (en_ops en) recs (group_of routed decided) (group_partitions routed decided) (tp_partitions t) = (ws, parts)"
  obtains (failed) u dropped where "map_of (br_topics b') = (map_of (br_topics b))(tp_name t \<mapsto> u)"
      "tp_partitions u = keep_dropped dropped (tp_partitions t) parts" "res = Inl DataInternal"
  | (finished) u written where "map_of (br_topics b') = (map_of (br_topics b))(tp_name t \<mapsto> u)" "tp_partitions u = parts"
      "all_written ws = Some written"
      "res = (if list_all (\<lambda>x. x \<noteq> None) (set_results written decided) then Inr (map the (set_results written decided)) else Inl DataPanic)"
      "case guard of None \<Rightarrow> br_producers b' = br_producers b
       | Some (pid, st) \<Rightarrow> journal (en_json en) (en_journal_io en) pid (ak_key_id key) (journal_of topic recs written)
           (put_producer pid (record_all (en_now_ms en) (journal_of topic recs written) st) (br_producers b)) = (Inr (), br_producers b')"
proof (cases "all_written ws")
  case None
  then show thesis using assms(1)
    by (intro failed[of "t\<lparr>tp_partitions := keep_dropped (en_dropped en) (tp_partitions t) parts\<rparr>" "en_dropped en"])
      (auto simp: write_records_def assms(2) put_topic_lookup)
next
  case (Some written)
  show thesis
  proof (cases guard)
    case None
    then show thesis using assms(1) Some
      by (intro finished[OF _ _ Some]) (auto simp: write_records_def assms(2) Let_def put_topic_lookup split: if_splits)
  next
    case g: (Some x)
    obtain pid st where x: "x = (pid, st)" by (cases x)
    let ?es = "journal_of topic recs written"
    obtain r reg where r: "journal (en_json en) (en_journal_io en) pid (ak_key_id key) ?es (put_producer pid (record_all (en_now_ms en) ?es st) (br_producers b)) = (r, reg)"
      by (cases "journal (en_json en) (en_journal_io en) pid (ak_key_id key) ?es (put_producer pid (record_all (en_now_ms en) ?es st) (br_producers b))")
    show thesis
    proof (cases r)
      case (Inl e)
      then show thesis using assms(1) Some g x r
        by (intro failed[of "t\<lparr>tp_partitions := parts\<rparr>" "\<lambda>_. False"]) (auto simp: keep_dropped_none write_records_def assms(2) Let_def put_topic_def update_conv')
    next
      case (Inr v)
      then show thesis using assms(1) Some g x r
        by (intro finished[OF _ _ Some]) (auto simp: write_records_def assms(2) Let_def put_topic_def update_conv' split: if_splits)
    qed
  qed
qed

lemma fold_updates_origin:
  "i < length res \<Longrightarrow> fold (\<lambda>(i, x) res. res[i := Some x]) xs res ! i = Some x \<Longrightarrow> (i, x) \<in> set xs \<or> res ! i = Some x"
proof (induction xs arbitrary: res)
  case (Cons y xs)
  obtain j z where y: "y = (j, z)" by (cases y)
  show ?case using Cons.IH[of "res[j := Some z]"] Cons.prems by (cases "i = j") (auto simp: y)
qed simp

lemma admit_slot: "admit now pid owner r = (Inr st, r') \<Longrightarrow> map_of (rg_state r') pid = Some st"
  by (auto simp: admit_def Let_def update_conv' split: if_splits sum.splits prod.splits)


lemma route_records_length: "route_records rs t = (Inr ps, t') \<Longrightarrow> length ps = length rs"
  by (induction rs t arbitrary: ps t' rule: route_records.induct) (auto split: prod.splits sum.splits)

lemma journal_done: "journal js io pid owner es r = (Inr (), r') \<Longrightarrow> journal js JournalDone pid owner es r = (Inr (), r')"
  by (auto simp: journal_def Let_def split: if_splits journal_io.splits)

lemma writes_journaled:
  assumes "(i, x) \<in> set (writes_of written)" "ir_sequence (recs ! i) = Some s"
  shows "(topic, pu_partition x, s, pu_offset x) \<in> set (journal_of topic recs written)"
proof -
  obtain p idxs offs off where w: "(p, idxs, offs) \<in> set written" "(i, off) \<in> set (zip idxs offs)"
    "x = \<lparr>pu_partition = p, pu_offset = off, pu_duplicate = False\<rparr>"
    using assms(1) by (auto simp: writes_of_def)
  have "(topic, p, s, off) \<in> set (concat (map (\<lambda>(i, off). case ir_sequence (recs ! i) of Some s \<Rightarrow> [(topic, p, s, off)] | None \<Rightarrow> []) (zip idxs offs)))"
    unfolding set_concat set_map using assms(2) by (intro UN_I[OF imageI[OF w(2)]]) simp
  then show ?thesis unfolding journal_of_def set_concat set_map by (intro UN_I[OF imageI[OF w(1)]]) (simp add: w(3))
qed

lemma writes_fresh: "(i, x) \<in> set (writes_of written) \<Longrightarrow> \<not> pu_duplicate x"
  by (auto simp: writes_of_def)

lemma add_history_mem: "(t, n, s, f) \<in> set es \<Longrightarrow> (s, f) \<in> set (entries_for pid (t, n) (map (entry_of pid []) es))"
  by (force simp: entries_for_def entry_of_def)

text \<open>An answered idempotent request of a producer the registry answers for is one acknowledged step of
  the registry, and every record of it is in the histories with the offset it was answered.\<close>

lemma produce_acknowledged:
  assumes p: "produce en key topic recs (Some pid) b = (Inr out, b')"
    and seqs: "\<forall>r \<in> set recs. seq_of r < i64_max"
    and inv: "registry_inv (en_json en) (H, F, br_producers b)" "full_registry (br_producers b)" "producer_json_ok (en_json en)" and F: "pid \<notin> F"
  shows "length out = length recs \<and> (\<exists>H'. (broker_step (en_json en))\<^sup>*\<^sup>* (H, F, br_producers b) (H', F, br_producers b') \<and>
     (\<forall>i < length recs. (seq_of (recs ! i), pu_offset (out ! i)) \<in> set (H' pid (topic, pu_partition (out ! i))) \<and>
        (if pu_duplicate (out ! i) then (seq_of (recs ! i), pu_offset (out ! i)) \<in> set (H pid (topic, pu_partition (out ! i)))
         else seq_of (recs ! i) \<notin> fst ` set (H pid (topic, pu_partition (out ! i))))))"
proof (cases "map_of (br_topics b) topic")
  case None
  then show ?thesis using p by (simp add: produce_def split: if_splits)
next
  case (Some t)
  from p Some show ?thesis
  proof (cases rule: produce_course)
    case (stop t')
    then show ?thesis using p by (auto simp: produce_def Some split: if_splits intro!: exI[of _ H])
  next
    case (writes t' routed decided guard b1)
    obtain st where g: "guard = Some (pid, st)" "admit (en_now_ms en) pid (ak_key_id key) (br_producers b) = (Inr st, br_producers b1)"
      "decide st topic (zip routed (map seq_of recs)) Map.empty = Inr decided" "\<forall>r \<in> set recs. ir_sequence r = Some (seq_of r) \<and> 0 \<le> seq_of r"
      using writes(8) by (auto simp: guarded_def)
    have n: "length routed = length recs" by (rule route_records_length[OF writes(5)])
    then have d: "length decided = length recs" using decide_chain[OF g(3)] by simp
    obtain ws parts where ws: "write_groups (en_ops en) recs (group_of routed decided) (group_partitions routed decided) (tp_partitions t') = (ws, parts)"
      by (cases "write_groups (en_ops en) recs (group_of routed decided) (group_partitions routed decided) (tp_partitions t')")
    from writes(1) ws show ?thesis
    proof (cases rule: write_records_course)
      case (finished u written)
      let ?es = "journal_of topic recs written"
      have out: "out = map the (set_results written decided)" "list_all (\<lambda>x. x \<noteq> None) (set_results written decided)"
        using finished(4) by (auto split: if_splits)
      note wg = written_groups_of[OF ws finished(3)]
      have acc: "accepted (en_now_ms en) st ?es" using request_accepted[OF g(3) n _ wg] g(4) seqs by blast
      have adm: "broker_step (en_json en) (H, F, br_producers b) (H, F, br_producers b1)" using g(2) by (rule step_admit)
      have "journal (en_json en) JournalDone pid (ak_key_id key) ?es (put_producer pid (record_all (en_now_ms en) ?es st) (br_producers b1)) = (Inr (), br_producers b')"
        using finished(5) by (intro journal_done) (simp add: g(1))
      from step_produce[OF admit_slot[OF g(2)] this refl, of H F]
      have prod: "broker_step (en_json en) (H, F, br_producers b1) (add_history pid ?es H, F, br_producers b')" using acc by simp
      have mem: "mem_ok F H (br_producers b1)" "mem_ok F (add_history pid ?es H) (br_producers b')"
        using registry_inv_step[OF inv(3,1) adm] registry_inv_step[OF inv(3) _ prod] by (simp_all add: registry_inv_def)
      have "(seq_of (recs ! i), pu_offset (out ! i)) \<in> set (add_history pid ?es H pid (topic, pu_partition (out ! i))) \<and>
        (if pu_duplicate (out ! i) then (seq_of (recs ! i), pu_offset (out ! i)) \<in> set (H pid (topic, pu_partition (out ! i)))
         else seq_of (recs ! i) \<notin> fst ` set (H pid (topic, pu_partition (out ! i))))" if i: "i < length recs" for i
      proof -
        have x: "set_results written decided ! i = Some (out ! i)" using out i d by (simp add: list_all_length)
        consider (new) "(i, out ! i) \<in> set (writes_of written)" | (old) "decided ! i = Some (out ! i)"
          using fold_updates_origin[of i decided "writes_of written" "out ! i"] x i d by (auto simp: set_results_eq)
        then show ?thesis
        proof cases
          case new
          have e: "(seq_of (recs ! i), pu_offset (out ! i)) \<in> set (entries_for pid (topic, pu_partition (out ! i)) (map (entry_of pid []) ?es))"
            using new g(4) i by (intro add_history_mem writes_journaled) auto
          moreover have "distinct (map fst (add_history pid ?es H pid (topic, pu_partition (out ! i))))"
            by (rule consecutive_distinct[OF mem_okD(2)[OF mem(2) F]])
          ultimately show ?thesis using writes_fresh[OF new] by (force simp: add_history_def)
        next
          case old
          have "pu_duplicate (out ! i) \<and> pu_partition (out ! i) = routed ! i \<and> check st topic (routed ! i) (seq_of (recs ! i)) = Duplicate (pu_offset (out ! i))"
            using decide_duplicates[OF g(3) _ old] i n by simp
          moreover have "(seq_of (recs ! i), pu_offset (out ! i)) \<in> set (H pid (topic, routed ! i))"
            using calculation full_admit[OF g(2) inv(2)] by (intro mem_ok_duplicate[OF mem(1) F _ admit_slot[OF g(2)]]) auto
          ultimately show ?thesis by (simp add: add_history_def)
        qed
      qed
      moreover have "(broker_step (en_json en))\<^sup>*\<^sup>* (H, F, br_producers b) (add_history pid ?es H, F, br_producers b')"
        using adm prod by (meson converse_rtranclp_into_rtranclp r_into_rtranclp)
      moreover have "length out = length recs" using out(1) d by simp
      ultimately show ?thesis by blast
    qed simp
  qed
qed

end
