(* ===== verification/Dataplane_Log.thy ===== *)
theory Dataplane_Log
  imports Dataplane
begin

text \<open>
  What produce does to the partitions of a topic. The log behind a partition is the interface
  \<open>record_log\<close>; produce is proved correct over it once, and a partition without Raft implements it.
  Then the properties of requests: what is appended, what an idempotent producer is answered, and
  that a consumer that follows the offsets it is given receives everything.
\<close>

section \<open>What a request does to the partitions\<close>

text \<open>What produce relies on of the log behind a partition: \<open>holds p rs\<close> says that the log has the records
  \<open>rs\<close>, \<open>ready p n\<close> that \<open>n\<close> more fit its numbering, \<open>limit\<close> bounds the bytes of a record. An append adds
  its records in order at the offsets it answers, or fails and has added the first few of them.\<close>

definition payload :: "es_record \<Rightarrow> u8 list option \<times> u8 list" where
  "payload r = (r_key r, r_value r)"

lemma map_pair: "map f xs = map f' ys \<Longrightarrow> map g xs = map g' ys \<Longrightarrow> map (\<lambda>x. (f x, g x)) xs = map (\<lambda>y. (f' y, g' y)) ys"
  by (induction xs arbitrary: ys) (auto simp: Cons_eq_map_conv)

lemma shape_member:
  assumes "map (\<lambda>w. (fst w, fst (snd w))) ws = map (\<lambda>p. (p, f p)) ps" "p \<in> set ps"
  shows "\<exists>r. (p, f p, r) \<in> set ws"
proof -
  have "(p, f p) \<in> set (map (\<lambda>w. (fst w, fst (snd w))) ws)" unfolding assms(1) using assms(2) by simp
  then show ?thesis by force
qed

lemma group_subseq: "subseq (map f (group_of routed decided p)) (map f [0..<length routed])"
  unfolding group_of_def by (intro subseq_map subseq_filter_left)

lemma decided_ok:
  assumes "guarded en key topic recs producer_id routed decided guard reg reg'" "length routed = length recs"
  shows "length decided = length recs" "\<And>i x. i < length recs \<Longrightarrow> decided ! i = Some x \<Longrightarrow> pu_duplicate x \<and> pu_partition x = routed ! i"
    "producer_id = None \<Longrightarrow> i < length recs \<Longrightarrow> decided ! i = None"
  using assms decide_chain decide_duplicates by (auto simp: guarded_def split: option.splits)

text \<open>The answer to a request whose groups were all written, record by record.\<close>

lemma answers:
  assumes wg: "written_groups routed decided written" "sized written" and n: "length decided = length routed" and i: "i < length routed"
    and dup: "\<And>x. decided ! i = Some x \<Longrightarrow> pu_duplicate x \<and> pu_partition x = routed ! i"
  shows "\<exists>x. set_results written decided ! i = Some x \<and> pu_partition x = routed ! i \<and> (pu_duplicate x \<longleftrightarrow> decided ! i \<noteq> None)"
proof (cases "decided ! i")
  case None
  let ?p = "routed ! i"
  have "?p \<in> set (group_partitions routed decided)" using None i by (auto simp: group_partitions_iff)
  then obtain offs where w: "(?p, group_of routed decided ?p, offs) \<in> set written" using shape_member[OF wg(1)[unfolded written_groups_def]] by blast
  have "i \<in> set (group_of routed decided ?p)" using None i by (simp add: group_of_def)
  then obtain k where k: "k < length (group_of routed decided ?p)" "group_of routed decided ?p ! k = i" by (auto simp: in_set_conv_nth)
  show ?thesis using set_results_written[OF wg(1) w k(1) n wg(2)] None by (simp add: k(2))
next
  case (Some x)
  then show ?thesis using set_results_decided[OF wg(1) _ Some wg(2)] dup[OF Some] i n by auto
qed

lemma answers_offsets:
  assumes "written_groups routed decided written" "sized written" "length decided = length routed" "(p, idxs, offs) \<in> set written"
  shows "map (\<lambda>i. pu_offset (the (set_results written decided ! i))) idxs = offs"
  using set_results_written[OF assms(1,4) _ assms(3,2)] assms(2,4)
  by (intro nth_equalityI) (auto simp: sized_def)

locale record_log =
  fixes app :: "append_record list \<Rightarrow> 'p \<Rightarrow> (append_error + nat list) \<times> 'p"
    and holds :: "'p \<Rightarrow> es_record list \<Rightarrow> bool"
    and ready :: "'p \<Rightarrow> nat \<Rightarrow> bool"
    and limit :: nat
  assumes append_done: "holds p rs \<Longrightarrow> ready p (length irs) \<Longrightarrow> \<forall>r \<in> set irs. record_bytes (ir_key r) (ir_value r) \<le> limit \<Longrightarrow>
      app (map to_append irs) p = (Inr offs, p') \<Longrightarrow>
      \<exists>new. holds p' (rs @ new) \<and> map r_offset new = offs \<and> map payload new = map (\<lambda>r. (ir_key r, ir_value r)) irs"
    and append_failed: "holds p rs \<Longrightarrow> ready p (length irs) \<Longrightarrow> \<forall>r \<in> set irs. record_bytes (ir_key r) (ir_value r) \<le> limit \<Longrightarrow>
      app (map to_append irs) p = (Inl e, p') \<Longrightarrow>
      \<exists>new. holds p' (rs @ new) \<and> prefix (map payload new) (map (\<lambda>r. (ir_key r, ir_value r)) irs)"
begin

lemma write_groups_hold:
  assumes "write_groups ops recs grp ps parts = (ws, parts')" "po_append ops = app" "distinct ps" "\<forall>p \<in> set ps. p < length parts"
    and "\<forall>p \<in> set ps. holds (parts ! p) (L p) \<and> ready (parts ! p) (length (grp p))"
    and "\<forall>p \<in> set ps. \<forall>i \<in> set (grp p). record_bytes (ir_key (recs ! i)) (ir_value (recs ! i)) \<le> limit"
  shows "\<forall>(p, idxs, r) \<in> set ws. \<exists>new. holds (parts' ! p) (L p @ new) \<and>
     (case r of Inr offs \<Rightarrow> map r_offset new = offs \<and> map payload new = map (\<lambda>i. (ir_key (recs ! i), ir_value (recs ! i))) idxs
      | Inl e \<Rightarrow> prefix (map payload new) (map (\<lambda>i. (ir_key (recs ! i), ir_value (recs ! i))) idxs))"
  using assms
proof (induction ps arbitrary: parts ws parts')
  case (Cons p ps)
  obtain r part where r: "app (map to_append (map ((!) recs) (grp p))) (parts ! p) = (r, part)"
    by (cases "app (map to_append (map ((!) recs) (grp p))) (parts ! p)")
  have r': "po_append ops (map (\<lambda>i. to_append (recs ! i)) (grp p)) (parts ! p) = (r, part)" using r Cons.prems(2) by (simp add: comp_def)
  obtain rest parts1 where w: "write_groups ops recs grp ps (parts[p := part]) = (rest, parts1)"
    by (cases "write_groups ops recs grp ps (parts[p := part])")
  have ws: "ws = (p, grp p, r) # rest" "parts' = parts1" using Cons.prems(1) by (simp_all add: r' w)
  have lim: "\<forall>x \<in> set (map ((!) recs) (grp p)). record_bytes (ir_key x) (ir_value x) \<le> limit" using Cons.prems(6) by simp
  have h: "holds (parts ! p) (L p)" "ready (parts ! p) (length (map ((!) recs) (grp p)))" using Cons.prems(5) by simp_all
  have "parts1 ! p = part" using write_groups_shape[OF w] Cons.prems(3,4) by simp
  moreover have "\<exists>new. holds part (L p @ new) \<and>
     (case r of Inr offs \<Rightarrow> map r_offset new = offs \<and> map payload new = map (\<lambda>i. (ir_key (recs ! i), ir_value (recs ! i))) (grp p)
      | Inl e \<Rightarrow> prefix (map payload new) (map (\<lambda>i. (ir_key (recs ! i), ir_value (recs ! i))) (grp p)))"
    using append_done[OF h lim, of _ part] append_failed[OF h lim, of _ part] r by (cases r) (simp_all add: comp_def)
  moreover have "\<forall>q \<in> set ps. parts[p := part] ! q = parts ! q" using Cons.prems(3) by (metis distinct.simps(2) nth_list_update_neq)
  then have "\<forall>(p, idxs, r) \<in> set rest. \<exists>new. holds (parts1 ! p) (L p @ new) \<and>
     (case r of Inr offs \<Rightarrow> map r_offset new = offs \<and> map payload new = map (\<lambda>i. (ir_key (recs ! i), ir_value (recs ! i))) idxs
      | Inl e \<Rightarrow> prefix (map payload new) (map (\<lambda>i. (ir_key (recs ! i), ir_value (recs ! i))) idxs))"
    using Cons.prems by (intro Cons.IH[OF w]) auto
  ultimately show ?case by (simp add: ws)
qed simp

lemma choose_grown:
  assumes "\<And>p. p < n \<Longrightarrow> \<exists>new. holds (parts ! p) (L p @ new) \<and> Q p new"
  shows "\<exists>N. \<forall>p < n. holds (parts ! p) (L p @ N p) \<and> Q p (N p)"
proof -
  have "\<forall>p. \<exists>new. p < n \<longrightarrow> holds (parts ! p) (L p @ new) \<and> Q p new" using assms by blast
  from choice[OF this] show ?thesis by blast
qed

lemma produce_stores:
  assumes p: "produce en key topic recs producer_id b = (res, b')" "po_append (en_ops en) = app"
    and t: "map_of (br_topics b) topic = Some t" "tp_name t = topic" "tp_partitions t \<noteq> []"
    and h: "\<forall>p < length (tp_partitions t). holds (tp_partitions t ! p) (L p) \<and> (\<forall>n \<le> MAX_RECORDS_PER_REQUEST. ready (tp_partitions t ! p) n)"
    and lim: "cf_max_record_bytes (br_config b) \<le> limit"
  shows "res \<noteq> Inl DataPanic \<and> (\<exists>u N. map_of (br_topics b') topic = Some u \<and> length (tp_partitions u) = length (tp_partitions t) \<and>
     (\<forall>p < length (tp_partitions t). holds (tp_partitions u ! p) (L p @ N p)) \<and>
     (case res of
        Inr out \<Rightarrow> length out = length recs \<and> (\<forall>x \<in> set out. pu_partition x < length (tp_partitions t) \<and> (producer_id = None \<longrightarrow> \<not> pu_duplicate x)) \<and>
          (\<forall>p < length (tp_partitions t). map (\<lambda>r. (r_offset r, payload r)) (N p) =
             map (\<lambda>i. (pu_offset (out ! i), ir_key (recs ! i), ir_value (recs ! i)))
               (filter (\<lambda>i. \<not> pu_duplicate (out ! i) \<and> pu_partition (out ! i) = p) [0..<length recs]))
      | Inl e \<Rightarrow> \<forall>p < length (tp_partitions t). subseq (map payload (N p)) (map (\<lambda>r. (ir_key r, ir_value r)) recs)))"
  using p(1) t(1)
proof (cases rule: produce_course)
  case (stop t')
  have "\<exists>u. map_of (br_topics b') topic = Some u \<and> tp_partitions u = tp_partitions t" using stop(1-3) t(1,2) by (auto simp: update_conv')
  then obtain u where u: "map_of (br_topics b') topic = Some u" "tp_partitions u = tp_partitions t" by blast
  show ?thesis using stop(4) h u by (intro conjI exI[of _ u] exI[of _ "\<lambda>_. []"]) auto
next
  case (writes t' routed decided guard b1)
  let ?parts = "tp_partitions t"
  let ?in = "\<lambda>i. (ir_key (recs ! i), ir_value (recs ! i))"
  let ?ps = "group_partitions routed decided" and ?grp = "group_of routed decided"
  have n: "length routed = length recs" "\<forall>p \<in> set routed. p < length ?parts" using route_records_range[OF writes(5) t(3)] by simp_all
  note d = decided_ok[OF writes(8) n(1)]
  have ps: "\<forall>p \<in> set ?ps. p < length ?parts" using n(2) by (auto simp: group_partitions_iff)
  have len: "length (?grp p) \<le> length recs" for p using n(1) length_filter_le[of _ "[0..<length routed]"] by (simp add: group_of_def)
  obtain ws parts where ws: "write_groups (en_ops en) recs ?grp ?ps (tp_partitions t') = (ws, parts)"
    by (cases "write_groups (en_ops en) recs ?grp ?ps (tp_partitions t')")
  note sh = write_groups_shape[OF ws, unfolded writes(2)]
  have len_parts: "length parts = length ?parts" using sh by blast
  have W: "\<forall>(p, idxs, r) \<in> set ws. \<exists>new. holds (parts ! p) (L p @ new) \<and>
     (case r of Inr offs \<Rightarrow> map r_offset new = offs \<and> map payload new = map ?in idxs | Inl e \<Rightarrow> prefix (map payload new) (map ?in idxs))"
  proof (rule write_groups_hold[OF ws[unfolded writes(2)] p(2) group_partitions_distinct ps])
    show "\<forall>p \<in> set ?ps. holds (?parts ! p) (L p) \<and> ready (?parts ! p) (length (?grp p))"
      using h ps len writes(6) order_trans by blast
    have "record_bytes (ir_key (recs ! i)) (ir_value (recs ! i)) \<le> limit" if "i < length recs" for i
      using writes(7) lim nth_mem[OF that] order_trans by blast
    then show "\<forall>p \<in> set ?ps. \<forall>i \<in> set (?grp p). record_bytes (ir_key (recs ! i)) (ir_value (recs ! i)) \<le> limit"
      using n(1) by (simp add: group_of_def)
  qed
  have grown: "\<exists>new. holds (parts ! p) (L p @ new) \<and> subseq (map payload new) (map (\<lambda>r. (ir_key r, ir_value r)) recs)" if "p < length ?parts" for p
  proof (cases "p \<in> set ?ps")
    case True
    then obtain r where r: "(p, ?grp p, r) \<in> set ws" using shape_member[OF conjunct1[OF sh]] by blast
    have "subseq (map ?in (?grp p)) (map ?in [0..<length routed])" by (rule group_subseq)
    moreover have "map ?in [0..<length routed] = map (\<lambda>r. (ir_key r, ir_value r)) recs"
      by (rule nth_equalityI) (simp_all add: n(1))
    ultimately have g: "subseq (map ?in (?grp p)) (map (\<lambda>r. (ir_key r, ir_value r)) recs)" by simp
    obtain new where "holds (parts ! p) (L p @ new)" "prefix (map payload new) (map ?in (?grp p))"
      using bspec[OF W r] by (cases r) auto
    then show ?thesis using subseq_order.order_trans[OF prefix_imp_subseq g] by blast
  next
    case False
    then have "parts ! p = ?parts ! p" using sh by blast
    moreover have "holds (?parts ! p) (L p)" using h that by blast
    ultimately show ?thesis by (intro exI[of _ "[]"]) simp
  qed
  from writes(1) ws show ?thesis
  proof (cases rule: write_records_course)
    case (failed u dropped)
    have u: "length (tp_partitions u) = length ?parts" "\<And>p. p < length ?parts \<Longrightarrow> tp_partitions u ! p = (if dropped p then ?parts ! p else parts ! p)"
      using failed(2) writes(2) len_parts by (simp_all add: keep_dropped_def)
    have "\<exists>new. holds (tp_partitions u ! p) (L p @ new) \<and> subseq (map payload new) (map (\<lambda>r. (ir_key r, ir_value r)) recs)" if p: "p < length ?parts" for p
      using grown[OF p] h p u(2)[OF p] by (cases "dropped p") (auto intro: exI[of _ "[]"])
    then obtain N where "\<forall>p < length ?parts. holds (tp_partitions u ! p) (L p @ N p) \<and> subseq (map payload (N p)) (map (\<lambda>r. (ir_key r, ir_value r)) recs)"
      using choose_grown[where Q = "\<lambda>p new. subseq (map payload new) (map (\<lambda>r. (ir_key r, ir_value r)) recs)"] by blast
    then show ?thesis using failed u(1) writes(3) t(2) by (intro conjI exI[of _ u] exI[of _ N]) auto
  next
    case (finished u written)
    note wg = written_groups_of[OF ws finished(3)] and wr = all_written_Some[OF finished(3)]
    have W': "\<exists>new. holds (parts ! p) (L p @ new) \<and> map r_offset new = offs \<and> map payload new = map ?in idxs" if "(p, idxs, offs) \<in> set written" for p idxs offs
    proof -
      have "(p, idxs, Inr offs) \<in> set ws" unfolding wr set_map by (rule rev_image_eqI[OF that]) simp
      from bspec[OF W this] show ?thesis by simp
    qed
    have "length offs = length idxs" if w: "(p, idxs, offs) \<in> set written" for p idxs offs
    proof -
      obtain new where "map r_offset new = offs" "map payload new = map ?in idxs" using W'[OF w] by blast
      then show ?thesis using map_eq_imp_length_eq by auto
    qed
    then have sz: "sized written" unfolding sized_def by blast
    have nd: "length decided = length routed" using d(1) n(1) by simp
    define out where "out = map the (set_results written decided)"
    have out: "set_results written decided ! i = Some (out ! i) \<and> pu_partition (out ! i) = routed ! i \<and> (pu_duplicate (out ! i) \<longleftrightarrow> decided ! i \<noteq> None)"
      if "i < length recs" for i
      using answers[OF wg sz nd, of i] d(2)[of i] that n(1) nd by (auto simp: out_def)
    then have all: "list_all (\<lambda>x. x \<noteq> None) (set_results written decided)" by (simp add: list_all_length d(1))
    have res: "res = Inr out" "length out = length recs" using finished(4) all d(1) by (simp_all add: out_def)
    have fresh: "filter (\<lambda>i. \<not> pu_duplicate (out ! i) \<and> pu_partition (out ! i) = p) [0..<length recs] = ?grp p" for p
      unfolding group_of_def n(1) by (rule filter_cong) (auto simp: out)
    have "\<exists>new. holds (parts ! p) (L p @ new) \<and> map (\<lambda>r. (r_offset r, payload r)) new = map (\<lambda>i. (pu_offset (out ! i), ?in i)) (?grp p)"
      if "p < length ?parts" for p
    proof (cases "p \<in> set ?ps")
      case True
      then obtain offs where o': "(p, ?grp p, offs) \<in> set written" using shape_member[OF wg[unfolded written_groups_def]] by blast
      then obtain new where new: "holds (parts ! p) (L p @ new)" "map r_offset new = offs" "map payload new = map ?in (?grp p)" using W' by blast
      have "map (\<lambda>i. pu_offset (out ! i)) (?grp p) = map (\<lambda>i. pu_offset (the (set_results written decided ! i))) (?grp p)"
        by (rule map_cong) (auto simp: out_def group_of_def nd)
      then have "map r_offset new = map (\<lambda>i. pu_offset (out ! i)) (?grp p)" using answers_offsets[OF wg sz nd o'] new(2) by simp
      from map_pair[OF this new(3)] new(1) show ?thesis by blast
    next
      case False
      then have "parts ! p = ?parts ! p" using sh by blast
      moreover have "holds (?parts ! p) (L p)" using h that by blast
      ultimately show ?thesis using group_of_empty[OF False] by (intro exI[of _ "[]"]) simp
    qed
    then obtain N where N: "\<forall>p < length ?parts. holds (parts ! p) (L p @ N p) \<and>
        map (\<lambda>r. (r_offset r, payload r)) (N p) = map (\<lambda>i. (pu_offset (out ! i), ?in i)) (?grp p)"
      using choose_grown[where Q = "\<lambda>p new. map (\<lambda>r. (r_offset r, payload r)) new = map (\<lambda>i. (pu_offset (out ! i), ?in i)) (?grp p)"] by blast
    moreover have "\<forall>x \<in> set out. pu_partition x < length ?parts \<and> (producer_id = None \<longrightarrow> \<not> pu_duplicate x)"
      using out d(3) n(1) bspec[OF n(2) nth_mem] res(2) by (auto simp: in_set_conv_nth)
    ultimately show ?thesis using finished(1,2) writes(3) t(2) len_parts res
      by (intro conjI exI[of _ u] exI[of _ N]) (simp_all add: fresh)
  qed
qed

end


text \<open>A partition without Raft is such a log, for the records that pass the size limit of the configuration.\<close>

definition plain_holds :: "(u8 list \<Rightarrow> 32 word) \<Rightarrow> partition \<Rightarrow> es_record list \<Rightarrow> bool" where
  "plain_holds crc p rs \<longleftrightarrow> (\<exists>ss. part_inv crc p ss \<and> contents ss = rs)"

definition plain_ready :: "int \<Rightarrow> partition \<Rightarrow> nat \<Rightarrow> bool" where
  "plain_ready now p n \<longleftrightarrow> pt_next_offset p + n \<le> u64_max \<and> i64_min \<le> now \<and> now \<le> i64_max"

definition CAP :: nat where "CAP = 32 * 1024 * 1024"

lemma assign_to_append:
  assumes "\<forall>r \<in> set irs. record_bytes (ir_key r) (ir_value r) \<le> CAP" "nxt + length irs \<le> u64_max" "i64_min \<le> now" "now \<le> i64_max"
  shows "map r_offset (snd (assign now nxt (map to_append irs))) = fst (assign now nxt (map to_append irs)) \<and>
     map payload (snd (assign now nxt (map to_append irs))) = map (\<lambda>r. (ir_key r, ir_value r)) irs \<and>
     list_all wf_record (snd (assign now nxt (map to_append irs)))"
  using assms(1,2)
proof (induction irs arbitrary: nxt)
  case (Cons r irs)
  have "key_bytes_len (ir_key r) + length (ir_value r) \<le> CAP" using Cons.prems(1) by (simp add: record_bytes_def key_bytes_len_def)
  then have "wf_record \<lparr>r_offset = nxt, r_timestamp_ms = now, r_key = ir_key r, r_value = ir_value r\<rparr>"
    using Cons.prems(2) assms(3,4) by (simp add: wf_record_def rec_size_eq record_consts CAP_def)
  then show ?case using Cons.IH[of "nxt + 1"] Cons.prems by (simp add: to_append_def payload_def)
qed simp

lemma plain_append:
  assumes "plain_holds crc p rs" "plain_ready now p (length irs)" "\<forall>r \<in> set irs. record_bytes (ir_key r) (ir_value r) \<le> CAP"
    and "po_append (plain_ops crc now) (map to_append irs) p = (res, p')"
  shows "\<exists>new. plain_holds crc p' (rs @ new) \<and>
     (case res of Inr offs \<Rightarrow> map r_offset new = offs \<and> map payload new = map (\<lambda>r. (ir_key r, ir_value r)) irs
      | Inl e \<Rightarrow> prefix (map payload new) (map (\<lambda>r. (ir_key r, ir_value r)) irs))"
proof -
  let ?a = "assign now (pt_next_offset p) (map to_append irs)"
  have a: "map r_offset (snd ?a) = fst ?a" "map payload (snd ?a) = map (\<lambda>r. (ir_key r, ir_value r)) irs" "list_all wf_record (snd ?a)"
    using assign_to_append[OF assms(3), of "pt_next_offset p" now] assms(2) by (auto simp: plain_ready_def)
  obtain ss where ss: "part_inv crc p ss" "contents ss = rs" using assms(1) by (auto simp: plain_holds_def)
  show ?thesis
  proof (cases "irs = [] \<or> pt_poisoned p")
    case True
    then have "p' = p" "res = Inr [] \<and> irs = [] \<or> res = Inl Fenced" using assms(4) by (auto simp: plain_ops_def append_batch_def split: if_splits)
    then show ?thesis using assms(1) by (intro exI[of _ "[]"]) auto
  next
    case False
    then have e: "append_batch crc now (map to_append irs) Policy p = (res, p')" using assms(4) by (simp add: plain_ops_def)
    have none: "list_all (\<lambda>r. ar_offset r = None) (map to_append irs)" by (simp add: list_all_iff to_append_def)
    note A = append_batch_ok[OF ss(1) _ a(3), of Policy, unfolded e]
    show ?thesis
    proof (cases res)
      case (Inr offs)
      then show ?thesis using A False a ss(2) by (intro exI[of _ "snd ?a"]) (auto simp: plain_holds_def)
    next
      case (Inl er)
      then obtain ss' where s: "part_inv crc p' ss'" "prefix rs (contents ss')" "prefix (contents ss') (rs @ snd ?a)"
        using A False none ss(2) by auto
      obtain new where new: "contents ss' = rs @ new" using s(2) by (auto simp: prefix_def)
      then have "prefix new (snd ?a)" using s(3) by simp
      then have "prefix (map payload new) (map (\<lambda>r. (ir_key r, ir_value r)) irs)" using map_mono_prefix[of new "snd ?a" payload] a(2) by simp
      then show ?thesis using Inl s(1) new by (intro exI[of _ new]) (auto simp: plain_holds_def)
    qed
  qed
qed

lemma plain_append_done:
  assumes "plain_holds crc p rs" "plain_ready now p (length irs)" "\<forall>r \<in> set irs. record_bytes (ir_key r) (ir_value r) \<le> CAP"
    and "po_append (plain_ops crc now) (map to_append irs) p = (Inr offs, p')"
  shows "\<exists>new. plain_holds crc p' (rs @ new) \<and> map r_offset new = offs \<and> map payload new = map (\<lambda>r. (ir_key r, ir_value r)) irs"
  using plain_append[OF assms] unfolding sum.case .

lemma plain_append_failed:
  assumes "plain_holds crc p rs" "plain_ready now p (length irs)" "\<forall>r \<in> set irs. record_bytes (ir_key r) (ir_value r) \<le> CAP"
    and "po_append (plain_ops crc now) (map to_append irs) p = (Inl e, p')"
  shows "\<exists>new. plain_holds crc p' (rs @ new) \<and> prefix (map payload new) (map (\<lambda>r. (ir_key r, ir_value r)) irs)"
  using plain_append[OF assms] unfolding sum.case .

lemma plain_record_log: "record_log (po_append (plain_ops crc now)) (plain_holds crc) (plain_ready now) CAP"
  by (rule record_log.intro; blast dest: plain_append_done plain_append_failed)

interpretation plain_log: record_log "po_append (plain_ops crc now)" "plain_holds crc" "plain_ready now" CAP
  for crc and now
  by (rule plain_record_log)


section \<open>Properties\<close>



definition broker_of :: "'p topic \<Rightarrow> 'p broker" where
  "broker_of t = \<lparr>br_config = config_new (''127.0.0.1'', 4000) 1024, br_topics = [(tp_name t, t)],
     br_keys = \<lparr>ks_keys = [], ks_by_hash = [], ks_limiters = [], ks_revocations = 0, ks_file = None, ks_bootstrap = None\<rparr>,
     br_producers = empty_registry\<rparr>"






text \<open>C9: what a request does to the partitions of its topic, without Raft. It never panics. Answered, it
  has added to each partition exactly its new records routed there, in the order of the request,
  each at the offset it was answered; the rest of the contents is as before. Failed, with faults
  at any point, each partition has at most gained some of the request's records in order.\<close>

theorem produce_appends_exactly:
  assumes "produce en key topic recs producer_id b = (res, b')" "en_ops en = plain_ops crc now" "i64_min \<le> now" "now \<le> i64_max"
    and "map_of (br_topics b) topic = Some t" "tp_name t = topic" "tp_partitions t \<noteq> []" "validate_limits (br_config b)"
    and "\<forall>p < length (tp_partitions t). (\<exists>ss. part_inv crc (tp_partitions t ! p) ss \<and> contents ss = L p) \<and>
       pt_next_offset (tp_partitions t ! p) + MAX_RECORDS_PER_REQUEST \<le> u64_max"
  shows "res \<noteq> Inl DataPanic \<and> (\<exists>u N. map_of (br_topics b') topic = Some u \<and> length (tp_partitions u) = length (tp_partitions t) \<and>
     (\<forall>p < length (tp_partitions t). \<exists>ss. part_inv crc (tp_partitions u ! p) ss \<and> contents ss = L p @ N p) \<and>
     (case res of
        Inr out \<Rightarrow> length out = length recs \<and> (\<forall>x \<in> set out. pu_partition x < length (tp_partitions t) \<and> (producer_id = None \<longrightarrow> \<not> pu_duplicate x)) \<and>
          (\<forall>p < length (tp_partitions t). map (\<lambda>r. (r_offset r, payload r)) (N p) =
             map (\<lambda>i. (pu_offset (out ! i), ir_key (recs ! i), ir_value (recs ! i)))
               (filter (\<lambda>i. \<not> pu_duplicate (out ! i) \<and> pu_partition (out ! i) = p) [0..<length recs]))
      | Inl e \<Rightarrow> \<forall>p < length (tp_partitions t). subseq (map payload (N p)) (map (\<lambda>r. (ir_key r, ir_value r)) recs)))"
proof -
  have "\<forall>p < length (tp_partitions t). (\<exists>ss. part_inv crc (tp_partitions t ! p) ss \<and> contents ss = L p) \<and> (\<forall>n \<le> MAX_RECORDS_PER_REQUEST. plain_ready now (tp_partitions t ! p) n)"
    using assms(3,4,9) by (auto simp: plain_ready_def)
  moreover have "cf_max_record_bytes (br_config b) \<le> CAP" using assms(8) by (simp add: validate_limits_def CAP_def Let_def)
  ultimately show ?thesis
    by (rule plain_log.produce_stores[OF assms(1) arg_cong[OF assms(2), of po_append] assms(5-7), unfolded plain_holds_def])
qed

definition plain_env :: "partition request_env" where
  "plain_env = \<lparr>en_ops = plain_ops (\<lambda>_. 3) 5, en_json = sample_json, en_dropped = (\<lambda>_. False), en_journal_io = JournalDone, en_now_s = 0, en_now_ms = 5\<rparr>"

definition plain_topic :: "partition topic" where
  "plain_topic = new_topic ''orders'' [fresh_partition 40 1] (tp_config sample_topic) empty_topic_config"

definition unkeyed :: incoming_record where
  "unkeyed = \<lparr>ir_key = None, ir_value = [1], ir_partition = None, ir_sequence = None\<rparr>"

lemma unkeyed_appended: "\<exists>p'. po_append (plain_ops (\<lambda>_. 3) 5) [to_append unkeyed] (fresh_partition 40 1) = (Inr [0], p')"
  by (simp add: plain_ops_def append_batch_def append_steps to_append_def unkeyed_def publish_def observe_timestamp_def
      segment_open_empty_def update_last_def index_push_def sync_upto_def fsync_def file_length_def Let_def)

lemma unkeyed_produced:
  "\<exists>b'. produce plain_env ANONYMOUS_ADMIN ''orders'' [unkeyed] None (broker_of plain_topic) =
     (Inr [\<lparr>pu_partition = 0, pu_offset = 0, pu_duplicate = False\<rparr>], b')"
proof -
  obtain p' where p': "po_append (en_ops plain_env) [to_append unkeyed] (fresh_partition 40 1) = (Inr [0], p')"
    using unkeyed_appended by (auto simp: plain_env_def)
  let ?t = "plain_topic\<lparr>tp_rr_counter := 1\<rparr>"
  have g: "group_of [0] [None] 0 = [0]" "group_partitions [0] [None] = [0]" by (simp_all add: group_of_def group_partitions_def)
  have w: "write_groups (en_ops plain_env) [unkeyed] (group_of [0] [None]) [0] (tp_partitions ?t) = ([(0, [0], Inr [0])], [p'])"
    using p' by (simp add: g plain_topic_def new_topic_def)
  have r: "all_written [(0, [0], Inr [0])] = Some [(0, [0], [0])]" "set_results [(0, [0], [0])] [None] = [Some \<lparr>pu_partition = 0, pu_offset = 0, pu_duplicate = False\<rparr>]"
    by (simp_all add: all_written_def set_results_def)
  have wr: "\<exists>b'. write_records plain_env ANONYMOUS_ADMIN ''orders'' [unkeyed] [0] [None] None ?t b =
      (Inr [\<lparr>pu_partition = 0, pu_offset = 0, pu_duplicate = False\<rparr>], b')" for b
    unfolding write_records_def g(2) w r prod.case Let_def option.case by (simp add: r)
  have can: "can ANONYMOUS_ADMIN AclWrite ''orders''"
    by (simp add: can_def ANONYMOUS_ADMIN_def rule_matches_def prefix_matches_def)
  have rt: "route_records [unkeyed] plain_topic = (Inr [0], ?t)"
    by (simp add: unkeyed_def route_def plain_topic_def new_topic_def)
  have l: "map_of (br_topics (broker_of plain_topic)) ''orders'' = Some plain_topic" "ak_key_id ANONYMOUS_ADMIN = ''anonymous''"
    "check_produce (en_now_s plain_env) ''anonymous'' m (br_keys (broker_of plain_topic)) = (Inr (), br_keys (broker_of plain_topic))"
    "cf_max_record_bytes (br_config (broker_of plain_topic)) = 8388608" for m
    by (simp_all add: broker_of_def plain_topic_def new_topic_def check_produce_def config_new_def ANONYMOUS_ADMIN_def)
  show ?thesis
    unfolding produce_def using can rt wr
    by (simp add: l MAX_RECORDS_PER_REQUEST_def unkeyed_def record_bytes_def)
qed

theorem produce_appends_exactly_witness:
  "\<exists>out b' u ss. produce plain_env ANONYMOUS_ADMIN ''orders'' [unkeyed] None (broker_of plain_topic) = (Inr out, b') \<and>
     map_of (br_topics b') ''orders'' = Some u \<and> part_inv (\<lambda>_. 3) (tp_partitions u ! 0) ss \<and>
     map (\<lambda>r. (r_offset r, r_value r)) (contents ss) = [(0, [1])]"
proof -
  obtain b' where p: "produce plain_env ANONYMOUS_ADMIN ''orders'' [unkeyed] None (broker_of plain_topic) =
      (Inr [\<lparr>pu_partition = 0, pu_offset = 0, pu_duplicate = False\<rparr>], b')" using unkeyed_produced by blast
  have t: "map_of (br_topics (broker_of plain_topic)) ''orders'' = Some plain_topic" "tp_name plain_topic = ''orders''"
    "tp_partitions plain_topic = [fresh_partition 40 1]" "validate_limits (br_config (broker_of plain_topic))"
    "en_ops plain_env = plain_ops (\<lambda>_. 3) 5"
    by (simp_all add: broker_of_def plain_topic_def new_topic_def plain_env_def validate_limits_def config_new_def)
  have h: "\<forall>p < length (tp_partitions plain_topic). (\<exists>ss. part_inv (\<lambda>_. 3) (tp_partitions plain_topic ! p) ss \<and> contents ss = (\<lambda>_. []) p) \<and>
      pt_next_offset (tp_partitions plain_topic ! p) + MAX_RECORDS_PER_REQUEST \<le> u64_max"
    using fresh_partition_ok(1)[of "\<lambda>_. 3" 40 1] by (auto simp: t(3) fresh_partition_ok(4) MAX_RECORDS_PER_REQUEST_def contents_def intro!: exI[of _ "[(0, [])]"])
  note P = produce_appends_exactly[OF p t(5) _ _ t(1,2) _ t(4) h]
  from P obtain u N ss where u: "map_of (br_topics b') ''orders'' = Some u" "part_inv (\<lambda>_. 3) (tp_partitions u ! 0) ss" "contents ss = N 0"
    "map (\<lambda>r. (r_offset r, payload r)) (N 0) = [(0, ir_key unkeyed, ir_value unkeyed)]" by (auto simp: t(3))
  have "map (\<lambda>r. (r_offset r, r_value r)) (N 0) = map (\<lambda>(o', k, v). (o', v)) (map (\<lambda>r. (r_offset r, payload r)) (N 0))"
    by (simp add: payload_def)
  then have "map (\<lambda>r. (r_offset r, r_value r)) (contents ss) = [(0, [1])]" unfolding u(3,4) by (simp add: unkeyed_def)
  from p u(1,2) this show ?thesis by (intro exI conjI)
qed

text \<open>Reading on at the offset the last read gave, which is how a consumer follows a partition.\<close>

fun poll :: "(u8 list \<Rightarrow> 32 word) \<Rightarrow> partition \<Rightarrow> nat \<Rightarrow> nat \<Rightarrow> nat \<Rightarrow> nat \<Rightarrow> es_record list \<times> nat" where
  "poll crc p max_records max_bytes 0 target = ([], target)"
| "poll crc p max_records max_bytes (Suc k) target =
     (case read_records_raw crc p target max_records max_bytes of
        (out, nxt, _) \<Rightarrow> map_prod ((@) out) id (poll crc p max_records max_bytes k nxt))"

lemma offsets_increase:
  assumes "chained ss" "list_all (\<lambda>s. offsets_ok (fst s) (snd s)) ss"
  shows "sorted_wrt (<) (map r_offset (contents ss))"
  using assms
proof (induction ss)
  case (Cons s ss)
  have "r_offset r < r_offset q" if r: "r \<in> set (snd s)" and t: "t \<in> set ss" and q: "q \<in> set (snd t)" for r t q
  proof -
    have "r_offset r < next_after (fst s) (snd s)"
      using Cons.prems(2) r by (cases "snd s" rule: rev_cases) (auto simp: offsets_ok_def sorted_wrt_append next_after_def less_Suc_eq)
    moreover have "next_after (fst s) (snd s) \<le> fst t" using Cons.prems(1) t by (simp add: chained_def)
    moreover have "fst t \<le> r_offset q" using Cons.prems(2) t q by (auto simp: list_all_iff offsets_ok_def)
    ultimately show ?thesis by linarith
  qed
  moreover have "sorted_wrt (<) (map r_offset (contents ss))" using Cons by (simp add: chained_def)
  ultimately show ?case using Cons.prems(2) by (auto simp: contents_def sorted_wrt_append offsets_ok_def)
qed (simp add: contents_def)

lemma at_least_rest:
  assumes "sorted_wrt (<) (map r_offset rs)" "at_least t rs = out @ rest" "out \<noteq> []"
  shows "at_least (r_offset (last out) + 1) rs = rest"
proof -
  let ?n = "r_offset (last out)"
  have "last out \<in> set (at_least t rs)" using assms(2,3) by simp
  then have t: "t \<le> ?n" by (simp add: at_least_def)
  have "sorted_wrt (<) (map r_offset (at_least t rs))" using assms(1) by (simp add: at_least_def sorted_wrt_map sorted_wrt_filter)
  then have s: "sorted_wrt (<) (map r_offset out)" "\<forall>x \<in> set out. \<forall>y \<in> set rest. r_offset x < r_offset y"
    unfolding assms(2) by (auto simp: sorted_wrt_append)
  have "r_offset x \<le> ?n" if "x \<in> set out" for x
    using s(1) that assms(3) by (cases out rule: rev_cases) (auto simp: sorted_wrt_append intro: less_imp_le)
  then have "filter (\<lambda>r. ?n + 1 \<le> r_offset r) out = []" by (auto simp: filter_empty_conv not_le less_Suc_eq_le)
  moreover have "filter (\<lambda>r. ?n + 1 \<le> r_offset r) rest = rest" using s(2) assms(3) by (auto simp: filter_id_conv Suc_le_eq)
  moreover have "at_least (?n + 1) rs = filter (\<lambda>r. ?n + 1 \<le> r_offset r) (at_least t rs)"
    using t unfolding at_least_def filter_filter by (intro filter_cong) auto
  ultimately show ?thesis by (simp add: assms(2))
qed

lemma poll_at_end: "pt_next_offset p \<le> target \<Longrightarrow> poll crc p mr mb k target = ([], target)"
  by (induction k) (auto simp: read_records_raw_def Let_def)

lemma poll_reaches_end:
  assumes inv: "part_inv crc p ss" "list_all (\<lambda>r. rec_size r \<le> read_window mb) (contents ss)" "0 < mr"
    and "target \<le> pt_next_offset p" "length (at_least (max target (pt_start_offset p)) (contents ss)) < k"
  shows "poll crc p mr mb k target = (at_least (max target (pt_start_offset p)) (contents ss), pt_next_offset p)"
  using assms(4,5)
proof (induction k arbitrary: target)
  case (Suc k)
  let ?A = "at_least (max target (pt_start_offset p)) (contents ss)"
  have below: "r_offset r < pt_next_offset p" if "r \<in> set (contents ss)" for r
    using inv(1) that by (auto simp: part_inv_def part_core_def list_all_iff)
  show ?case
  proof (cases "target < pt_next_offset p")
    case False
    then have "?A = []" using below by (auto simp: at_least_def filter_empty_conv not_le) (meson not_le order_trans less_le_trans)
    then show ?thesis using False Suc.prems(1) poll_at_end[of p target crc mr mb "Suc k"] by simp
  next
    case True
    obtain out nxt hwm where r: "read_records_raw crc p target mr mb = (out, nxt, hwm)" by (metis prod_cases3)
    note R = read_records_raw_ok[OF inv(1,2) True inv(3) r]
    show ?thesis
    proof (cases "out = []")
      case True
      then show ?thesis using R poll_at_end[of p nxt crc mr mb k] by (simp add: r)
    next
      case False
      obtain rest where rest: "?A = out @ rest" using R(1) by (auto simp: prefix_def)
      have srt: "sorted_wrt (<) (map r_offset (contents ss))"
        using inv(1) by (intro offsets_increase recovers_offsets) (auto simp: part_inv_def part_core_def)
      have nxt: "nxt = r_offset (last out) + 1" using R(3) False by simp
      have l: "last out \<in> set ?A" unfolding rest using False by simp
      then have "last out \<in> set (contents ss)" "pt_start_offset p \<le> r_offset (last out)" by (auto simp: at_least_def)
      then have m: "max nxt (pt_start_offset p) = nxt" "nxt \<le> pt_next_offset p" using below nxt by (auto simp: Suc_le_eq)
      have "at_least nxt (contents ss) = rest" unfolding nxt by (rule at_least_rest[OF srt rest False])
      then show ?thesis using Suc.IH[OF m(2)] Suc.prems(2) rest False by (cases out) (simp_all add: r m(1))
    qed
  qed
qed simp

text \<open>C11: a consumer that reads on at the offset it was given receives everything. With one poll more than
  there are records left it has received exactly the records from its offset on, in order and each
  once, and stands at the end of the log, whatever the limits per read; further polls add nothing.
  The proviso is that no record exceeds the read window.\<close>

theorem polling_delivers_everything:
  assumes "part_inv crc p ss" "list_all (\<lambda>r. rec_size r \<le> read_window max_bytes) (contents ss)" "0 < max_records"
    and "target \<le> pt_next_offset p" "length (at_least (max target (pt_start_offset p)) (contents ss)) < k"
  shows "poll crc p max_records max_bytes k target = (at_least (max target (pt_start_offset p)) (contents ss), pt_next_offset p)"
  using assms by (rule poll_reaches_end)

theorem polling_delivers_everything_witness:
  "map r_value (fst (poll (\<lambda>_. 3) two_appends 1 100 3 0)) = [[1], [2]]"
proof -
  obtain ss where ss: "part_inv (\<lambda>_. 3) two_appends ss" "contents ss = snd (assign 0 0 two_records)" by (rule two_appends_inv)
  have "poll (\<lambda>_. 3) two_appends 1 100 3 0 = (at_least (max 0 (pt_start_offset two_appends)) (contents ss), pt_next_offset two_appends)"
  proof (rule polling_delivers_everything[OF ss(1)])
    show "list_all (\<lambda>r. rec_size r \<le> read_window 100) (contents ss)"
      unfolding ss(2) by (simp add: two_records_def plain_record_def rec_size_eq key_bytes_len_def read_window_def le_max_iff_disj)
    show "length (at_least (max 0 (pt_start_offset two_appends)) (contents ss)) < 3"
      unfolding ss(2) by (simp add: two_records_def plain_record_def two_appends_eq at_least_def)
  qed simp_all
  then show ?thesis unfolding ss(2) by (simp add: two_records_def plain_record_def two_appends_eq at_least_def)
qed

end
